(* ===== verification/Prelude.thy ===== *)
theory Prelude
  imports Main "HOL-Library.Word"
begin

text \<open>
  Shared ground of the development: how Rust results, panics and machine integers are
  represented, and the generic lemmas on lists, options and words the components use.

  \<^item> \<open>('a, 'e) result\<close> is Rust's \<open>Result\<close> with a third outcome \<open>Panic\<close> for
    \<open>unwrap\<close>, \<open>expect\<close>, \<open>assert!\<close>, out-of-range indexing and arithmetic overflow.
  \<^item> \<open>leading_zeros\<close>, \<open>trailing_zeros\<close>, \<open>trailing_ones\<close> and \<open>count_ones\<close> are the methods of
    the same names on Rust's unsigned integers.
\<close>

unbundle bit_operations_syntax

named_theorems result_simps \<open>case analysis of Rust results\<close>
named_theorems word_nat \<open>reading words as natural numbers\<close>

type_synonym u8 = "8 word"
type_synonym u16 = "16 word"
type_synonym u32 = "32 word"
type_synonym u64 = "64 word"
type_synonym bytes = "u8 list"

section \<open>Results and panics\<close>

datatype ('a, 'e) result = Ok 'a | Err 'e | Panic

primrec and_then :: "('a, 'e) result \<Rightarrow> ('a \<Rightarrow> ('b, 'e) result) \<Rightarrow> ('b, 'e) result" where
  "and_then (Ok x) f = f x"
| "and_then (Err e) f = Err e"
| "and_then Panic f = Panic"

primrec map_err :: "('e \<Rightarrow> 'f) \<Rightarrow> ('a, 'e) result \<Rightarrow> ('a, 'f) result" where
  "map_err f (Ok x) = Ok x"
| "map_err f (Err e) = Err (f e)"
| "map_err f Panic = Panic"

lemma and_then_eq_Ok [result_simps]:
  "and_then m f = Ok y \<longleftrightarrow> (\<exists>x. m = Ok x \<and> f x = Ok y)"
  by (cases m) auto

lemma and_then_eq_Err [result_simps]:
  "and_then m f = Err e \<longleftrightarrow> m = Err e \<or> (\<exists>x. m = Ok x \<and> f x = Err e)"
  by (cases m) auto

lemma and_then_eq_Panic [result_simps]:
  "and_then m f = Panic \<longleftrightarrow> m = Panic \<or> (\<exists>x. m = Ok x \<and> f x = Panic)"
  by (cases m) auto

lemma and_then_assoc: "and_then (and_then m f) g = and_then m (\<lambda>x. and_then (f x) g)"
  by (cases m) auto

section \<open>Checked arithmetic\<close>

text \<open>
  Where the code computes with \<open>u64\<close> and relies on the operation staying in range, the value is a
  natural number and the operation is checked: leaving the range is \<open>Panic\<close>, as it is with
  Rust's overflow checks. The results that an operation is \<open>Ok\<close> show that no wrap-around occurs.
\<close>

definition u64_max :: nat where "u64_max = 2 ^ 64 - 1"

definition u64_add :: "nat \<Rightarrow> nat \<Rightarrow> (nat, 'e) result" where
  "u64_add a b = (if a + b \<le> u64_max then Ok (a + b) else Panic)"

definition u64_sub :: "nat \<Rightarrow> nat \<Rightarrow> (nat, 'e) result" where
  "u64_sub a b = (if b \<le> a then Ok (a - b) else Panic)"

definition u64_mul :: "nat \<Rightarrow> nat \<Rightarrow> (nat, 'e) result" where
  "u64_mul a b = (if a * b \<le> u64_max then Ok (a * b) else Panic)"

lemma u64_add_Ok [simp]: "a + b \<le> u64_max \<Longrightarrow> u64_add a b = Ok (a + b)"
  by (simp add: u64_add_def)

lemma u64_sub_Ok [simp]: "b \<le> a \<Longrightarrow> u64_sub a b = Ok (a - b)"
  by (simp add: u64_sub_def)

lemma u64_mul_Ok [simp]: "a * b \<le> u64_max \<Longrightarrow> u64_mul a b = Ok (a * b)"
  by (simp add: u64_mul_def)

section \<open>Bit counting on machine words\<close>

definition leading_zeros :: "'a::len word \<Rightarrow> nat" where
  "leading_zeros w = length (takeWhile (\<lambda>i. \<not> bit w i) (rev [0..<LENGTH('a)]))"

definition trailing_zeros :: "'a::len word \<Rightarrow> nat" where
  "trailing_zeros w = length (takeWhile (\<lambda>i. \<not> bit w i) [0..<LENGTH('a)])"

definition trailing_ones :: "'a::len word \<Rightarrow> nat" where
  "trailing_ones w = length (takeWhile (bit w) [0..<LENGTH('a)])"

definition count_ones :: "'a::len word \<Rightarrow> nat" where
  "count_ones w = length (filter (bit w) [0..<LENGTH('a)])"

lemma leading_zeros_le: "leading_zeros (w :: 'a::len word) \<le> LENGTH('a)"
  unfolding leading_zeros_def
  by (metis length_rev length_takeWhile_le length_upt minus_nat.diff_0)

lemma rev_upt_nth: "i < n \<Longrightarrow> rev [0..<n] ! i = n - Suc i"
  by (simp add: rev_nth)

lemma leading_zeros_not_bit:
  assumes "LENGTH('a) - leading_zeros w \<le> i" "i < LENGTH('a)"
  shows "\<not> bit (w :: 'a::len word) i"
proof -
  let ?l = "rev [0..<LENGTH('a)]"
  define j where "j = LENGTH('a) - Suc i"
  have j: "j < leading_zeros w" using assms j_def by linarith
  then have "takeWhile (\<lambda>i. \<not> bit w i) ?l ! j = ?l ! j"
    unfolding leading_zeros_def by (rule takeWhile_nth)
  moreover have "?l ! j = i" using assms(2) by (simp add: j_def rev_nth)
  moreover have "takeWhile (\<lambda>i. \<not> bit w i) ?l ! j \<in> set (takeWhile (\<lambda>i. \<not> bit w i) ?l)"
    using j unfolding leading_zeros_def by (rule nth_mem)
  ultimately show ?thesis by (metis set_takeWhileD)
qed

lemma leading_zeros_bit:
  assumes "leading_zeros (w :: 'a::len word) < LENGTH('a)"
  shows "bit w (LENGTH('a) - leading_zeros w - 1)"
proof -
  let ?l = "rev [0..<LENGTH('a)]"
  have "\<not> (\<not> bit w (?l ! leading_zeros w))"
    using assms nth_length_takeWhile [of "\<lambda>i. \<not> bit w i" ?l] by (simp add: leading_zeros_def)
  then show ?thesis using assms by (simp add: rev_nth)
qed

lemma unat_less_leading_zeros [word_nat]:
  "unat w < 2 ^ (LENGTH('a) - leading_zeros w)" for w :: "'a::len word"
proof -
  let ?k = "LENGTH('a) - leading_zeros w"
  have "take_bit ?k w = w"
  proof (rule bit_word_eqI)
    fix n assume "n < LENGTH('a)"
    then show "bit (take_bit ?k w) n = bit w n"
      using leading_zeros_not_bit [of w n] by (cases "n < ?k") (auto simp: bit_take_bit_iff)
  qed
  then have "unat w = take_bit ?k (unat w)" by (metis unsigned_take_bit_eq)
  then show ?thesis by (metis take_bit_nat_less_exp)
qed

lemma unat_ge_leading_zeros:
  assumes "w \<noteq> 0"
  shows "2 ^ (LENGTH('a) - leading_zeros w - 1) \<le> unat (w :: 'a::len word)"
proof -
  have lt: "leading_zeros w < LENGTH('a)"
  proof (rule ccontr)
    assume "\<not> ?thesis"
    then have "unat w < 2 ^ 0" using unat_less_leading_zeros [of w] by simp
    with assms show False by (simp add: unat_eq_0)
  qed
  let ?k = "LENGTH('a) - leading_zeros w - 1"
  have "bit (unat w) ?k"
    using leading_zeros_bit [OF lt] by (simp add: bit_unsigned_iff)
  then have "odd (unat w div 2 ^ ?k)" by (simp add: bit_iff_odd)
  then have "1 \<le> unat w div 2 ^ ?k" by (auto simp: odd_pos Suc_leI)
  then show ?thesis by (simp add: div_greater_zero_iff Suc_le_eq)
qed

lemma leading_zeros_unique:
  assumes "unat (w :: 'a::len word) < 2 ^ k" "k = 0 \<or> 2 ^ (k - 1) \<le> unat w"
  shows "LENGTH('a) - leading_zeros w = k"
proof (cases "w = 0")
  case True
  then have "k = 0" using assms(2) by auto
  moreover have "\<not> leading_zeros w < LENGTH('a)" using leading_zeros_bit [of w] True by auto
  ultimately show ?thesis by simp
next
  case False
  define m where "m = LENGTH('a) - leading_zeros w"
  have up: "unat w < 2 ^ m" and lo: "2 ^ (m - 1) \<le> unat w"
    using unat_less_leading_zeros [of w] unat_ge_leading_zeros [OF False] by (simp_all add: m_def)
  have "k \<noteq> 0" using assms(1) False by (cases k) (auto simp: unat_eq_0)
  then have "2 ^ (k - 1) < (2::nat) ^ m" using assms(2) up by linarith
  moreover have "2 ^ (m - 1) < (2::nat) ^ k" using assms(1) lo by linarith
  ultimately have "k - 1 < m" "m - 1 < k" by (metis nat_power_less_imp_less zero_less_numeral)+
  with \<open>k \<noteq> 0\<close> show ?thesis by (auto simp: m_def)
qed

section \<open>Joining bit fields\<close>

lemma unat_of_nat_less: "n < 2 ^ LENGTH('a) \<Longrightarrow> unat (word_of_nat n :: 'a::len word) = n"
  by (simp add: unat_of_nat)

lemma unat_drop_bit [word_nat]: "unat (drop_bit n w) = unat w div 2 ^ n"
  unfolding unat_drop_bit_eq by (simp add: drop_bit_eq_div)

lemma unat_take_bit [word_nat]: "unat (take_bit n w) = unat w mod 2 ^ n"
  unfolding unsigned_take_bit_eq by (simp add: take_bit_eq_mod)

lemma or_push_bit_nat:
  fixes r x :: nat
  assumes "r < 2 ^ k"
  shows "r OR push_bit k x = r + x * 2 ^ k"
proof -
  have r: "take_bit k r = r" using assms by (simp add: take_bit_nat_eq_self)
  have "r AND push_bit k x = 0"
  proof (rule bit_eqI)
    fix n
    have "bit r n \<Longrightarrow> n < k" using r by (metis bit_take_bit_iff)
    then show "bit (r AND push_bit k x) n = bit 0 n"
      by (auto simp: bit_and_iff bit_push_bit_iff)
  qed
  then have "r + push_bit k x = r OR push_bit k x" by (rule disjunctive_add_eq_or)
  then show ?thesis by (simp add: push_bit_eq_mult)
qed

lemma unat_or_push_bit [word_nat]:
  assumes "unat r < 2 ^ k" "x * 2 ^ k + unat r < 2 ^ LENGTH('a)"
  shows "unat ((r :: 'a::len word) OR push_bit k (word_of_nat x)) = unat r + x * 2 ^ k"
proof -
  have "push_bit k (word_of_nat x :: 'a word) = word_of_nat (x * 2 ^ k)"
    by (simp add: push_bit_eq_mult)
  then have "unat (push_bit k (word_of_nat x :: 'a word)) = take_bit LENGTH('a) (x * 2 ^ k)"
    by (simp only: unsigned_of_nat of_nat_id)
  also have "\<dots> = push_bit k x"
    using assms(2) by (simp add: take_bit_nat_eq_self push_bit_eq_mult)
  finally show ?thesis
    using assms(1) by (simp add: unsigned_or_eq or_push_bit_nat)
qed

section \<open>Big-endian bytes\<close>

text \<open>Rust's \<open>to_be_bytes\<close> and \<open>from_be_bytes\<close>.\<close>

definition to_be_bytes :: "'a::len word \<Rightarrow> bytes" where
  "to_be_bytes w = map (\<lambda>i. ucast (drop_bit (8 * i) w)) (rev [0..<LENGTH('a) div 8])"

definition from_be_bytes :: "bytes \<Rightarrow> 'a::len word" where
  "from_be_bytes bs = word_of_nat (horner_sum unat 256 (rev bs))"

lemma length_to_be_bytes [simp]: "length (to_be_bytes (w :: 'a::len word)) = LENGTH('a) div 8"
  by (simp add: to_be_bytes_def)

lemma byte_of_word: "ucast (drop_bit (8 * i) w) = (word_of_nat (unat w div 256 ^ i) :: u8)"
  using of_nat_unat [of "drop_bit (8 * i) w", where 'a = u8] unat_drop_bit [of "8 * i" w]
  by (simp add: power_mult)

lemma horner_bytes: "horner_sum unat 256 (map (\<lambda>i. word_of_nat (n div 256 ^ i) :: u8) [0..<k]) = n mod 256 ^ k"
proof (induction k)
  case (Suc k)
  have "unat (word_of_nat (n div 256 ^ k) :: u8) = n div 256 ^ k mod 256"
    by (simp add: unat_of_nat)
  then have "horner_sum unat 256 (map (\<lambda>i. word_of_nat (n div 256 ^ i) :: u8) [0..<Suc k])
      = n mod 256 ^ k + 256 ^ k * (n div 256 ^ k mod 256)"
    using Suc by (simp add: horner_sum_append)
  also have "\<dots> = n mod 256 ^ Suc k"
    using mod_mult2_eq [of n "256 ^ k" 256] by (simp add: mult.commute)
  finally show ?case .
qed simp

lemma bytes_horner:
  "map (\<lambda>i. word_of_nat (horner_sum unat 256 bs div 256 ^ i)) [0..<length bs] = (bs :: bytes)"
proof (induction bs)
  case (Cons b bs)
  have b: "unat b < 256" using unsigned_less [where 'a = nat, of b] by simp
  let ?h = "horner_sum unat 256 bs"
  have u: "[0..<length (b # bs)] = 0 # map Suc [0..<length bs]"
    by (simp add: map_Suc_upt upt_conv_Cons del: upt_Suc)
  have d: "(unat b + 256 * ?h) div 256 ^ Suc i = ?h div 256 ^ i" for i
    using b by (simp only: power_Suc div_mult2_eq) simp
  have "(256 :: u8) = 2 ^ LENGTH(8)" by simp
  then have "(256 :: u8) = 0" by (simp only: word_exp_length_eq_0)
  then have w: "word_of_nat (unat b + 256 * ?h) = b"
    by (simp only: of_nat_add of_nat_mult of_nat_numeral) simp
  have "map (\<lambda>i. word_of_nat ((unat b + 256 * ?h) div 256 ^ i)) [0..<length (b # bs)]
    = b # map (\<lambda>i. word_of_nat (?h div 256 ^ i)) [0..<length bs]"
    unfolding u by (simp only: list.map map_map comp_def d w power_0 div_by_1)
  with Cons show ?case by simp
qed simp

lemma from_to_be_bytes:
  fixes w :: "'a::len word"
  assumes "8 dvd LENGTH('a)"
  shows "from_be_bytes (to_be_bytes w) = w"
proof -
  have "(256::nat) ^ (LENGTH('a) div 8) = 2 ^ LENGTH('a)"
    using assms power_mult [of "2::nat" 8 "LENGTH('a) div 8"] by simp
  then have "horner_sum unat 256 (rev (to_be_bytes w)) = unat w"
    using horner_bytes [of "unat w" "LENGTH('a) div 8"]
    by (simp add: to_be_bytes_def byte_of_word rev_map)
  then show ?thesis by (simp add: from_be_bytes_def)
qed

lemma to_from_be_bytes:
  assumes "8 dvd LENGTH('a::len)" "length bs = LENGTH('a) div 8"
  shows "to_be_bytes (from_be_bytes bs :: 'a word) = bs"
proof -
  have "(256::nat) ^ (LENGTH('a) div 8) = 2 ^ LENGTH('a)"
    using assms power_mult [of "2::nat" 8 "LENGTH('a) div 8"] by simp
  moreover have "horner_sum unat 256 (rev bs) < 256 ^ length bs"
    using horner_bytes [of "horner_sum unat 256 (rev bs)" "length bs"] bytes_horner [of "rev bs"]
    by (metis length_rev mod_less_divisor zero_less_numeral zero_less_power)
  ultimately have "unat (from_be_bytes bs :: 'a word) = horner_sum unat 256 (rev bs)"
    using assms(2) by (simp add: from_be_bytes_def unat_of_nat_less)
  then have "rev (to_be_bytes (from_be_bytes bs :: 'a word)) = rev bs"
    using bytes_horner [of "rev bs"] assms(2)
    by (simp add: to_be_bytes_def byte_of_word rev_map)
  then show ?thesis by simp
qed

end
