(* ===== verification/BTree.thy ===== *)
theory BTree
  imports Prelude
begin

text \<open>
  Rust's \<open>BTreeMap\<close> as the components use it: an association list in ascending order of its
  keys, with the operations \<open>get\<close>, \<open>insert\<close>, \<open>remove\<close>, \<open>first_key_value\<close>, \<open>last_key_value\<close>,
  \<open>range(..=k).next_back()\<close> and \<open>range(k..).next()\<close>. The locale \<open>ordered_map\<close> is what the
  components rely on; its laws are stated on the lookup function.
\<close>

section \<open>Operations\<close>

type_synonym ('k, 'v) btree = "('k \<times> 'v) list"

definition bt_get :: "('k, 'v) btree \<Rightarrow> 'k \<Rightarrow> 'v option" where
  "bt_get m k = map_of m k"

fun bt_insert :: "'k::linorder \<Rightarrow> 'v \<Rightarrow> ('k, 'v) btree \<Rightarrow> ('k, 'v) btree" where
  "bt_insert k v [] = [(k, v)]"
| "bt_insert k v ((k', v') # m) =
     (if k < k' then (k, v) # (k', v') # m
      else if k = k' then (k, v) # m
      else (k', v') # bt_insert k v m)"

fun bt_remove :: "'k \<Rightarrow> ('k, 'v) btree \<Rightarrow> ('k, 'v) btree" where
  "bt_remove k [] = []"
| "bt_remove k ((k', v') # m) = (if k = k' then m else (k', v') # bt_remove k m)"

definition bt_first :: "('k, 'v) btree \<Rightarrow> ('k \<times> 'v) option" where
  "bt_first m = (case m of [] \<Rightarrow> None | kv # _ \<Rightarrow> Some kv)"

definition bt_last :: "('k, 'v) btree \<Rightarrow> ('k \<times> 'v) option" where
  "bt_last m = (if m = [] then None else Some (last m))"

text \<open>\<open>range(..=k).next_back()\<close> and \<open>range(k..).next()\<close>.\<close>

definition bt_last_le :: "('k::linorder, 'v) btree \<Rightarrow> 'k \<Rightarrow> ('k \<times> 'v) option" where
  "bt_last_le m k = bt_last (filter (\<lambda>(k', _). k' \<le> k) m)"

definition bt_first_ge :: "('k::linorder, 'v) btree \<Rightarrow> 'k \<Rightarrow> ('k \<times> 'v) option" where
  "bt_first_ge m k = bt_first (filter (\<lambda>(k', _). k \<le> k') m)"

text \<open>\<open>split_off(&k)\<close>: what stays and what is returned.\<close>

definition bt_split_off :: "'k::linorder \<Rightarrow> ('k, 'v) btree \<Rightarrow> ('k, 'v) btree \<times> ('k, 'v) btree" where
  "bt_split_off k m = (filter (\<lambda>(k', _). k' < k) m, filter (\<lambda>(k', _). k \<le> k') m)"

definition bt_inv :: "('k::linorder, 'v) btree \<Rightarrow> bool" where
  "bt_inv m \<longleftrightarrow> sorted_wrt (<) (map fst m)"

section \<open>The interface\<close>

locale ordered_map =
  fixes empty :: 'm
    and get :: "'m \<Rightarrow> 'k::linorder \<Rightarrow> 'v option"
    and insert :: "'k \<Rightarrow> 'v \<Rightarrow> 'm \<Rightarrow> 'm"
    and remove :: "'k \<Rightarrow> 'm \<Rightarrow> 'm"
    and last_le :: "'m \<Rightarrow> 'k \<Rightarrow> ('k \<times> 'v) option"
    and first_ge :: "'m \<Rightarrow> 'k \<Rightarrow> ('k \<times> 'v) option"
    and invar :: "'m \<Rightarrow> bool"
  assumes invar_empty: "invar empty"
    and invar_insert: "invar m \<Longrightarrow> invar (insert k v m)"
    and invar_remove: "invar m \<Longrightarrow> invar (remove k m)"
    and get_empty: "get empty k = None"
    and get_insert: "invar m \<Longrightarrow> get (insert k v m) = (get m)(k \<mapsto> v)"
    and get_remove: "invar m \<Longrightarrow> get (remove k m) = (get m)(k := None)"
    and finite_dom: "finite (dom (get m))"
    and last_le_Some: "invar m \<Longrightarrow> last_le m k = Some (k', v) \<longleftrightarrow>
      get m k' = Some v \<and> k' \<le> k \<and> (\<forall>j \<in> dom (get m). j \<le> k \<longrightarrow> j \<le> k')"
    and first_ge_Some: "invar m \<Longrightarrow> first_ge m k = Some (k', v) \<longleftrightarrow>
      get m k' = Some v \<and> k \<le> k' \<and> (\<forall>j \<in> dom (get m). k \<le> j \<longrightarrow> k' \<le> j)"
begin

lemma last_le_None:
  assumes "invar m"
  shows "last_le m k = None \<longleftrightarrow> (\<forall>j \<in> dom (get m). k < j)"
proof
  assume n: "last_le m k = None"
  show "\<forall>j \<in> dom (get m). k < j"
  proof (rule ccontr)
    assume "\<not> ?thesis"
    then have ne: "{j \<in> dom (get m). j \<le> k} \<noteq> {}" by force
    let ?M = "Max {j \<in> dom (get m). j \<le> k}"
    have M: "?M \<in> {j \<in> dom (get m). j \<le> k}" using ne finite_dom by (intro Max_in) auto
    then obtain v where "get m ?M = Some v" by auto
    moreover have "\<forall>j \<in> dom (get m). j \<le> k \<longrightarrow> j \<le> ?M" using finite_dom by (auto intro: Max_ge)
    ultimately have "last_le m k = Some (?M, v)" using last_le_Some [OF assms] M by blast
    with n show False by simp
  qed
next
  assume lt: "\<forall>j \<in> dom (get m). k < j"
  show "last_le m k = None"
  proof (rule ccontr)
    assume "last_le m k \<noteq> None"
    then obtain k' v where "last_le m k = Some (k', v)" by auto
    then have "k' \<in> dom (get m)" "k' \<le> k" using last_le_Some [OF assms, of k] by auto
    with lt show False by (meson leD)
  qed
qed

lemma first_ge_None:
  assumes "invar m"
  shows "first_ge m k = None \<longleftrightarrow> (\<forall>j \<in> dom (get m). j < k)"
proof
  assume n: "first_ge m k = None"
  show "\<forall>j \<in> dom (get m). j < k"
  proof (rule ccontr)
    assume "\<not> ?thesis"
    then have ne: "{j \<in> dom (get m). k \<le> j} \<noteq> {}" by force
    let ?M = "Min {j \<in> dom (get m). k \<le> j}"
    have M: "?M \<in> {j \<in> dom (get m). k \<le> j}" using ne finite_dom by (intro Min_in) auto
    then obtain v where "get m ?M = Some v" by auto
    moreover have "\<forall>j \<in> dom (get m). k \<le> j \<longrightarrow> ?M \<le> j" using finite_dom by (auto intro: Min_le)
    ultimately have "first_ge m k = Some (?M, v)" using first_ge_Some [OF assms] M by blast
    with n show False by simp
  qed
next
  assume lt: "\<forall>j \<in> dom (get m). j < k"
  show "first_ge m k = None"
  proof (rule ccontr)
    assume "first_ge m k \<noteq> None"
    then obtain k' v where "first_ge m k = Some (k', v)" by auto
    then have "k' \<in> dom (get m)" "k \<le> k'" using first_ge_Some [OF assms, of k] by auto
    with lt show False by (meson leD)
  qed
qed

lemma last_le_SomeD:
  assumes "invar m" "last_le m k = Some (k', v)"
  shows "get m k' = Some v" "k' \<le> k" "\<And>j w. get m j = Some w \<Longrightarrow> j \<le> k \<Longrightarrow> j \<le> k'"
  using assms by (auto simp: last_le_Some)

lemma first_ge_SomeD:
  assumes "invar m" "first_ge m k = Some (k', v)"
  shows "get m k' = Some v" "k \<le> k'" "\<And>j w. get m j = Some w \<Longrightarrow> k \<le> j \<Longrightarrow> k' \<le> j"
  using assms by (auto simp: first_ge_Some)

end

section \<open>The association list implements it\<close>

lemma bt_inv_Cons [simp]: "bt_inv ((k, v) # m) \<longleftrightarrow> (\<forall>j \<in> fst ` set m. k < j) \<and> bt_inv m"
  by (auto simp: bt_inv_def)

lemma bt_inv_Nil [simp]: "bt_inv []"
  by (simp add: bt_inv_def)

lemma bt_keys_insert: "fst ` set (bt_insert k v m) = insert k (fst ` set m)"
  by (induction k v m rule: bt_insert.induct) auto

lemma bt_keys_remove: "bt_inv m \<Longrightarrow> fst ` set (bt_remove k m) = fst ` set m - {k}"
  by (induction k m rule: bt_remove.induct) auto

lemma bt_inv_insert: "bt_inv m \<Longrightarrow> bt_inv (bt_insert k v m)"
proof (induction k v m rule: bt_insert.induct)
  case (2 k v k' v' m)
  then show ?case by (auto simp: bt_keys_insert)
qed simp

lemma bt_inv_remove: "bt_inv m \<Longrightarrow> bt_inv (bt_remove k m)"
proof (induction k m rule: bt_remove.induct)
  case (2 k k' v' m)
  then show ?case using bt_keys_remove [of m k] by auto
qed simp

lemma bt_get_insert: "bt_get (bt_insert k v m) = (bt_get m)(k \<mapsto> v)"
  by (induction k v m rule: bt_insert.induct) (auto simp: bt_get_def fun_eq_iff)

lemma bt_get_notin: "k \<notin> fst ` set m \<Longrightarrow> bt_get m k = None"
  by (simp add: bt_get_def map_of_eq_None_iff)

lemma bt_get_remove: "bt_inv m \<Longrightarrow> bt_get (bt_remove k m) = (bt_get m)(k := None)"
proof (induction k m rule: bt_remove.induct)
  case (2 k k' v' m)
  then show ?case
    by (auto simp: bt_get_def fun_eq_iff map_of_eq_None_iff)
qed (simp add: bt_get_def fun_eq_iff)

lemma bt_get_Some: "bt_inv m \<Longrightarrow> bt_get m k = Some v \<longleftrightarrow> (k, v) \<in> set m"
  unfolding bt_get_def bt_inv_def
  by (rule map_of_eq_Some_iff) (simp add: strict_sorted_iff)

lemma bt_get_eq: "bt_get m = map_of m"
  by (simp add: fun_eq_iff bt_get_def)

lemma bt_dom: "dom (bt_get m) = fst ` set m"
  by (simp add: bt_get_eq dom_map_of_conv_image_fst)

lemma bt_inv_filter: "bt_inv m \<Longrightarrow> bt_inv (filter P m)"
  by (induction m) (auto simp: bt_inv_def)

lemma bt_last_Some:
  assumes "bt_inv m"
  shows "bt_last m = Some (k, v) \<longleftrightarrow> (k, v) \<in> set m \<and> (\<forall>j \<in> fst ` set m. j \<le> k)"
  using assms
proof (induction m rule: rev_induct)
  case (snoc kv m)
  obtain k' v' where kv: "kv = (k', v')" by (cases kv)
  have lt: "\<forall>j \<in> fst ` set m. j < k'" using snoc.prems by (auto simp: kv bt_inv_def sorted_wrt_append)
  show ?case
  proof
    assume "(k, v) \<in> set (m @ [kv]) \<and> (\<forall>j \<in> fst ` set (m @ [kv]). j \<le> k)"
    then have "k' \<le> k" "(k, v) = (k', v') \<or> k < k'" using lt kv by auto
    then show "bt_last (m @ [kv]) = Some (k, v)" using kv by (auto simp: bt_last_def)
  qed (use lt kv in \<open>auto simp: bt_last_def less_imp_le\<close>)
qed (simp add: bt_last_def)

lemma bt_first_Some:
  assumes "bt_inv m"
  shows "bt_first m = Some (k, v) \<longleftrightarrow> (k, v) \<in> set m \<and> (\<forall>j \<in> fst ` set m. k \<le> j)"
proof (cases m)
  case (Cons kv m')
  obtain k' v' where kv: "kv = (k', v')" by (cases kv)
  have lt: "\<forall>j \<in> fst ` set m'. k' < j" using assms by (simp add: Cons kv)
  show ?thesis
  proof
    assume "(k, v) \<in> set m \<and> (\<forall>j \<in> fst ` set m. k \<le> j)"
    then have "k \<le> k'" "(k, v) = (k', v') \<or> k' < k" using lt kv Cons by auto
    then show "bt_first m = Some (k, v)" using kv Cons by (auto simp: bt_first_def)
  qed (use lt kv Cons in \<open>auto simp: bt_first_def less_imp_le\<close>)
qed (simp add: bt_first_def)

interpretation bt: ordered_map "[]" bt_get bt_insert bt_remove bt_last_le bt_first_ge bt_inv
proof
  show "bt_last_le m k = Some (k', v) \<longleftrightarrow>
      bt_get m k' = Some v \<and> k' \<le> k \<and> (\<forall>j \<in> dom (bt_get m). j \<le> k \<longrightarrow> j \<le> k')"
    if "bt_inv m" for m :: "('k::linorder, 'v) btree" and k k' v
    using bt_last_Some [OF bt_inv_filter [OF that], of "\<lambda>(k', _). k' \<le> k" k' v]
    by (auto simp: bt_last_le_def bt_get_Some [OF that] bt_dom)
  show "bt_first_ge m k = Some (k', v) \<longleftrightarrow>
      bt_get m k' = Some v \<and> k \<le> k' \<and> (\<forall>j \<in> dom (bt_get m). k \<le> j \<longrightarrow> k' \<le> j)"
    if "bt_inv m" for m :: "('k::linorder, 'v) btree" and k k' v
    using bt_first_Some [OF bt_inv_filter [OF that], of "\<lambda>(k', _). k \<le> k'" k' v]
    by (auto simp: bt_first_ge_def bt_get_Some [OF that] bt_dom)
qed (auto simp: bt_inv_insert bt_inv_remove bt_get_insert bt_get_remove bt_dom bt_get_def)

section \<open>Ascending insertion\<close>

lemma bt_get_filter:
  "bt_get (filter (\<lambda>(k', _). P k') m) k = (if P k then bt_get m k else None)"
  by (induction m) (auto simp: bt_get_def)

lemma bt_split_off_get:
  "bt_get (fst (bt_split_off k m)) j = (if j < k then bt_get m j else None)"
  "bt_get (snd (bt_split_off k m)) j = (if k \<le> j then bt_get m j else None)"
  by (simp_all add: bt_split_off_def bt_get_filter)

lemma bt_split_off_inv: "bt_inv m \<Longrightarrow> bt_inv (fst (bt_split_off k m)) \<and> bt_inv (snd (bt_split_off k m))"
  by (simp add: bt_split_off_def bt_inv_filter)

lemma bt_insert_snoc: "\<forall>j \<in> fst ` set m. j < k \<Longrightarrow> bt_insert k v m = m @ [(k, v)]"
  by (induction m) auto

lemma bt_inv_snoc: "bt_inv (m @ [(k, v)]) \<longleftrightarrow> bt_inv m \<and> (\<forall>j \<in> fst ` set m. j < k)"
  by (auto simp: bt_inv_def sorted_wrt_append)

section \<open>Sets\<close>

text \<open>\<open>BTreeSet\<close>: its elements in ascending order.\<close>

fun bs_insert :: "'k::linorder \<Rightarrow> 'k list \<Rightarrow> 'k list" where
  "bs_insert k [] = [k]"
| "bs_insert k (k' # s) =
     (if k < k' then k # k' # s else if k = k' then k # s else k' # bs_insert k s)"

definition bs_inv :: "'k::linorder list \<Rightarrow> bool" where
  "bs_inv s \<longleftrightarrow> sorted_wrt (<) s"

lemma set_bs_insert [simp]: "set (bs_insert k s) = insert k (set s)"
  by (induction k s rule: bs_insert.induct) auto

lemma bs_inv_insert: "bs_inv s \<Longrightarrow> bs_inv (bs_insert k s)"
proof (induction k s rule: bs_insert.induct)
  case (2 k k' s)
  then show ?case by (auto simp: bs_inv_def)
qed (simp add: bs_inv_def)

lemma bs_insert_snoc: "\<forall>j \<in> set s. j < k \<Longrightarrow> bs_insert k s = s @ [k]"
  by (induction s) auto

lemma bs_inv_snoc: "bs_inv (s @ [k]) \<longleftrightarrow> bs_inv s \<and> (\<forall>j \<in> set s. j < k)"
  by (auto simp: bs_inv_def sorted_wrt_append)

end
