(* ===== verification/RMap.thy ===== *)
theory RMap
  imports BTree
begin

text \<open>
  The interval map of \<open>storage/src/rmap/mod.rs\<close>: disjoint, non-adjacent inclusive ranges of \<open>u64\<close>,
  kept in a \<open>BTreeMap\<close> from the start of each range to its end. The abstraction \<open>covered\<close> is the set
  of the values in the ranges; every operation is shown to act on that set as its documentation
  says, to keep the representation invariant and never to overflow.
\<close>

section \<open>Definitions\<close>

record rmap =
  ranges :: "(nat, nat) btree"

definition rmap_new :: rmap where
  "rmap_new = \<lparr>ranges = []\<rparr>"

definition rmap_insert :: "nat \<Rightarrow> rmap \<Rightarrow> (rmap, unit) result" where
  "rmap_insert value self =
     (let rs = ranges self;
          prev_opt = bt_last_le rs value;
          next_opt = (if value = u64_max then None else bt_first_ge rs (value + 1))
      in case (prev_opt, next_opt) of
        (Some (p_start, p_end), Some (n_start, n_end)) \<Rightarrow>
          if value \<le> p_end then Ok self
          else and_then (u64_add p_end 1) (\<lambda>p_end1. and_then (u64_add value 1) (\<lambda>value1.
            if value = p_end1 \<and> value1 = n_start then
              Ok \<lparr>ranges = bt_insert p_start n_end (bt_remove n_start (bt_remove p_start rs))\<rparr>
            else if value = p_end1 then
              Ok \<lparr>ranges = bt_insert p_start value (bt_remove p_start rs)\<rparr>
            else if value1 = n_start then
              Ok \<lparr>ranges = bt_insert value n_end (bt_remove n_start rs)\<rparr>
            else Ok \<lparr>ranges = bt_insert value value rs\<rparr>))
      | (Some (p_start, p_end), None) \<Rightarrow>
          if value \<le> p_end then Ok self
          else and_then (u64_add p_end 1) (\<lambda>p_end1.
            if value = p_end1 then
              Ok \<lparr>ranges = bt_insert p_start value (bt_remove p_start rs)\<rparr>
            else Ok \<lparr>ranges = bt_insert value value rs\<rparr>)
      | (None, Some (n_start, n_end)) \<Rightarrow>
          and_then (u64_add value 1) (\<lambda>value1.
            if value1 = n_start then
              Ok \<lparr>ranges = bt_insert value n_end (bt_remove n_start rs)\<rparr>
            else Ok \<lparr>ranges = bt_insert value value rs\<rparr>)
      | (None, None) \<Rightarrow> Ok \<lparr>ranges = bt_insert value value rs\<rparr>)"

definition rmap_get :: "rmap \<Rightarrow> nat \<Rightarrow> (nat \<times> nat) option" where
  "rmap_get self value =
     (case bt_last_le (ranges self) value of
        Some (start, end') \<Rightarrow> if value \<le> end' then Some (start, end') else None
      | None \<Rightarrow> None)"

text \<open>
  The scan of \<open>remove\<close> over the ranges in ascending order: the starts to remove and the ranges to
  add, in the order the code pushes them.
\<close>

fun remove_scan :: "nat \<Rightarrow> nat \<Rightarrow> (nat, nat) btree \<Rightarrow> (nat list \<times> (nat \<times> nat) list, unit) result" where
  "remove_scan start end' [] = Ok ([], [])"
| "remove_scan start end' ((r_start, r_end) # rs) =
     and_then
       (if r_end < start \<or> r_start > end' then Ok ([], [])
        else if start \<le> r_start \<and> end' \<ge> r_end then Ok ([r_start], [])
        else if r_start < start \<and> r_end > end' then
          and_then (u64_sub start 1) (\<lambda>s1. and_then (u64_add end' 1) (\<lambda>e1.
            Ok ([r_start], [(r_start, s1), (e1, r_end)])))
        else if start \<le> r_start \<and> end' < r_end then
          and_then (u64_add end' 1) (\<lambda>e1. Ok ([r_start], [(e1, r_end)]))
        else if start > r_start \<and> end' \<ge> r_end then
          and_then (u64_sub start 1) (\<lambda>s1. Ok ([r_start], [(r_start, s1)]))
        else Ok ([], []))
     (\<lambda>(rem, add). and_then (remove_scan start end' rs)
       (\<lambda>(rem', add'). Ok (rem @ rem', add @ add')))"

definition rmap_remove :: "nat \<Rightarrow> nat \<Rightarrow> rmap \<Rightarrow> (rmap, unit) result" where
  "rmap_remove start end' self =
     (if start > end' then Ok self
      else and_then (remove_scan start end' (ranges self)) (\<lambda>(to_remove, to_add).
        let removed = fold bt_remove to_remove (ranges self);
            added = fold (\<lambda>(a_start, a_end) m.
              if a_start \<le> a_end then bt_insert a_start a_end m else m) to_add removed
        in Ok \<lparr>ranges = added\<rparr>))"

definition rmap_iter :: "rmap \<Rightarrow> (nat \<times> nat) list" where
  "rmap_iter self = ranges self"

definition first_index :: "rmap \<Rightarrow> nat option" where
  "first_index self = map_option fst (bt_first (ranges self))"

definition last_index :: "rmap \<Rightarrow> nat option" where
  "last_index self = map_option snd (bt_last (ranges self))"

definition next_gap :: "rmap \<Rightarrow> nat \<Rightarrow> nat option \<times> nat option" where
  "next_gap self value =
     (let current_range_end =
            (case map_option snd (bt_last_le (ranges self) value) of
               Some end' \<Rightarrow> if end' \<ge> value then Some end' else None
             | None \<Rightarrow> None);
          next_range_start =
            (if value = u64_max then None
             else map_option fst (bt_first_ge (ranges self) (value + 1)))
      in (current_range_end, next_range_start))"

text \<open>An upper bound of everything stored, for the termination of the loop of \<open>missing_items\<close>.\<close>

definition ranges_bound :: "rmap \<Rightarrow> nat" where
  "ranges_bound self = Suc (foldr (\<lambda>(s, e) b. max s (max e b)) (ranges self) 0)"

lemma ranges_bound: "(s, e) \<in> set (ranges self) \<Longrightarrow> s < ranges_bound self \<and> e < ranges_bound self"
proof -
  have "(s, e) \<in> set rs \<Longrightarrow> s \<le> foldr (\<lambda>(s, e) b. max s (max e b)) rs 0
      \<and> e \<le> foldr (\<lambda>(s, e) b. max s (max e b)) rs 0" for rs :: "(nat \<times> nat) list"
    by (induction rs) auto
  then show "(s, e) \<in> set (ranges self) \<Longrightarrow> s < ranges_bound self \<and> e < ranges_bound self"
    by (simp add: ranges_bound_def less_Suc_eq_le)
qed

lemma next_gap_bounds:
  "next_gap self value = (Some e, n) \<Longrightarrow> value \<le> e \<and> e < ranges_bound self"
  "next_gap self value = (c, Some s) \<Longrightarrow> value < s \<and> s < ranges_bound self"
proof -
  assume "next_gap self value = (Some e, n)"
  then obtain s where "bt_last_le (ranges self) value = Some (s, e)" "value \<le> e"
    by (auto simp: next_gap_def Let_def split: option.splits if_splits)
  moreover from this have "(s, e) \<in> set (ranges self)"
    by (auto simp: bt_last_le_def bt_last_def split: if_splits)
      (metis (no_types, lifting) filter_is_subset last_in_set subsetD)
  ultimately show "value \<le> e \<and> e < ranges_bound self" using ranges_bound by blast
next
  assume "next_gap self value = (c, Some s)"
  then obtain e where "bt_first_ge (ranges self) (value + 1) = Some (s, e)"
    by (auto simp: next_gap_def Let_def split: if_splits)
  then obtain rs where "filter (\<lambda>(k', _). value + 1 \<le> k') (ranges self) = (s, e) # rs"
    by (auto simp: bt_first_ge_def bt_first_def split: list.splits)
  then have "(s, e) \<in> set (filter (\<lambda>(k', _). value + 1 \<le> k') (ranges self))"
    by (metis list.set_intros(1))
  then show "value < s \<and> s < ranges_bound self" using ranges_bound by auto
qed

function missing_loop :: "rmap \<Rightarrow> nat \<Rightarrow> nat \<Rightarrow> nat list \<Rightarrow> (nat list, unit) result" where
  "missing_loop self max_items current missing =
     (case next_gap self current of
        (Some end', _) \<Rightarrow>
          if end' = u64_max then Ok missing
          else (case (u64_add end' 1 :: (nat, unit) result) of Ok c \<Rightarrow> missing_loop self max_items c missing | _ \<Rightarrow> Panic)
      | (None, None) \<Rightarrow> Ok missing
      | (None, Some next_start) \<Rightarrow>
          (case (u64_sub next_start 1 :: (nat, unit) result, u64_sub max_items (length missing) :: (nat, unit) result) of
             (Ok gap_end, Ok items_needed) \<Rightarrow>
               (case (u64_sub items_needed 1 :: (nat, unit) result) of
                  Ok n1 \<Rightarrow>
                    let gap_end = min gap_end (min u64_max (current + n1));
                        missing' = missing @ [current..<Suc gap_end]
                    in if length missing' \<ge> max_items then Ok missing'
                       else missing_loop self max_items next_start missing'
                | _ \<Rightarrow> Panic)
           | _ \<Rightarrow> Panic))"
  by pat_completeness auto
termination
  by (relation "measure (\<lambda>(self, _, current, _). ranges_bound self - current)")
    (auto simp: u64_add_def split: if_splits dest: next_gap_bounds [OF sym])

declare missing_loop.simps [simp del]

text \<open>
  \<open>Vec::with_capacity\<close> panics with a capacity overflow when the items would take more than \<open>isize::MAX\<close>
  bytes, here \<open>8\<close> for a \<open>u64\<close>; an allocation below that limit that the machine cannot serve is not modelled.
\<close>

definition isize_max :: nat where "isize_max = 2 ^ 63 - 1"

definition missing_items :: "rmap \<Rightarrow> nat \<Rightarrow> nat \<Rightarrow> (nat list, unit) result" where
  "missing_items self start max_items =
     (if \<not> max_items > 0 then Panic
      else if 8 * max_items > isize_max then Panic
      else missing_loop self max_items start [])"

section \<open>Ranges as a set\<close>

definition cover :: "(nat \<rightharpoonup> nat) \<Rightarrow> nat set" where
  "cover M = {x. \<exists>s e. M s = Some e \<and> s \<le> x \<and> x \<le> e}"

definition ranges_ok :: "(nat \<rightharpoonup> nat) \<Rightarrow> bool" where
  "ranges_ok M \<longleftrightarrow> (\<forall>s e. M s = Some e \<longrightarrow> s \<le> e \<and> e \<le> u64_max)
     \<and> (\<forall>s e s' e'. M s = Some e \<longrightarrow> M s' = Some e' \<longrightarrow> s < s' \<longrightarrow> e + 1 < s')"

definition rmap_inv :: "rmap \<Rightarrow> bool" where
  "rmap_inv m \<longleftrightarrow> bt_inv (ranges m) \<and> ranges_ok (bt_get (ranges m))"

definition covered :: "rmap \<Rightarrow> nat set" where
  "covered m = cover (bt_get (ranges m))"

lemma ranges_okD:
  assumes "ranges_ok M"
  shows "M s = Some e \<Longrightarrow> s \<le> e" "M s = Some e \<Longrightarrow> e \<le> u64_max"
    "M s = Some e \<Longrightarrow> M s' = Some e' \<Longrightarrow> s < s' \<Longrightarrow> e + 1 < s'"
  using assms by (auto simp: ranges_ok_def)

lemma coverI: "M s = Some e \<Longrightarrow> s \<le> x \<Longrightarrow> x \<le> e \<Longrightarrow> x \<in> cover M"
  by (auto simp: cover_def)

lemma coverE:
  assumes "x \<in> cover M"
  obtains s e where "M s = Some e" "s \<le> x" "x \<le> e"
  using assms by (auto simp: cover_def)

text \<open>
  Joining \<open>v\<close> with the ranges next to it: \<open>{lo..hi}\<close> consists of \<open>v\<close> and of values already covered,
  and no other range touches it.
\<close>

lemma join_range:
  assumes ok: "ranges_ok M" and v: "lo \<le> v" "v \<le> hi" "hi \<le> u64_max"
    and filled: "\<And>x. lo \<le> x \<Longrightarrow> x \<le> hi \<Longrightarrow> x \<noteq> v \<Longrightarrow> x \<in> cover M"
    and apart: "\<And>s e. M s = Some e \<Longrightarrow> lo \<le> s \<and> e \<le> hi \<or> e + 1 < lo \<or> hi + 1 < s"
    and M'lo: "M' lo = Some hi"
    and M': "\<And>k. k \<noteq> lo \<Longrightarrow> M' k = (if lo \<le> k \<and> k \<le> hi then None else M k)"
  shows "ranges_ok M' \<and> cover M' = insert v (cover M)"
proof -
  have old: "M' s = Some e \<Longrightarrow> s = lo \<and> e = hi \<or> M s = Some e \<and> (e + 1 < lo \<or> hi + 1 < s)" for s e
    using M'lo M' [of s] apart [of s e] ranges_okD(1) [OF ok, of s e]
    by (cases "s = lo") (auto split: if_splits)
  have "ranges_ok M'"
    unfolding ranges_ok_def
  proof (intro conjI allI impI)
    fix s e assume "M' s = Some e"
    with old [of s e] ranges_okD(1,2) [OF ok, of s e] v show "s \<le> e" "e \<le> u64_max" by auto
  next
    fix s e s' e' assume "M' s = Some e" "M' s' = Some e'" "s < s'"
    with old [of s e] old [of s' e'] ranges_okD [OF ok, of s e] ranges_okD [OF ok, of s' e'] v
    show "e + 1 < s'" by auto
  qed
  moreover have "x \<in> cover M' \<longleftrightarrow> x = v \<or> x \<in> cover M" for x
  proof
    assume "x \<in> cover M'"
    then obtain s e where "M' s = Some e" "s \<le> x" "x \<le> e" by (rule coverE)
    with old [of s e] filled [of x] show "x = v \<or> x \<in> cover M" by (auto intro: coverI)
  next
    assume x: "x = v \<or> x \<in> cover M"
    show "x \<in> cover M'"
    proof (cases "lo \<le> x \<and> x \<le> hi")
      case True
      with M'lo show ?thesis by (auto intro: coverI)
    next
      case False
      with x v obtain s e where s: "M s = Some e" "s \<le> x" "x \<le> e" by (auto elim: coverE)
      with False apart [of s e] ranges_okD(1) [OF ok s(1)] have "M' s = Some e"
        using M' [of s] v(1,2) by auto
      with s show ?thesis by (auto intro: coverI)
    qed
  qed
  ultimately show ?thesis by auto
qed

section \<open>Insertion\<close>

lemma prev_range:
  assumes "bt_inv r" "ranges_ok (bt_get r)" "bt_last_le r v = Some (ps, pe)"
  shows "bt_get r ps = Some pe" "ps \<le> v"
    "\<And>s e. bt_get r s = Some e \<Longrightarrow> s \<le> v \<Longrightarrow> s = ps \<and> e = pe \<or> s < ps \<and> e + 1 < ps"
proof -
  note p = bt.last_le_SomeD [OF assms(1,3)]
  show "bt_get r ps = Some pe" "ps \<le> v" by (rule p)+
  fix s e assume s: "bt_get r s = Some e" "s \<le> v"
  with p(3) have "s \<le> ps" by blast
  with s p(1) ranges_okD(3) [OF assms(2) s(1) p(1)]
  show "s = ps \<and> e = pe \<or> s < ps \<and> e + 1 < ps" by (cases "s = ps") auto
qed

lemma next_range:
  assumes "bt_inv r" "ranges_ok (bt_get r)" "bt_first_ge r (v + 1) = Some (ns, ne)"
  shows "bt_get r ns = Some ne" "v < ns"
    "\<And>s e. bt_get r s = Some e \<Longrightarrow> v < s \<Longrightarrow> s = ns \<and> e = ne \<or> ne + 1 < s"
proof -
  note p = bt.first_ge_SomeD [OF assms(1,3)]
  show "bt_get r ns = Some ne" "v < ns" using p(1,2) by auto
  fix s e assume s: "bt_get r s = Some e" "v < s"
  with p(3) have "ns \<le> s" by simp
  with s p(1) ranges_okD(3) [OF assms(2) p(1) s(1)]
  show "s = ns \<and> e = ne \<or> ne + 1 < s" by (cases "s = ns") auto
qed

lemma no_next_range:
  assumes "bt_inv r" "ranges_ok (bt_get r)"
    "(if v = u64_max then None else bt_first_ge r (v + 1)) = None" "bt_get r s = Some e"
  shows "s \<le> v"
proof (cases "v = u64_max")
  case True
  with ranges_okD(1,2) [OF assms(2,4)] show ?thesis by simp
next
  case False
  with assms(3) have "\<forall>j \<in> dom (bt_get r). j < v + 1" using bt.first_ge_None [OF assms(1)] by simp
  moreover have "s \<in> dom (bt_get r)" using assms(4) by (rule domI)
  ultimately show ?thesis by (simp add: less_Suc_eq_le)
qed

lemmas bt_laws = bt.get_insert bt.get_remove bt.invar_insert bt.invar_remove

text \<open>The four shapes of the updated map, one lemma each.\<close>

lemma insert_isolated:
  assumes bt: "bt_inv r" and ok: "ranges_ok (bt_get r)" and v: "v \<le> u64_max"
    and apart: "\<And>s e. bt_get r s = Some e \<Longrightarrow> e + 1 < v \<or> v + 1 < s"
  shows "bt_inv (bt_insert v v r) \<and> ranges_ok (bt_get (bt_insert v v r))
    \<and> cover (bt_get (bt_insert v v r)) = insert v (cover (bt_get r))"
proof -
  have none: "bt_get r v = None" using apart [of v] ranges_okD(1) [OF ok, of v] by (cases "bt_get r v") auto
  have "ranges_ok (bt_get (bt_insert v v r)) \<and> cover (bt_get (bt_insert v v r)) = insert v (cover (bt_get r))"
    by (rule join_range [OF ok, of v v v]) (use v apart none in \<open>auto simp: bt_laws bt\<close>)
  then show ?thesis by (simp add: bt_laws bt)
qed

lemma insert_extend_prev:
  assumes bt: "bt_inv r" and ok: "ranges_ok (bt_get r)" and v: "v \<le> u64_max"
    and p: "bt_get r ps = Some pe" "v = pe + 1"
    and apart: "\<And>s e. bt_get r s = Some e \<Longrightarrow> s \<noteq> ps \<Longrightarrow> e + 1 < ps \<or> v + 1 < s"
  shows "bt_inv (bt_insert ps v (bt_remove ps r)) \<and> ranges_ok (bt_get (bt_insert ps v (bt_remove ps r)))
    \<and> cover (bt_get (bt_insert ps v (bt_remove ps r))) = insert v (cover (bt_get r))"
proof -
  have psle: "ps \<le> pe" using ranges_okD(1) [OF ok p(1)] .
  have g: "bt_get (bt_insert ps v (bt_remove ps r)) = (bt_get r)(ps \<mapsto> v)" by (simp add: bt_laws bt)
  have none: "bt_get r k = None" if "ps < k" "k \<le> v" for k
    using apart [of k] ranges_okD(1) [OF ok, of k] that by (cases "bt_get r k") auto
  have "ranges_ok ((bt_get r)(ps \<mapsto> v)) \<and> cover ((bt_get r)(ps \<mapsto> v)) = insert v (cover (bt_get r))"
  proof (rule join_range [OF ok, of ps v v])
    show "x \<in> cover (bt_get r)" if "ps \<le> x" "x \<le> v" "x \<noteq> v" for x
      using that p by (auto intro: coverI)
    show "ps \<le> s \<and> e \<le> v \<or> e + 1 < ps \<or> v + 1 < s" if "bt_get r s = Some e" for s e
      using that apart [OF that] p by (cases "s = ps") auto
  qed (use psle p v none in \<open>auto simp: le_less\<close>)
  then show ?thesis by (simp add: g) (simp add: bt_laws bt)
qed

lemma insert_extend_next:
  assumes bt: "bt_inv r" and ok: "ranges_ok (bt_get r)"
    and n: "bt_get r ns = Some ne" "v + 1 = ns"
    and apart: "\<And>s e. bt_get r s = Some e \<Longrightarrow> s \<noteq> ns \<Longrightarrow> e + 1 < v \<or> ne + 1 < s"
  shows "bt_inv (bt_insert v ne (bt_remove ns r)) \<and> ranges_ok (bt_get (bt_insert v ne (bt_remove ns r)))
    \<and> cover (bt_get (bt_insert v ne (bt_remove ns r))) = insert v (cover (bt_get r))"
proof -
  have nsle: "ns \<le> ne" "ne \<le> u64_max" using ranges_okD(1,2) [OF ok n(1)] .
  have g: "bt_get (bt_insert v ne (bt_remove ns r)) = (bt_get r)(ns := None, v \<mapsto> ne)" by (simp add: bt_laws bt)
  have none: "bt_get r k = None" if "v \<le> k" "k \<le> ne" "k \<noteq> ns" for k
    using apart [of k] ranges_okD(1) [OF ok, of k] that by (cases "bt_get r k") auto
  have "ranges_ok ((bt_get r)(ns := None, v \<mapsto> ne)) \<and> cover ((bt_get r)(ns := None, v \<mapsto> ne)) = insert v (cover (bt_get r))"
  proof (rule join_range [OF ok, of v v ne])
    show "x \<in> cover (bt_get r)" if "v \<le> x" "x \<le> ne" "x \<noteq> v" for x
      using that n by (auto intro: coverI)
    show "v \<le> s \<and> e \<le> ne \<or> e + 1 < v \<or> ne + 1 < s" if "bt_get r s = Some e" for s e
      using that apart [OF that] n by (cases "s = ns") auto
  qed (use nsle n none in auto)
  then show ?thesis by (simp add: g) (simp add: bt_laws bt)
qed

lemma insert_bridge:
  assumes bt: "bt_inv r" and ok: "ranges_ok (bt_get r)"
    and p: "bt_get r ps = Some pe" "v = pe + 1" and n: "bt_get r ns = Some ne" "v + 1 = ns"
    and apart: "\<And>s e. bt_get r s = Some e \<Longrightarrow> s \<noteq> ps \<Longrightarrow> s \<noteq> ns \<Longrightarrow> e + 1 < ps \<or> ne + 1 < s"
  shows "bt_inv (bt_insert ps ne (bt_remove ns (bt_remove ps r)))
    \<and> ranges_ok (bt_get (bt_insert ps ne (bt_remove ns (bt_remove ps r))))
    \<and> cover (bt_get (bt_insert ps ne (bt_remove ns (bt_remove ps r)))) = insert v (cover (bt_get r))"
proof -
  have le: "ps \<le> pe" "ns \<le> ne" "ne \<le> u64_max" using ranges_okD(1,2) [OF ok] p(1) n(1) by blast+
  have g: "bt_get (bt_insert ps ne (bt_remove ns (bt_remove ps r))) = (bt_get r)(ns := None, ps \<mapsto> ne)"
    using le p n by (auto simp: bt_laws bt fun_eq_iff)
  have none: "bt_get r k = None" if "ps \<le> k" "k \<le> ne" "k \<noteq> ps" "k \<noteq> ns" for k
    using apart [of k] ranges_okD(1) [OF ok, of k] that by (cases "bt_get r k") auto
  have "ranges_ok ((bt_get r)(ns := None, ps \<mapsto> ne)) \<and> cover ((bt_get r)(ns := None, ps \<mapsto> ne)) = insert v (cover (bt_get r))"
  proof (rule join_range [OF ok, of ps v ne])
    show "x \<in> cover (bt_get r)" if "ps \<le> x" "x \<le> ne" "x \<noteq> v" for x
    proof (cases "x < v")
      case True
      with that p show ?thesis by (auto intro: coverI)
    next
      case False
      with that n show ?thesis by (auto intro: coverI)
    qed
    show "ps \<le> s \<and> e \<le> ne \<or> e + 1 < ps \<or> ne + 1 < s" if "bt_get r s = Some e" for s e
      using that apart [OF that] p n le by (cases "s = ps"; cases "s = ns") auto
  qed (use le p n none in auto)
  then show ?thesis by (simp add: g) (simp add: bt_laws bt)
qed

definition inserts :: "nat \<Rightarrow> rmap \<Rightarrow> (rmap, unit) result \<Rightarrow> bool" where
  "inserts v m res \<longleftrightarrow> (\<exists>m'. res = Ok m' \<and> rmap_inv m' \<and> covered m' = insert v (covered m))"

lemma insertsI:
  assumes "bt_inv r \<and> ranges_ok (bt_get r) \<and> cover (bt_get r) = insert v (cover (bt_get (ranges m)))"
  shows "inserts v m (Ok \<lparr>ranges = r\<rparr>)"
  using assms by (auto simp: inserts_def rmap_inv_def covered_def)

lemmas rmap_insert_unfold = rmap_insert_def Let_def option.case prod.case and_then.simps if_True if_False simp_thms

lemma rmap_insert_lowest:
  assumes bt: "bt_inv (ranges m)" and ok: "ranges_ok (bt_get (ranges m))" and v: "v \<le> u64_max"
    and prev: "bt_last_le (ranges m) v = None"
  shows "inserts v m (rmap_insert v m)"
proof -
  let ?r = "ranges m"
  let ?next = "if v = u64_max then None else bt_first_ge ?r (v + 1)"
  have low: "\<And>s e. bt_get ?r s = Some e \<Longrightarrow> v < s" using bt.last_le_None [OF bt] prev by blast
  show ?thesis
  proof (cases ?next)
    case None
    have "\<And>s e. bt_get ?r s = Some e \<Longrightarrow> False"
      using low no_next_range [OF bt ok None] by (meson leD)
    then have "inserts v m (Ok \<lparr>ranges = bt_insert v v ?r\<rparr>)"
      by (intro insertsI insert_isolated [OF bt ok v]) blast
    then show ?thesis by (simp only: rmap_insert_unfold prev None)
  next
    case (Some n)
    obtain ns ne where n: "n = (ns, ne)" by (cases n)
    have "bt_first_ge ?r (v + 1) = Some (ns, ne)" and nmax: "v + 1 \<le> u64_max"
      using Some n v by (auto split: if_splits)
    note N = next_range [OF bt ok this(1)]
    show ?thesis
    proof (cases "v + 1 = ns")
      case True
      have "inserts v m (Ok \<lparr>ranges = bt_insert v ne (bt_remove ns ?r)\<rparr>)"
        by (intro insertsI insert_extend_next [OF bt ok N(1) True]) (use N(3) low in blast)
      then show ?thesis by (simp only: rmap_insert_unfold prev Some n u64_add_Ok [OF nmax] if_P [OF True])
    next
      case False
      have "inserts v m (Ok \<lparr>ranges = bt_insert v v ?r\<rparr>)"
      proof (intro insertsI insert_isolated [OF bt ok v])
        fix s e assume s: "bt_get ?r s = Some e"
        with N(3) [OF s low [OF s]] N(2) False ranges_okD(1) [OF ok N(1)] show "e + 1 < v \<or> v + 1 < s" by auto
      qed
      then show ?thesis using False by (simp only: rmap_insert_unfold prev Some n u64_add_Ok [OF nmax])
    qed
  qed
qed

lemma rmap_insert_highest:
  assumes bt: "bt_inv (ranges m)" and ok: "ranges_ok (bt_get (ranges m))" and v: "v \<le> u64_max"
    and prev: "bt_last_le (ranges m) v = Some (ps, pe)" and out: "\<not> v \<le> pe"
    and nxt: "(if v = u64_max then None else bt_first_ge (ranges m) (v + 1)) = None"
  shows "inserts v m (rmap_insert v m)"
proof -
  let ?r = "ranges m"
  note P = prev_range [OF bt ok prev]
  have pmax: "pe + 1 \<le> u64_max" using out v by simp
  have only: "s = ps \<or> e + 1 < ps" if "bt_get ?r s = Some e" for s e
    using P(3) [OF that] no_next_range [OF bt ok nxt that] by auto
  show ?thesis
  proof (cases "v = pe + 1")
    case True
    have "inserts v m (Ok \<lparr>ranges = bt_insert ps v (bt_remove ps ?r)\<rparr>)"
      by (intro insertsI insert_extend_prev [OF bt ok v P(1) True]) (use only in blast)
    then show ?thesis
      by (simp only: rmap_insert_unfold prev nxt u64_add_Ok [OF pmax] if_not_P [OF out] True [THEN eqTrueI])
  next
    case False
    have "inserts v m (Ok \<lparr>ranges = bt_insert v v ?r\<rparr>)"
    proof (intro insertsI insert_isolated [OF bt ok v])
      fix s e assume s: "bt_get ?r s = Some e"
      show "e + 1 < v \<or> v + 1 < s" using only [OF s] s P(1,2) False out by (cases "s = ps") auto
    qed
    then show ?thesis using False
      by (simp only: rmap_insert_unfold prev nxt u64_add_Ok [OF pmax] if_not_P [OF out])
  qed
qed

lemma rmap_insert_between:
  assumes bt: "bt_inv (ranges m)" and ok: "ranges_ok (bt_get (ranges m))" and v: "v \<le> u64_max"
    and prev: "bt_last_le (ranges m) v = Some (ps, pe)" and out: "\<not> v \<le> pe"
    and nxt: "(if v = u64_max then None else bt_first_ge (ranges m) (v + 1)) = Some (ns, ne)"
  shows "inserts v m (rmap_insert v m)"
proof -
  let ?r = "ranges m"
  note P = prev_range [OF bt ok prev]
  have pmax: "pe + 1 \<le> u64_max" using out v by simp
  have "bt_first_ge ?r (v + 1) = Some (ns, ne)" and nmax: "v + 1 \<le> u64_max"
    using nxt v by (auto split: if_splits)
  note N = next_range [OF bt ok this(1)]
  note unf = rmap_insert_unfold prev nxt u64_add_Ok [OF pmax] u64_add_Ok [OF nmax] if_not_P [OF out]
  have apart: "s = ps \<and> e = pe \<or> e + 1 < ps \<or> s = ns \<and> e = ne \<or> ne + 1 < s" if "bt_get ?r s = Some e" for s e
    using P(3) [OF that] N(3) [OF that] by (cases "s \<le> v") auto
  have ns: "ns \<le> ne" using ranges_okD(1) [OF ok N(1)] .
  consider (bridge) "v = pe + 1" "v + 1 = ns" | (ext_prev) "v = pe + 1" "v + 1 \<noteq> ns"
    | (ext_next) "v \<noteq> pe + 1" "v + 1 = ns" | (isolated) "v \<noteq> pe + 1" "v + 1 \<noteq> ns" by blast
  then show ?thesis
  proof cases
    case bridge
    have "inserts v m (Ok \<lparr>ranges = bt_insert ps ne (bt_remove ns (bt_remove ps ?r))\<rparr>)"
      by (intro insertsI insert_bridge [OF bt ok P(1) bridge(1) N(1) bridge(2)]) (use apart in blast)
    then show ?thesis by (simp only: unf bridge [THEN eqTrueI])
  next
    case ext_prev
    have "inserts v m (Ok \<lparr>ranges = bt_insert ps v (bt_remove ps ?r)\<rparr>)"
      by (intro insertsI insert_extend_prev [OF bt ok v P(1) ext_prev(1)]) (use apart N(2) ns ext_prev in fastforce)
    then show ?thesis by (simp only: unf ext_prev(1) [THEN eqTrueI] ext_prev(2))
  next
    case ext_next
    have "inserts v m (Ok \<lparr>ranges = bt_insert v ne (bt_remove ns ?r)\<rparr>)"
      by (intro insertsI insert_extend_next [OF bt ok N(1) ext_next(2)]) (use apart out P(2) ext_next in fastforce)
    then show ?thesis by (simp only: unf ext_next(2) [THEN eqTrueI] ext_next(1))
  next
    case isolated
    have "inserts v m (Ok \<lparr>ranges = bt_insert v v ?r\<rparr>)"
      by (intro insertsI insert_isolated [OF bt ok v]) (use apart out P(2) N(2) ns isolated in fastforce)
    then show ?thesis by (simp only: unf isolated)
  qed
qed

lemma rmap_insert_inserts:
  assumes inv: "rmap_inv m" and v: "v \<le> u64_max"
  shows "inserts v m (rmap_insert v m)"
proof -
  have bt: "bt_inv (ranges m)" and ok: "ranges_ok (bt_get (ranges m))" using inv by (simp_all add: rmap_inv_def)
  show ?thesis
  proof (cases "bt_last_le (ranges m) v")
    case None
    then show ?thesis by (rule rmap_insert_lowest [OF bt ok v])
  next
    case (Some p)
    obtain ps pe where p: "bt_last_le (ranges m) v = Some (ps, pe)" using Some by (cases p) auto
    show ?thesis
    proof (cases "v \<le> pe")
      case True
      then have "v \<in> covered m" using prev_range [OF bt ok p] by (auto simp: covered_def intro: coverI)
      then have "inserts v m (Ok m)" using inv by (auto simp: inserts_def insert_absorb)
      then show ?thesis using True
        by (cases "bt_first_ge (ranges m) (v + 1)") (auto simp: rmap_insert_def Let_def p split: if_splits)
    next
      case False
      show ?thesis
        by (cases "if v = u64_max then None else bt_first_ge (ranges m) (v + 1)")
          (auto intro: rmap_insert_highest [OF bt ok v p False] rmap_insert_between [OF bt ok v p False])
    qed
  qed
qed

lemmas rmap_insert_correct = rmap_insert_inserts [unfolded inserts_def]


section \<open>Removal\<close>

abbreviation overlaps :: "nat \<Rightarrow> nat \<Rightarrow> nat \<times> nat \<Rightarrow> bool" where
  "overlaps start end' r \<equiv> start \<le> snd r \<and> fst r \<le> end'"

definition pieces :: "nat \<Rightarrow> nat \<Rightarrow> nat \<times> nat \<Rightarrow> (nat \<times> nat) set" where
  "pieces start end' r =
     {(k, x). fst r < start \<and> k = fst r \<and> x = start - 1 \<or> end' < snd r \<and> k = end' + 1 \<and> x = snd r}"

lemma remove_scan_correct:
  assumes "start \<le> end'" "\<forall>(s, e) \<in> set rs. s \<le> e \<and> e \<le> u64_max"
  shows "\<exists>rem add. remove_scan start end' rs = Ok (rem, add)
    \<and> set rem = fst ` {r \<in> set rs. overlaps start end' r}
    \<and> set add = (\<Union>r \<in> {r \<in> set rs. overlaps start end' r}. pieces start end' r)"
  using assms(2)
proof (induction rs)
  case Nil
  then show ?case by simp
next
  case (Cons r rs)
  obtain s e where r: "r = (s, e)" by (cases r)
  from Cons obtain rem add where IH: "remove_scan start end' rs = Ok (rem, add)"
    "set rem = fst ` {r \<in> set rs. overlaps start end' r}"
    "set add = (\<Union>r \<in> {r \<in> set rs. overlaps start end' r}. pieces start end' r)" by auto
  have se: "s \<le> e" "e \<le> u64_max" using Cons.prems r by auto
  have split: "{x \<in> set (r # rs). overlaps start end' x} =
    (if overlaps start end' r then {r} else {}) \<union> {r \<in> set rs. overlaps start end' r}" by auto
  show ?case unfolding split using IH(1) se assms(1)
    by (auto simp: r IH(2,3) pieces_def u64_sub_def)
qed

lemma bt_get_fold_remove:
  assumes "bt_inv r"
  shows "bt_inv (fold bt_remove ks r) \<and> bt_get (fold bt_remove ks r) k = (if k \<in> set ks then None else bt_get r k)"
  using assms by (induction ks arbitrary: r) (auto simp: bt_laws)

lemma bt_get_fold_insert:
  assumes "bt_inv r" "\<forall>(a, b) \<in> set add. a \<le> b" "\<forall>a b b'. (a, b) \<in> set add \<longrightarrow> (a, b') \<in> set add \<longrightarrow> b = b'"
  shows "bt_inv (fold (\<lambda>(a, b) m. if a \<le> b then bt_insert a b m else m) add r)
    \<and> (bt_get (fold (\<lambda>(a, b) m. if a \<le> b then bt_insert a b m else m) add r) k = Some x \<longleftrightarrow>
       (k, x) \<in> set add \<or> k \<notin> fst ` set add \<and> bt_get r k = Some x)"
  using assms
proof (induction add arbitrary: r)
  case Nil
  then show ?case by simp
next
  case (Cons ab add)
  obtain a b where ab: "ab = (a, b)" "a \<le> b" using Cons.prems(2) by (cases ab) auto
  have "bt_inv (bt_insert a b r)" using Cons.prems(1) by (simp add: bt_laws)
  moreover have "\<forall>(a, b) \<in> set add. a \<le> b" using Cons.prems(2) by simp
  moreover have "\<forall>a b b'. (a, b) \<in> set add \<longrightarrow> (a, b') \<in> set add \<longrightarrow> b = b'" using Cons.prems(3) by (meson list.set_intros(2))
  ultimately have IH: "bt_inv (fold (\<lambda>(a, b) m. if a \<le> b then bt_insert a b m else m) add (bt_insert a b r))
    \<and> (bt_get (fold (\<lambda>(a, b) m. if a \<le> b then bt_insert a b m else m) add (bt_insert a b r)) k = Some x \<longleftrightarrow>
       (k, x) \<in> set add \<or> k \<notin> fst ` set add \<and> bt_get (bt_insert a b r) k = Some x)" by (rule Cons.IH)
  have "bt_get (bt_insert a b r) k = Some x \<longleftrightarrow> (if k = a then x = b else bt_get r k = Some x)"
    using Cons.prems(1) by (auto simp: bt_laws)
  moreover have "(a, x) \<in> set add \<Longrightarrow> x = b" for x
    using Cons.prems(3) [rule_format, of a x b] ab by simp
  moreover have "a \<in> fst ` set add \<Longrightarrow> (a, b) \<in> set add" using calculation(2) by force
  ultimately show ?case using IH ab by (cases "k = a") auto
qed

definition remnants :: "nat \<Rightarrow> nat \<Rightarrow> nat \<times> nat \<Rightarrow> (nat \<times> nat) set" where
  "remnants start end' r = (if overlaps start end' r then pieces start end' r else {r})"

lemma remnantsD:
  assumes "(k, x) \<in> remnants start end' (s, e)" "start \<le> end'" "s \<le> e"
  shows "s \<le> k" "k \<le> x" "x \<le> e" "x < start \<or> end' < k" "k = s \<or> k = end' + 1" "x = e \<or> x + 1 = start"
  using assms by (auto simp: remnants_def pieces_def split: if_splits)

lemma remnants_cover:
  assumes "start \<le> end'" "s \<le> y" "y \<le> e" "y < start \<or> end' < y"
  shows "\<exists>k x. (k, x) \<in> remnants start end' (s, e) \<and> k \<le> y \<and> y \<le> x"
proof (cases "overlaps start end' (s, e)")
  case True
  show ?thesis
  proof (cases "y < start")
    case True
    with assms \<open>overlaps start end' (s, e)\<close> show ?thesis
      by (intro exI [of _ s] exI [of _ "start - 1"]) (auto simp: remnants_def pieces_def)
  next
    case False
    with assms \<open>overlaps start end' (s, e)\<close> show ?thesis
      by (intro exI [of _ "end' + 1"] exI [of _ e]) (auto simp: remnants_def pieces_def)
  qed
next
  case False
  with assms show ?thesis by (intro exI [of _ s] exI [of _ e]) (auto simp: remnants_def)
qed

lemma remnants_ranges:
  assumes ok: "ranges_ok M" and se: "start \<le> end'"
    and M': "\<And>k x. M' k = Some x \<longleftrightarrow> (\<exists>s e. M s = Some e \<and> (k, x) \<in> remnants start end' (s, e))"
  shows "ranges_ok M' \<and> cover M' = cover M - {start..end'}"
proof
  show "ranges_ok M'" unfolding ranges_ok_def
  proof (intro conjI allI impI)
    fix k x assume "M' k = Some x"
    then obtain s e where a: "M s = Some e" "(k, x) \<in> remnants start end' (s, e)" using M' by blast
    note D = remnantsD [OF a(2) se ranges_okD(1) [OF ok a(1)]]
    show "k \<le> x" by (rule D)
    show "x \<le> u64_max" using D ranges_okD(2) [OF ok a(1)] by simp
    fix k' x' assume "M' k' = Some x'" "k < k'"
    then obtain s' e' where b: "M s' = Some e'" "(k', x') \<in> remnants start end' (s', e')" using M' by blast
    note D' = remnantsD [OF b(2) se ranges_okD(1) [OF ok b(1)]]
    consider "s = s'" "e = e'" | "e + 1 < s'" | "e' + 1 < s"
      using ranges_okD(3) [OF ok a(1) b(1)] ranges_okD(3) [OF ok b(1) a(1)] a(1) b(1) by (cases s s' rule: linorder_cases) auto
    then show "x + 1 < k'" using D D' se \<open>k < k'\<close> by cases (auto simp: remnants_def)
  qed
next
  show "cover M' = cover M - {start..end'}"
  proof (intro set_eqI iffI)
    fix y assume "y \<in> cover M'"
    then obtain k x where kx: "M' k = Some x" "k \<le> y" "y \<le> x" by (auto elim: coverE)
    then obtain s e where a: "M s = Some e" "(k, x) \<in> remnants start end' (s, e)" using M' by blast
    note D = remnantsD [OF a(2) se ranges_okD(1) [OF ok a(1)]]
    show "y \<in> cover M - {start..end'}" using D kx a(1) by (auto intro: coverI)
  next
    fix y assume "y \<in> cover M - {start..end'}"
    then obtain s e where a: "M s = Some e" "s \<le> y" "y \<le> e" "y < start \<or> end' < y" by (auto elim: coverE)
    from remnants_cover [OF se a(2-4)] a(1) show "y \<in> cover M'" using M' by (blast intro: coverI)
  qed
qed

lemma pieces_disjoint:
  assumes ok: "ranges_ok M" and M: "M s = Some e" "M s' = Some e'"
    and p: "(k, x) \<in> pieces start end' (s, e)" "(k, x') \<in> pieces start end' (s', e')"
    and o: "overlaps start end' (s, e)" "overlaps start end' (s', e')"
  shows "x = x'"
proof -
  consider "s = s'" "e = e'" | "e + 1 < s'" | "e' + 1 < s"
    using ranges_okD(3) [OF ok M] ranges_okD(3) [OF ok M(2,1)] M by (cases s s' rule: linorder_cases) auto
  then show ?thesis using p o by cases (auto simp: pieces_def)
qed

lemma remnants_lookup:
  assumes ok: "ranges_ok M" and rem: "\<And>k. k \<in> R \<longleftrightarrow> (\<exists>e. M k = Some e \<and> overlaps start end' (k, e))"
    and add: "\<And>k x. (k, x) \<in> A \<longleftrightarrow>
      (\<exists>s e. M s = Some e \<and> overlaps start end' (s, e) \<and> (k, x) \<in> pieces start end' (s, e))"
  shows "(k, x) \<in> A \<or> k \<notin> fst ` A \<and> (if k \<in> R then None else M k) = Some x \<longleftrightarrow>
    (\<exists>s e. M s = Some e \<and> (k, x) \<in> remnants start end' (s, e))" (is "?L \<longleftrightarrow> ?R")
proof
  assume ?L
  then show ?R
  proof (elim disjE conjE)
    assume "(k, x) \<in> A"
    then show ?R unfolding add remnants_def by auto
  next
    assume "(if k \<in> R then None else M k) = Some x"
    then have "M k = Some x" "\<not> overlaps start end' (k, x)" using rem by (auto split: if_splits)
    then show ?R unfolding remnants_def by (metis singletonI)
  qed
next
  assume ?R
  then obtain s e where se: "M s = Some e" "(k, x) \<in> remnants start end' (s, e)" by blast
  show ?L
  proof (cases "overlaps start end' (s, e)")
    case True
    then have "(k, x) \<in> A" unfolding add using se by (auto simp: remnants_def)
    then show ?thesis ..
  next
    case False
    then have kx: "k = s" "x = e" using se by (auto simp: remnants_def split: if_splits)
    have "k \<notin> R" using rem se kx False by auto
    moreover have "(k, y) \<notin> A" for y
    proof
      assume "(k, y) \<in> A"
      then obtain s2 e2 where a: "M s2 = Some e2" "overlaps start end' (s2, e2)"
        and p: "(k, y) \<in> pieces start end' (s2, e2)" unfolding add by blast
      have "s2 \<noteq> k" using a se kx False by auto
      then have "k = end' + 1" "end' < e2" using p by (auto simp: pieces_def)
      then show False using ranges_okD(3) [OF ok a(1) se(1)] a kx by auto
    qed
    ultimately show ?thesis using se kx by force
  qed
qed

lemma rmap_remove_correct:
  assumes inv: "rmap_inv m"
  shows "\<exists>m'. rmap_remove start end' m = Ok m' \<and> rmap_inv m' \<and> covered m' = covered m - {start..end'}"
proof (cases "start \<le> end'")
  case False
  then show ?thesis using inv by (auto simp: rmap_remove_def)
next
  case se: True
  let ?r = "ranges m" and ?ov = "{r \<in> set (ranges m). overlaps start end' r}"
  have bt: "bt_inv ?r" and ok: "ranges_ok (bt_get ?r)" using inv by (simp_all add: rmap_inv_def)
  note S = bt_get_Some [OF bt]
  have "\<forall>(s, e) \<in> set ?r. s \<le> e \<and> e \<le> u64_max" using ranges_okD(1,2) [OF ok] S by blast
  from remove_scan_correct [OF se this] obtain rem add where scan: "remove_scan start end' ?r = Ok (rem, add)"
    and rem: "set rem = fst ` ?ov" and add: "set add = (\<Union>r \<in> ?ov. pieces start end' r)" by blast
  define r1 where "r1 = fold bt_remove rem ?r"
  have r1: "bt_inv r1" "\<And>k. bt_get r1 k = (if k \<in> set rem then None else bt_get ?r k)"
    using bt_get_fold_remove [OF bt] by (auto simp: r1_def)
  define r2 where "r2 = fold (\<lambda>(a, b) m. if a \<le> b then bt_insert a b m else m) add r1"
  have le: "\<forall>(a, b) \<in> set add. a \<le> b" by (auto simp: add pieces_def)
  have fn: "\<forall>a b b'. (a, b) \<in> set add \<longrightarrow> (a, b') \<in> set add \<longrightarrow> b = b'"
    unfolding add using pieces_disjoint [OF ok] S by clarsimp
  note r2 = bt_get_fold_insert [OF r1(1) le fn, folded r2_def]
  have "bt_get r2 k = Some x \<longleftrightarrow> (\<exists>s e. bt_get ?r s = Some e \<and> (k, x) \<in> remnants start end' (s, e))" for k x
  proof -
    have 1: "k \<in> set rem \<longleftrightarrow> (\<exists>e. bt_get ?r k = Some e \<and> overlaps start end' (k, e))" for k
      unfolding rem S by force
    have 2: "(k, x) \<in> set add \<longleftrightarrow> (\<exists>s e. bt_get ?r s = Some e \<and> overlaps start end' (s, e)
      \<and> (k, x) \<in> pieces start end' (s, e))" for k x unfolding add S by auto
    show ?thesis by (simp only: conjunct2 [OF r2] r1(2) remnants_lookup [OF ok 1 2])
  qed
  from remnants_ranges [OF ok se this] r2 se scan show ?thesis
    by (auto simp: rmap_remove_def rmap_inv_def covered_def r1_def [symmetric] r2_def [symmetric] Let_def)
qed


section \<open>Queries\<close>

lemma rmap_get_correct:
  assumes inv: "rmap_inv m"
  shows "rmap_get m v = Some (s, e) \<longleftrightarrow> s \<le> v \<and> v \<le> e \<and> bt_get (ranges m) s = Some e"
proof -
  have bt: "bt_inv (ranges m)" and ok: "ranges_ok (bt_get (ranges m))" using inv by (simp_all add: rmap_inv_def)
  show ?thesis
  proof
    assume "rmap_get m v = Some (s, e)"
    then have "bt_last_le (ranges m) v = Some (s, e)" "v \<le> e"
      by (auto simp: rmap_get_def split: option.splits if_splits)
    then show "s \<le> v \<and> v \<le> e \<and> bt_get (ranges m) s = Some e" using prev_range [OF bt ok] by blast
  next
    assume a: "s \<le> v \<and> v \<le> e \<and> bt_get (ranges m) s = Some e"
    then have "s \<in> dom (bt_get (ranges m))" "\<not> v < s" by auto
    then have "bt_last_le (ranges m) v \<noteq> None" using bt.last_le_None [OF bt] by blast
    then obtain ps pe where p: "bt_last_le (ranges m) v = Some (ps, pe)" by auto
    have "s = ps \<and> e = pe" using prev_range [OF bt ok p] a by fastforce
    then show "rmap_get m v = Some (s, e)" using a p by (simp add: rmap_get_def)
  qed
qed

lemma rmap_get_None: "rmap_inv m \<Longrightarrow> rmap_get m v = None \<longleftrightarrow> v \<notin> covered m"
  using rmap_get_correct [of m v] by (cases "rmap_get m v") (auto simp: covered_def elim!: coverE intro: coverI)

text \<open>A stored range is a maximal interval of the covered set.\<close>

lemma range_maximal:
  assumes inv: "rmap_inv m"
  shows "bt_get (ranges m) s = Some e \<longleftrightarrow>
    s \<le> e \<and> {s..e} \<subseteq> covered m \<and> e + 1 \<notin> covered m \<and> (0 < s \<longrightarrow> s - 1 \<notin> covered m)" (is "?L = ?R")
proof -
  have ok: "ranges_ok (bt_get (ranges m))" using inv by (simp_all add: rmap_inv_def)
  have one: "s' = s \<and> e' = e" if "bt_get (ranges m) s = Some e" "bt_get (ranges m) s' = Some e'"
    "s' \<le> e + 1" "s \<le> e' + 1" for s e s' e'
    using that ranges_okD(3) [OF ok that(1,2)] ranges_okD(3) [OF ok that(2,1)]
    by (cases s s' rule: linorder_cases) auto
  show ?thesis
  proof
    assume L: ?L
    have le: "s \<le> e" using ranges_okD(1) [OF ok L] .
    have "e + 1 \<notin> covered m" unfolding covered_def
    proof (rule notI, erule coverE)
      fix s' e' assume "bt_get (ranges m) s' = Some e'" "s' \<le> e + 1" "e + 1 \<le> e'"
      with one [OF L] le show False by fastforce
    qed
    moreover have "s - 1 \<notin> covered m" if "0 < s" unfolding covered_def
    proof (rule notI, erule coverE)
      fix s' e' assume "bt_get (ranges m) s' = Some e'" "s' \<le> s - 1" "s - 1 \<le> e'"
      with one [OF L] le that show False by fastforce
    qed
    ultimately show ?R using L le by (auto simp: covered_def intro: coverI)
  next
    assume R: ?R
    then have "s \<in> covered m" by auto
    then obtain s' e' where a: "bt_get (ranges m) s' = Some e'" "s' \<le> s" "s \<le> e'"
      by (auto simp: covered_def elim: coverE)
    then have cov: "{s'..e'} \<subseteq> covered m" by (auto simp: covered_def intro: coverI)
    have "\<not> s' < s"
    proof
      assume "s' < s"
      then have "s - 1 \<in> {s'..e'}" using a by auto
      then show False using R cov \<open>s' < s\<close> by auto
    qed
    then have "s' = s" using a by simp
    moreover have "e' \<le> e" using R a subsetD [OF cov, of "e + 1"] by force
    moreover have "e \<le> e'"
    proof (rule ccontr)
      assume "\<not> e \<le> e'"
      then have "e' + 1 \<in> covered m" using R a by auto
      then obtain s2 e2 where b: "bt_get (ranges m) s2 = Some e2" "s2 \<le> e' + 1" "e' + 1 \<le> e2"
        by (auto simp: covered_def elim: coverE)
      with one [OF a(1) b(1)] a show False by auto
    qed
    ultimately show ?L using a by simp
  qed
qed


lemma covered_bound: "rmap_inv m \<Longrightarrow> x \<in> covered m \<Longrightarrow> x \<le> u64_max"
  by (force simp: rmap_inv_def covered_def elim!: coverE dest: ranges_okD(2))

text \<open>
  \<open>next_gap\<close> reads the end of the range that covers the value and the start of the first range after
  it: between them lies the next gap.
\<close>

definition gap_start :: "nat \<Rightarrow> nat option \<Rightarrow> nat" where
  "gap_start v c = (case c of None \<Rightarrow> v | Some e \<Rightarrow> e + 1)"

definition gap_spec :: "nat set \<Rightarrow> nat \<Rightarrow> nat option \<times> nat option \<Rightarrow> bool" where
  "gap_spec C v cn = (case cn of (c, n) \<Rightarrow>
     (c = None \<longleftrightarrow> v \<notin> C) \<and> v \<le> gap_start v c \<and> {v..<gap_start v c} \<subseteq> C
     \<and> (case n of None \<Rightarrow> \<forall>x \<in> C. x < gap_start v c
        | Some s \<Rightarrow> gap_start v c < s \<and> s \<in> C \<and> (\<forall>x \<in> C. x < gap_start v c \<or> s \<le> x)))"

lemma fst_next_gap: "fst (next_gap m v) = map_option snd (rmap_get m v)"
  by (auto simp: next_gap_def rmap_get_def Let_def split: option.splits)

lemma snd_next_gap:
  assumes inv: "rmap_inv m"
  shows "case snd (next_gap m v) of None \<Rightarrow> \<forall>s \<in> dom (bt_get (ranges m)). s \<le> v
      | Some s \<Rightarrow> v < s \<and> s \<in> dom (bt_get (ranges m)) \<and> (\<forall>s' \<in> dom (bt_get (ranges m)). v < s' \<longrightarrow> s \<le> s')"
proof -
  have bt: "bt_inv (ranges m)" and ok: "ranges_ok (bt_get (ranges m))" using inv by (simp_all add: rmap_inv_def)
  have snd: "snd (next_gap m v) = map_option fst (if v = u64_max then None else bt_first_ge (ranges m) (v + 1))"
    by (simp add: next_gap_def Let_def)
  show ?thesis
  proof (cases "if v = u64_max then None else bt_first_ge (ranges m) (v + 1)")
    case None
    then show ?thesis using no_next_range [OF bt ok None] unfolding snd by auto
  next
    case (Some n)
    obtain ns ne where n: "n = (ns, ne)" by (cases n)
    then have "bt_first_ge (ranges m) (v + 1) = Some (ns, ne)" using Some by (auto split: if_splits)
    note N = bt.first_ge_SomeD [OF bt this]
    show ?thesis unfolding snd Some n using N by auto
  qed
qed

lemma next_gap_correct:
  assumes inv: "rmap_inv m"
  shows "gap_spec (covered m) v (next_gap m v)"
proof -
  have ok: "ranges_ok (bt_get (ranges m))" using inv by (simp_all add: rmap_inv_def)
  obtain c n where cn: "next_gap m v = (c, n)" by (cases "next_gap m v")
  have c: "c = map_option snd (rmap_get m v)" using fst_next_gap [of m v] by (simp add: cn)
  note S = snd_next_gap [OF inv, of v, unfolded cn snd_conv]
  have cur: "(c = None \<longleftrightarrow> v \<notin> covered m) \<and> v \<le> gap_start v c \<and> {v..<gap_start v c} \<subseteq> covered m"
  proof (cases "rmap_get m v")
    case None
    then show ?thesis using rmap_get_None [OF inv, of v] by (simp add: c gap_start_def)
  next
    case (Some r)
    obtain s e where r: "r = (s, e)" by (cases r)
    with Some have "s \<le> v" "v \<le> e" "bt_get (ranges m) s = Some e" using rmap_get_correct [OF inv, of v s e] by auto
    then show ?thesis using Some r by (auto simp: c gap_start_def covered_def intro: coverI)
  qed
  have after: "\<exists>s'. s' \<in> dom (bt_get (ranges m)) \<and> v < s' \<and> s' \<le> x" if x: "x \<in> covered m" "gap_start v c \<le> x" for x
  proof -
    from x obtain s' e' where a: "bt_get (ranges m) s' = Some e'" "s' \<le> x" "x \<le> e'"
      by (auto simp: covered_def elim: coverE)
    have "v < s'"
    proof (rule ccontr)
      assume "\<not> v < s'"
      then have "rmap_get m v = Some (s', e')" using a x(2) cur rmap_get_correct [OF inv] by simp
      then show False using x(2) a by (simp add: c gap_start_def)
    qed
    then show ?thesis using a by blast
  qed
  show ?thesis
  proof (cases n)
    case None
    have "\<forall>x \<in> covered m. x < gap_start v c"
    proof (rule ballI, rule ccontr)
      fix x assume "x \<in> covered m" "\<not> x < gap_start v c"
      then obtain s' where "s' \<in> dom (bt_get (ranges m))" "v < s'" using after [of x] by auto
      moreover have "\<forall>s \<in> dom (bt_get (ranges m)). s \<le> v" using S None by simp
      ultimately have "s' \<le> v" by blast
      then show False using \<open>v < s'\<close> by simp
    qed
    then show ?thesis using cur unfolding gap_spec_def cn None by simp
  next
    case (Some s)
    then have s: "v < s" "s \<in> dom (bt_get (ranges m))" using S by auto
    then obtain e where e: "bt_get (ranges m) s = Some e" by blast
    then have "s \<in> covered m" using ranges_okD(1) [OF ok e] by (auto simp: covered_def intro: coverI)
    moreover have "gap_start v c < s"
    proof (cases "rmap_get m v")
      case (Some r)
      obtain s0 e0 where r: "rmap_get m v = Some (s0, e0)" using Some by (cases r) auto
      then have "s0 \<le> v" "bt_get (ranges m) s0 = Some e0" using rmap_get_correct [OF inv, of v s0 e0] by auto
      then show ?thesis using ranges_okD(3) [OF ok _ e, of s0 e0] s r by (simp add: c gap_start_def)
    qed (simp add: c gap_start_def s)
    moreover have "\<forall>x \<in> covered m. x < gap_start v c \<or> s \<le> x"
    proof
      fix x assume x: "x \<in> covered m"
      show "x < gap_start v c \<or> s \<le> x"
      proof (cases "x < gap_start v c")
        case False
        then obtain s' where "s' \<in> dom (bt_get (ranges m))" "v < s'" "s' \<le> x" using after [OF x] by auto
        moreover have "\<forall>s' \<in> dom (bt_get (ranges m)). v < s' \<longrightarrow> s \<le> s'" using S Some by simp
        ultimately have "s \<le> s'" by blast
        then show ?thesis using \<open>s' \<le> x\<close> by simp
      qed simp
    qed
    ultimately show ?thesis using cur unfolding gap_spec_def cn Some by simp
  qed
qed


lemma last_index_correct:
  assumes inv: "rmap_inv m"
  shows "last_index m = (if covered m = {} then None else Some (Max (covered m)))"
proof -
  have bt: "bt_inv (ranges m)" and ok: "ranges_ok (bt_get (ranges m))" using inv by (simp_all add: rmap_inv_def)
  have fin: "finite (covered m)" by (rule finite_subset [of _ "{..u64_max}"]) (auto dest: covered_bound [OF inv])
  show ?thesis
  proof (cases "bt_last (ranges m)")
    case None
    then have "ranges m = []" by (simp add: bt_last_def split: if_splits)
    then show ?thesis by (simp add: last_index_def covered_def cover_def bt_get_def bt_last_def)
  next
    case (Some r)
    then obtain s e where l: "bt_last (ranges m) = Some (s, e)" by (cases r) auto
    then have se: "bt_get (ranges m) s = Some e" "\<forall>j \<in> dom (bt_get (ranges m)). j \<le> s"
      using bt_last_Some [OF bt, of s e] bt_get_Some [OF bt] by (auto simp: bt_dom)
    have "x \<le> e" if "x \<in> covered m" for x
    proof -
      obtain s' e' where a: "bt_get (ranges m) s' = Some e'" "x \<le> e'"
        using \<open>x \<in> covered m\<close> by (auto simp: covered_def elim: coverE)
      then have "s' \<le> s" using se by blast
      then show ?thesis using a se(1) ranges_okD(3) [OF ok a(1) se(1)] ranges_okD(1) [OF ok se(1)]
        by (cases "s' = s") auto
    qed
    moreover have "e \<in> covered m" using se ranges_okD(1) [OF ok se(1)] by (auto simp: covered_def intro: coverI)
    ultimately have "covered m \<noteq> {}" "Max (covered m) = e" using fin by (auto intro: Max_eqI)
    then show ?thesis by (simp add: last_index_def l)
  qed
qed

definition gaps_from :: "rmap \<Rightarrow> nat \<Rightarrow> nat list" where
  "gaps_from m v = filter (\<lambda>x. x \<notin> covered m) [v..<(case last_index m of None \<Rightarrow> 0 | Some l \<Rightarrow> l)]"

lemma gaps_from_end:
  assumes "rmap_inv m" "\<forall>x \<in> covered m. x < v"
  shows "gaps_from m v = []"
proof (cases "covered m = {}")
  case True
  then show ?thesis by (simp add: gaps_from_def last_index_correct assms(1))
next
  case False
  have "finite (covered m)" by (rule finite_subset [of _ "{..u64_max}"]) (auto dest: covered_bound [OF assms(1)])
  then have "Max (covered m) < v" using False assms(2) by simp
  then show ?thesis by (simp add: gaps_from_def last_index_correct assms(1) False)
qed

lemma gaps_from_skip:
  assumes "rmap_inv m" "v \<le> w" "{v..<w} \<subseteq> covered m"
  shows "gaps_from m v = gaps_from m w"
proof -
  let ?t = "case last_index m of None \<Rightarrow> 0 | Some l \<Rightarrow> l"
  show ?thesis
  proof (cases "w \<le> ?t")
    case True
    then have "[v..<?t] = [v..<w] @ [w..<?t]" using assms(2) by (metis le_Suc_ex upt_add_eq_append)
    moreover have "filter (\<lambda>x. x \<notin> covered m) [v..<w] = []" using assms(3) by (auto simp: filter_empty_conv)
    ultimately show ?thesis unfolding gaps_from_def by simp
  next
    case False
    then have "filter (\<lambda>x. x \<notin> covered m) [v..<?t] = []" "[w..<?t] = []" using assms(3) by (auto simp: filter_empty_conv)
    then show ?thesis unfolding gaps_from_def by (simp only: filter.simps)
  qed
qed

lemma gaps_from_gap:
  assumes "rmap_inv m" "v < s" "s \<in> covered m" "\<forall>x \<in> covered m. x < v \<or> s \<le> x"
  shows "gaps_from m v = [v..<s] @ gaps_from m s"
proof -
  let ?t = "case last_index m of None \<Rightarrow> 0 | Some l \<Rightarrow> l"
  have fin: "finite (covered m)" by (rule finite_subset [of _ "{..u64_max}"]) (auto dest: covered_bound [OF assms(1)])
  have "s \<le> ?t" using assms(3) fin by (auto simp: last_index_correct [OF assms(1)])
  then have "[v..<?t] = [v..<s] @ [s..<?t]" using assms(2) by (metis le_Suc_ex less_imp_le upt_add_eq_append)
  moreover have "filter (\<lambda>x. x \<notin> covered m) [v..<s] = [v..<s]" using assms(4) by (fastforce simp: filter_id_conv)
  ultimately show ?thesis unfolding gaps_from_def by simp
qed


lemma take_upt_min_aux: "take n [v..<s] = [v..<min s (v + n)]"
  by (cases "v + n \<le> s") (auto simp: take_upt min_def)

lemma take_upt_min:
  assumes "0 < (n::nat)" "v < s"
  shows "[v..<Suc (min (s - 1) (v + (n - 1)))] = take n [v..<s]"
proof -
  have "Suc (min (s - 1) (v + (n - 1))) = min s (v + n)" using assms by (cases "s \<le> v + n") (simp_all add: min_absorb1 min_absorb2)
  then show ?thesis using assms by (simp add: take_upt_min_aux)
qed

lemma missing_loop_correct:
  assumes "rmap_inv m" "v \<le> u64_max" "length acc < n" "n \<le> u64_max"
  shows "missing_loop m n v acc = Ok (acc @ take (n - length acc) (gaps_from m v))"
  using assms
proof (induction m n v acc rule: missing_loop.induct)
  case (1 m n v acc)
  note inv = "1.prems"(1) and v = "1.prems"(2) and acc = "1.prems"(3) and n = "1.prems"(4)
  obtain c s where cs: "next_gap m v = (c, s)" by (cases "next_gap m v")
  note G = next_gap_correct [OF inv, of v, unfolded cs gap_spec_def prod.case]
  show ?case
  proof (cases c)
    case c: (Some e)
    have ve: "v \<le> e" using next_gap_bounds(1) cs c by blast
    then have "e \<in> covered m" using G c by (auto simp: gap_start_def)
    note ve = ve covered_bound [OF inv this]
    show ?thesis
    proof (cases "e = u64_max")
      case True
      have "\<forall>x \<in> covered m. x < e + 1" using covered_bound [OF inv] True by (simp add: less_Suc_eq_le)
      then have "gaps_from m v = []"
        using gaps_from_skip [OF inv, of v "e + 1"] gaps_from_end [OF inv, of "e + 1"] G c by (simp add: gap_start_def)
      then show ?thesis using True by (subst missing_loop.simps) (simp add: cs c)
    next
      case False
      then have e1: "e + 1 \<le> u64_max" using ve by simp
      have "missing_loop m n (e + 1) acc = Ok (acc @ take (n - length acc) (gaps_from m (e + 1)))"
        by (rule "1.IH"(2) [OF cs [symmetric] c False u64_add_Ok [OF e1] inv e1 acc n])
      moreover have "gaps_from m v = gaps_from m (e + 1)"
        using gaps_from_skip [OF inv, of v "e + 1"] G c by (simp add: gap_start_def)
      ultimately show ?thesis using False e1 by (subst missing_loop.simps) (simp add: cs c)
    qed
  next
    case c: None
    show ?thesis
    proof (cases s)
      case None
      then have "gaps_from m v = []" using G c gaps_from_end [OF inv] by (simp add: gap_start_def)
      then show ?thesis by (subst missing_loop.simps) (simp add: cs c None)
    next
      case (Some ns)
      then have ns: "v < ns" "ns \<in> covered m" "\<forall>x \<in> covered m. x < v \<or> ns \<le> x" using G c by (auto simp: gap_start_def)
      have nsmax: "ns \<le> u64_max" by (rule covered_bound [OF inv ns(2)])
      define need where "need = n - length acc"
      define acc' where "acc' = acc @ [v..<Suc (min (ns - 1) (min u64_max (v + (need - 1))))]"
      have acc': "acc' = acc @ take need [v..<ns]"
        using take_upt_min [of need v ns] acc ns(1) nsmax by (simp add: acc'_def need_def min.assoc [symmetric])
      have gaps: "gaps_from m v = [v..<ns] @ gaps_from m ns" by (rule gaps_from_gap [OF inv ns])
      have unf: "missing_loop m n v acc = (if n \<le> length acc' then Ok acc' else missing_loop m n ns acc')"
        using acc ns(1) by (subst missing_loop.simps) (simp add: cs c Some need_def acc'_def Let_def)
      show ?thesis
      proof (cases "n \<le> length acc'")
        case True
        then show ?thesis using acc by (simp add: unf acc' gaps need_def)
      next
        case False
        have "missing_loop m n ns acc' = Ok (acc' @ take (n - length acc') (gaps_from m ns))"
        proof (rule "1.IH"(1) [OF cs [symmetric] c Some refl _ _ _ refl acc'_def False inv nsmax _ n])
          show "u64_sub ns 1 = Ok (ns - 1)" using ns(1) by simp
          show "u64_sub n (length acc) = Ok need" using acc by (simp add: need_def)
          show "u64_sub need 1 = Ok (need - 1)" using acc by (simp add: need_def)
          show "length acc' < n" using False by simp
        qed
        then show ?thesis using False acc by (simp add: unf acc' gaps need_def)
      qed
    qed
  qed
qed


lemma missing_items_correct:
  assumes "rmap_inv m" "start \<le> u64_max" "0 < n" "8 * n \<le> isize_max"
  shows "missing_items m start n = Ok (take n (gaps_from m start))"
proof -
  have "n \<le> u64_max" using assms(4) by (simp add: isize_max_def u64_max_def)
  then show ?thesis using missing_loop_correct [of m start "[]" n] assms by (simp add: missing_items_def)
qed

section \<open>The interface: a set of indices\<close>

text \<open>
  What the users of the map rely on: the operations act on the set of indices it stores and never
  panic. The run of a list of operations is proved once against this contract.
\<close>

datatype index_op = Insert nat | Remove nat nat

fun index_op_ok :: "index_op \<Rightarrow> bool" where
  "index_op_ok (Insert v) \<longleftrightarrow> v \<le> u64_max"
| "index_op_ok (Remove s e) \<longleftrightarrow> s \<le> u64_max \<and> e \<le> u64_max"

fun index_op_abs :: "index_op \<Rightarrow> nat set \<Rightarrow> nat set" where
  "index_op_abs (Insert v) S = insert v S"
| "index_op_abs (Remove s e) S = S - {s..e}"

fun run_ops :: "(nat \<Rightarrow> 'm \<Rightarrow> ('m, unit) result) \<Rightarrow> (nat \<Rightarrow> nat \<Rightarrow> 'm \<Rightarrow> ('m, unit) result) \<Rightarrow>
    index_op list \<Rightarrow> 'm \<Rightarrow> ('m, unit) result" where
  "run_ops ins del [] m = Ok m"
| "run_ops ins del (Insert v # ops) m = and_then (ins v m) (run_ops ins del ops)"
| "run_ops ins del (Remove s e # ops) m = and_then (del s e m) (run_ops ins del ops)"

locale index_set =
  fixes empty :: 'm
    and ins :: "nat \<Rightarrow> 'm \<Rightarrow> ('m, unit) result"
    and del :: "nat \<Rightarrow> nat \<Rightarrow> 'm \<Rightarrow> ('m, unit) result"
    and elems :: "'m \<Rightarrow> nat set"
    and invar :: "'m \<Rightarrow> bool"
  assumes invar_empty: "invar empty" and elems_empty: "elems empty = {}"
    and ins: "invar m \<Longrightarrow> v \<le> u64_max \<Longrightarrow> \<exists>m'. ins v m = Ok m' \<and> invar m' \<and> elems m' = insert v (elems m)"
    and del: "invar m \<Longrightarrow> \<exists>m'. del s e m = Ok m' \<and> invar m' \<and> elems m' = elems m - {s..e}"
begin

lemma run_ops_from:
  "invar m \<Longrightarrow> \<forall>op \<in> set ops. index_op_ok op \<Longrightarrow>
    \<exists>m'. run_ops ins del ops m = Ok m' \<and> invar m' \<and> elems m' = fold index_op_abs ops (elems m)"
proof (induction ops arbitrary: m)
  case (Cons op ops)
  show ?case
  proof (cases op)
    case (Insert v)
    then have "v \<le> u64_max" using Cons.prems(2) by simp
    from ins [OF Cons.prems(1) this] obtain m1 where m1: "ins v m = Ok m1" "invar m1" "elems m1 = insert v (elems m)" by blast
    with Cons.IH [OF m1(2)] Cons.prems Insert show ?thesis by simp
  next
    case (Remove s e)
    from del [OF Cons.prems(1), of s e] obtain m1 where m1: "del s e m = Ok m1" "invar m1" "elems m1 = elems m - {s..e}" by blast
    with Cons.IH [OF m1(2)] Cons.prems Remove show ?thesis by simp
  qed
qed simp

lemma run_ops_empty:
  "\<forall>op \<in> set ops. index_op_ok op \<Longrightarrow>
    \<exists>m'. run_ops ins del ops empty = Ok m' \<and> invar m' \<and> elems m' = fold index_op_abs ops {}"
  using run_ops_from [OF invar_empty] elems_empty by simp

end

interpretation rmap: index_set rmap_new rmap_insert rmap_remove covered rmap_inv
proof
  show "rmap_inv rmap_new" by (simp add: rmap_inv_def rmap_new_def ranges_ok_def bt_get_def)
  show "covered rmap_new = {}" by (simp add: covered_def rmap_new_def cover_def bt_get_def)
qed (simp_all add: rmap_insert_correct rmap_remove_correct)

section \<open>Properties\<close>

lemmas rmap_eval = rmap_get_def next_gap_def bt_last_le_def bt_first_ge_def bt_last_def bt_first_def
  u64_max_def isize_max_def missing_items_def missing_loop.simps Let_def

text \<open>
  C8. Running any list of inserts and removes of \<open>u64\<close> values from the empty map never panics, keeps
  the stored ranges sorted, disjoint and separated by at least one missing index, and stores exactly
  the set of indices that the same operations give on a set.
\<close>

theorem rmap_refines_set:
  assumes "\<forall>op \<in> set ops. index_op_ok op"
  shows "\<exists>m. run_ops rmap_insert rmap_remove ops rmap_new = Ok m \<and> rmap_inv m
    \<and> covered m = fold index_op_abs ops {}"
  using rmap.run_ops_empty [OF assms] .

theorem rmap_refines_set_witness:
  "\<exists>m. run_ops rmap_insert rmap_remove [Insert 1, Insert 3, Insert 2, Remove 2 2] rmap_new = Ok m
    \<and> rmap_inv m \<and> covered m = {1, 3}"
  using rmap_refines_set [of "[Insert 1, Insert 3, Insert 2, Remove 2 2]"] by (auto simp: u64_max_def)

text \<open>
  C25. A lookup returns the range around an index exactly when the index is stored, and that range is
  the maximal interval of stored indices around it.
\<close>

theorem rmap_get_maximal:
  assumes "rmap_inv m"
  shows "(rmap_get m v = Some (s, e) \<longleftrightarrow> s \<le> v \<and> v \<le> e \<and> {s..e} \<subseteq> covered m
      \<and> e + 1 \<notin> covered m \<and> (0 < s \<longrightarrow> s - 1 \<notin> covered m))
    \<and> (rmap_get m v = None \<longleftrightarrow> v \<notin> covered m)"
  using rmap_get_correct [OF assms] range_maximal [OF assms, of s e] rmap_get_None [OF assms] by auto

theorem rmap_get_maximal_witness:
  "rmap_inv \<lparr>ranges = [(1, 3), (7, 7)]\<rparr> \<and> rmap_get \<lparr>ranges = [(1, 3), (7, 7)]\<rparr> 5 = None
   \<and> 5 \<notin> covered \<lparr>ranges = [(1, 3), (7, 7)]\<rparr>"
proof -
  have inv: "rmap_inv \<lparr>ranges = [(1, 3), (7, 7)]\<rparr>"
    by (auto simp: rmap_inv_def ranges_ok_def bt_get_def u64_max_def split: if_splits)
  have "rmap_get \<lparr>ranges = [(1, 3), (7, 7)]\<rparr> 5 = None" by (simp add: rmap_eval)
  with inv rmap_get_maximal [OF inv, of 5] show ?thesis by simp
qed

text \<open>
  C26. \<open>next_gap\<close> describes the stored set after a value: its first component is present exactly when
  the value is stored and is the end of its run, and its second component is the next stored index
  after that run, absent when there is none.
\<close>

theorem next_gap_describes:
  assumes "rmap_inv m"
  shows "gap_spec (covered m) v (next_gap m v)"
  by (rule next_gap_correct [OF assms])

theorem next_gap_describes_witness:
  "gap_spec (covered \<lparr>ranges = [(1, 3), (7, 7)]\<rparr>) 2 (Some 3, Some 7)"
proof -
  have inv: "rmap_inv \<lparr>ranges = [(1, 3), (7, 7)]\<rparr>"
    by (auto simp: rmap_inv_def ranges_ok_def bt_get_def u64_max_def split: if_splits)
  have "next_gap \<lparr>ranges = [(1, 3), (7, 7)]\<rparr> 2 = (Some 3, Some 7)" by (simp add: rmap_eval)
  with next_gap_describes [OF inv, of 2] show ?thesis by simp
qed

text \<open>
  C21. \<open>missing_items\<close> panics when \<open>max\<close> is zero or so large that the capacity of the result overflows;
  for every other \<open>max\<close> it returns, without overflow and after finitely many steps, the first \<open>max\<close> indices
  from \<open>start\<close> that are not stored and lie below the last stored index, in ascending order.
\<close>

theorem missing_items_first_gaps:
  assumes "rmap_inv m" "start \<le> u64_max"
  shows "missing_items m start n = (if n = 0 \<or> 8 * n > isize_max then Panic
    else Ok (take n (filter (\<lambda>x. x \<notin> covered m) [start..<(if covered m = {} then 0 else Max (covered m))])))"
  using missing_items_correct [OF assms, of n]
  by (auto simp: missing_items_def gaps_from_def last_index_correct [OF assms(1)])

theorem missing_items_first_gaps_witness:
  "take 2 (filter (\<lambda>x. x \<notin> covered \<lparr>ranges = [(1, 3), (7, 7)]\<rparr>)
     [2..<(if covered \<lparr>ranges = [(1, 3), (7, 7)]\<rparr> = {} then 0 else Max (covered \<lparr>ranges = [(1, 3), (7, 7)]\<rparr>))])
   = [4, 5]"
proof -
  have inv: "rmap_inv \<lparr>ranges = [(1, 3), (7, 7)]\<rparr>"
    by (auto simp: rmap_inv_def ranges_ok_def bt_get_def u64_max_def split: if_splits)
  have "missing_items \<lparr>ranges = [(1, 3), (7, 7)]\<rparr> 2 2 = Ok [4, 5]" by (simp add: rmap_eval)
  with missing_items_first_gaps [OF inv, of 2 2] show ?thesis by (simp add: u64_max_def isize_max_def)
qed

end
