(* ===== verification/Blob_Store.thy ===== *)
theory Blob_Store
  imports BTree "HOL-Library.List_Lexorder" "HOL-Library.Char_ord"
begin

text \<open>
  Storage of named blobs (\<open>runtime/src/lib.rs\<close>, traits \<open>Storage\<close> and \<open>Blob\<close>) and its in-memory
  implementation (\<open>runtime/src/storage/memory.rs\<close>). Blobs are shared objects, so a blob is a handle and
  every operation takes the store; what a handle has written becomes the durable content of its
  name when it is synced. The locale \<open>blob_store\<close> is what the buffers and journals rely on.
\<close>

section \<open>Byte ranges\<close>

definition slice :: "nat \<Rightarrow> nat \<Rightarrow> 'a list \<Rightarrow> 'a list" where
  "slice off n xs = take n (drop off xs)"

text \<open>\<open>Vec::resize\<close> with zeros, and a write at an offset that first extends the vector if needed.\<close>

definition resize_bytes :: "nat \<Rightarrow> bytes \<Rightarrow> bytes" where
  "resize_bytes n xs = take n xs @ replicate (n - length xs) 0"

definition overwrite :: "nat \<Rightarrow> bytes \<Rightarrow> bytes \<Rightarrow> bytes" where
  "overwrite off buf xs =
     (let ys = (if length xs < off + length buf then resize_bytes (off + length buf) xs else xs)
      in take off ys @ buf @ drop (off + length buf) ys)"

lemma length_slice [simp]: "off + n \<le> length xs \<Longrightarrow> length (slice off n xs) = n"
  by (simp add: slice_def)

lemma length_resize [simp]: "length (resize_bytes n xs) = n"
  by (simp add: resize_bytes_def)

lemma length_overwrite [simp]: "length (overwrite off buf xs) = max (length xs) (off + length buf)"
  by (auto simp: overwrite_def Let_def)

lemma nth_resize: "i < n \<Longrightarrow> resize_bytes n xs ! i = (if i < length xs then xs ! i else 0)"
  by (auto simp: resize_bytes_def nth_append)

lemma nth_overwrite:
  assumes "i < max (length xs) (off + length buf)"
  shows "overwrite off buf xs ! i =
    (if off \<le> i \<and> i < off + length buf then buf ! (i - off) else if i < length xs then xs ! i else 0)"
proof -
  have "overwrite off buf xs ! i =
      (let ys = (if length xs < off + length buf then resize_bytes (off + length buf) xs else xs)
       in if i < off then ys ! i else if i < off + length buf then buf ! (i - off) else ys ! i)"
    using assms by (auto simp: overwrite_def Let_def nth_append min_def)
  then show ?thesis using assms by (auto simp: nth_resize Let_def)
qed

lemma nth_slice: "i < n \<Longrightarrow> off + n \<le> length xs \<Longrightarrow> slice off n xs ! i = xs ! (off + i)"
  by (simp add: slice_def)

lemma slice_append_left: "off + n \<le> length xs \<Longrightarrow> slice off n (xs @ ys) = slice off n xs"
  by (simp add: slice_def)

lemma slice_append_right: "length xs \<le> off \<Longrightarrow> slice off n (xs @ ys) = slice (off - length xs) n ys"
  by (simp add: slice_def)

lemma slice_split: "slice off (m + n) xs = slice off m xs @ slice (off + m) n xs"
  by (simp add: slice_def take_add add.commute)

lemma overwrite_end: "overwrite (length xs) buf xs = xs @ buf"
  by (rule nth_equalityI) (auto simp: nth_overwrite nth_append)

lemma resize_shrink: "n \<le> length xs \<Longrightarrow> resize_bytes n xs = take n xs"
  by (simp add: resize_bytes_def)

section \<open>The interface\<close>

datatype rt_error =
    Exited
  | Closed
  | Timeout
  | BindFailed
  | ConnectionFailed
  | WriteFailed
  | ReadFailed
  | SendFailed
  | RecvFailed
  | ResolveFailed string
  | PartitionNameInvalid string
  | PartitionCreationFailed string
  | PartitionMissing string
  | PartitionCorrupt string
  | BlobOpenFailed string bytes
  | BlobMissing string bytes
  | BlobResizeFailed string bytes
  | BlobSyncFailed string bytes
  | BlobInsufficientLength
  | OffsetOverflow
  | Io

text \<open>The operations a storage offers on one partition; \<open>'w\<close> is the store and \<open>'h\<close> a handle.\<close>

record ('w, 'h) store_ops =
  st_open :: "bytes \<Rightarrow> 'w \<Rightarrow> ('h \<times> nat \<times> 'w, rt_error) result"
  st_remove :: "bytes option \<Rightarrow> 'w \<Rightarrow> ('w, rt_error) result"
  st_scan :: "'w \<Rightarrow> (bytes list, rt_error) result"
  st_read_at :: "nat \<Rightarrow> nat \<Rightarrow> 'h \<Rightarrow> 'w \<Rightarrow> (bytes, rt_error) result"
  st_write_at :: "bytes \<Rightarrow> nat \<Rightarrow> 'h \<Rightarrow> 'w \<Rightarrow> ('w, rt_error) result"
  st_resize :: "nat \<Rightarrow> 'h \<Rightarrow> 'w \<Rightarrow> ('w, rt_error) result"
  st_sync :: "'h \<Rightarrow> 'w \<Rightarrow> ('w, rt_error) result"

text \<open>
  \<open>content w h\<close> is what the handle \<open>h\<close> sees, \<open>named w h\<close> the name it was opened with, and
  \<open>files w\<close> the durable content of each name of the partition.
\<close>

locale blob_store =
  fixes ops :: "('w, 'h) store_ops"
    and content :: "'w \<Rightarrow> 'h \<Rightarrow> bytes option"
    and named :: "'w \<Rightarrow> 'h \<Rightarrow> bytes"
    and files :: "'w \<Rightarrow> bytes \<Rightarrow> bytes option"
    and inv :: "'w \<Rightarrow> bool"
  assumes read_ok: "inv w \<Longrightarrow> content w h = Some c \<Longrightarrow> off + n \<le> length c \<Longrightarrow> length c \<le> u64_max \<Longrightarrow>
      st_read_at ops n off h w = Ok (slice off n c)"
    and read_short: "inv w \<Longrightarrow> content w h = Some c \<Longrightarrow> length c < off + n \<Longrightarrow> off + n \<le> u64_max \<Longrightarrow>
      st_read_at ops n off h w = Err BlobInsufficientLength"
    and write_ok: "inv w \<Longrightarrow> content w h = Some c \<Longrightarrow> off + length buf \<le> u64_max \<Longrightarrow>
      \<exists>w'. st_write_at ops buf off h w = Ok w' \<and> content w' = (content w)(h \<mapsto> overwrite off buf c)
        \<and> named w' = named w \<and> files w' = files w \<and> inv w'"
    and resize_ok: "inv w \<Longrightarrow> content w h = Some c \<Longrightarrow> n \<le> u64_max \<Longrightarrow>
      \<exists>w'. st_resize ops n h w = Ok w' \<and> content w' = (content w)(h \<mapsto> resize_bytes n c)
        \<and> named w' = named w \<and> files w' = files w \<and> inv w'"
    and sync_ok: "inv w \<Longrightarrow> content w h = Some c \<Longrightarrow> files w (named w h) \<noteq> None \<Longrightarrow>
      \<exists>w'. st_sync ops h w = Ok w' \<and> content w' = content w \<and> named w' = named w
        \<and> files w' = (files w)(named w h \<mapsto> c) \<and> inv w'"
    and open_ok: "inv w \<Longrightarrow> \<exists>h w' c. st_open ops name w = Ok (h, length c, w') \<and> content w h = None
      \<and> c = (case files w name of None \<Rightarrow> [] | Some d \<Rightarrow> d) \<and> content w' = (content w)(h \<mapsto> c)
      \<and> named w' h = name \<and> (\<forall>k. content w k \<noteq> None \<longrightarrow> named w' k = named w k)
      \<and> files w' = (files w)(name \<mapsto> c) \<and> inv w'"
    and remove_ok: "inv w \<Longrightarrow> files w name \<noteq> None \<Longrightarrow>
      \<exists>w'. st_remove ops (Some name) w = Ok w' \<and> content w' = content w \<and> named w' = named w
        \<and> files w' = (files w)(name := None) \<and> inv w'"
    and scan_ok: "inv w \<Longrightarrow> files w name \<noteq> None \<Longrightarrow>
      \<exists>ns. st_scan ops w = Ok ns \<and> sorted ns \<and> distinct ns \<and> set ns = dom (files w)"
    and scan_none: "inv w \<Longrightarrow> (\<And>name. files w name = None) \<Longrightarrow>
      st_scan ops w = Ok [] \<or> (\<exists>part. st_scan ops w = Err (PartitionMissing part))"

section \<open>The in-memory implementation\<close>

text \<open>The errors carry the blob's name where the code carries its hexadecimal form.\<close>

definition is_ascii_alphanumeric :: "char \<Rightarrow> bool" where
  "is_ascii_alphanumeric c \<longleftrightarrow> (let n = (of_char c :: nat) in 48 \<le> n \<and> n \<le> 57 \<or> 65 \<le> n \<and> n \<le> 90 \<or> 97 \<le> n \<and> n \<le> 122)"

definition validate_partition_name :: "string \<Rightarrow> (unit, rt_error) result" where
  "validate_partition_name part =
     (if part = [] \<or> (\<exists>c \<in> set part. \<not> (is_ascii_alphanumeric c \<or> c \<in> set ''_-''))
      then Err (PartitionNameInvalid part) else Ok ())"

type_synonym mem_partition = "(bytes, bytes) btree"

record mem_blob =
  mb_partition :: string
  mb_name :: bytes
  mb_content :: bytes

record mem_store =
  ms_partitions :: "(string, mem_partition) btree"
  ms_blobs :: "mem_blob list"

definition or_default :: "'k::linorder \<Rightarrow> 'v \<Rightarrow> ('k, 'v) btree \<Rightarrow> 'v \<times> ('k, 'v) btree" where
  "or_default k d m = (case bt_get m k of Some v \<Rightarrow> (v, m) | None \<Rightarrow> (d, bt_insert k d m))"

definition mem_open :: "string \<Rightarrow> bytes \<Rightarrow> mem_store \<Rightarrow> (nat \<times> nat \<times> mem_store, rt_error) result" where
  "mem_open part name w =
     and_then (validate_partition_name part) (\<lambda>_.
       let (entry, _) = or_default part [] (ms_partitions w);
           (content, entry') = or_default name [] entry;
           blob = \<lparr>mb_partition = part, mb_name = name, mb_content = content\<rparr>
       in Ok (length (ms_blobs w), length content,
              \<lparr>ms_partitions = bt_insert part entry' (ms_partitions w), ms_blobs = ms_blobs w @ [blob]\<rparr>))"

definition mem_remove :: "string \<Rightarrow> bytes option \<Rightarrow> mem_store \<Rightarrow> (mem_store, rt_error) result" where
  "mem_remove part name w =
     and_then (validate_partition_name part) (\<lambda>_.
       case bt_get (ms_partitions w) part of
         None \<Rightarrow> Err (PartitionMissing part)
       | Some entry \<Rightarrow>
           (case name of
              Some n \<Rightarrow>
                if bt_get entry n = None then Err (BlobMissing part n)
                else Ok (w\<lparr>ms_partitions := bt_insert part (bt_remove n entry) (ms_partitions w)\<rparr>)
            | None \<Rightarrow> Ok (w\<lparr>ms_partitions := bt_remove part (ms_partitions w)\<rparr>)))"

definition mem_scan :: "string \<Rightarrow> mem_store \<Rightarrow> (bytes list, rt_error) result" where
  "mem_scan part w =
     and_then (validate_partition_name part) (\<lambda>_.
       case bt_get (ms_partitions w) part of
         None \<Rightarrow> Err (PartitionMissing part)
       | Some entry \<Rightarrow> Ok (sort (map fst entry)))"

definition mem_read_at :: "nat \<Rightarrow> nat \<Rightarrow> nat \<Rightarrow> mem_store \<Rightarrow> (bytes, rt_error) result" where
  "mem_read_at n offset h w =
     (if length (ms_blobs w) \<le> h then Panic
      else let content = mb_content (ms_blobs w ! h) in
        and_then (u64_add offset n) (\<lambda>end.
          if end > length content then Err BlobInsufficientLength else Ok (slice offset n content)))"

definition mem_write_at :: "bytes \<Rightarrow> nat \<Rightarrow> nat \<Rightarrow> mem_store \<Rightarrow> (mem_store, rt_error) result" where
  "mem_write_at buf offset h w =
     (if length (ms_blobs w) \<le> h then Panic
      else let blob = ms_blobs w ! h in
        and_then (u64_add offset (length buf)) (\<lambda>required.
          Ok (w\<lparr>ms_blobs := (ms_blobs w)[h := blob\<lparr>mb_content := overwrite offset buf (mb_content blob)\<rparr>]\<rparr>)))"

definition mem_resize :: "nat \<Rightarrow> nat \<Rightarrow> mem_store \<Rightarrow> (mem_store, rt_error) result" where
  "mem_resize len h w =
     (if length (ms_blobs w) \<le> h then Panic
      else let blob = ms_blobs w ! h
        in Ok (w\<lparr>ms_blobs := (ms_blobs w)[h := blob\<lparr>mb_content := resize_bytes len (mb_content blob)\<rparr>]\<rparr>))"

definition mem_sync :: "nat \<Rightarrow> mem_store \<Rightarrow> (mem_store, rt_error) result" where
  "mem_sync h w =
     (if length (ms_blobs w) \<le> h then Panic
      else let blob = ms_blobs w ! h in
        case bt_get (ms_partitions w) (mb_partition blob) of
          None \<Rightarrow> Err (PartitionMissing (mb_partition blob))
        | Some entry \<Rightarrow>
            if bt_get entry (mb_name blob) = None then Err (BlobMissing (mb_partition blob) (mb_name blob))
            else Ok (w\<lparr>ms_partitions := bt_insert (mb_partition blob)
                   (bt_insert (mb_name blob) (mb_content blob) entry) (ms_partitions w)\<rparr>))"

definition mem_ops :: "string \<Rightarrow> (mem_store, nat) store_ops" where
  "mem_ops part = \<lparr>st_open = mem_open part, st_remove = mem_remove part, st_scan = mem_scan part,
     st_read_at = mem_read_at, st_write_at = mem_write_at, st_resize = mem_resize, st_sync = mem_sync\<rparr>"


section \<open>It keeps the contract\<close>

definition mem_content :: "string \<Rightarrow> mem_store \<Rightarrow> nat \<Rightarrow> bytes option" where
  "mem_content part w h =
     (if h < length (ms_blobs w) \<and> mb_partition (ms_blobs w ! h) = part then Some (mb_content (ms_blobs w ! h)) else None)"

definition mem_named :: "mem_store \<Rightarrow> nat \<Rightarrow> bytes" where
  "mem_named w h = mb_name (ms_blobs w ! h)"

definition mem_files :: "string \<Rightarrow> mem_store \<Rightarrow> bytes \<Rightarrow> bytes option" where
  "mem_files part w name = Option.bind (bt_get (ms_partitions w) part) (\<lambda>entry. bt_get entry name)"

definition mem_inv :: "mem_store \<Rightarrow> bool" where
  "mem_inv w \<longleftrightarrow> bt_inv (ms_partitions w) \<and> (\<forall>p e. bt_get (ms_partitions w) p = Some e \<longrightarrow> bt_inv e)"

lemma mem_content_Some:
  "mem_content part w h = Some c \<longleftrightarrow> h < length (ms_blobs w) \<and> mb_partition (ms_blobs w ! h) = part \<and> mb_content (ms_blobs w ! h) = c"
  by (auto simp: mem_content_def)

lemma mem_set_content:
  assumes "mem_content part w h = Some c" "mem_inv w"
  defines "v d \<equiv> w\<lparr>ms_blobs := (ms_blobs w)[h := (ms_blobs w ! h)\<lparr>mb_content := d\<rparr>]\<rparr>"
  shows "mem_content part (v d) = (mem_content part w)(h \<mapsto> d) \<and> mem_named (v d) = mem_named w
      \<and> mem_files part (v d) = mem_files part w \<and> mem_inv (v d)"
  using assms(1,2)
  by (auto simp: v_def mem_content_def mem_named_def mem_files_def mem_inv_def nth_list_update fun_eq_iff split: if_splits)

lemma mem_filesE:
  assumes "mem_files part w name \<noteq> None" "mem_inv w"
  obtains e where "bt_get (ms_partitions w) part = Some e" "bt_get e name \<noteq> None" "bt_inv e" "mem_files part w = bt_get e"
  using assms by (cases "bt_get (ms_partitions w) part") (auto simp: mem_files_def mem_inv_def fun_eq_iff)

lemma mem_set_file:
  fixes part :: string
  assumes "mem_inv w" "bt_inv e"
  defines "v \<equiv> w\<lparr>ms_partitions := bt_insert part e (ms_partitions w)\<rparr>"
  shows "mem_content part v = mem_content part w \<and> mem_named v = mem_named w \<and> mem_files part v = bt_get e \<and> mem_inv v"
  using assms(1,2) by (auto simp: v_def mem_content_def mem_named_def mem_files_def mem_inv_def bt_get_insert bt_inv_insert fun_eq_iff)

lemma mem_sync_ok:
  assumes w: "mem_inv w" "mem_content part w h = Some c" "mem_files part w (mem_named w h) \<noteq> None"
  shows "\<exists>w'. mem_sync h w = Ok w' \<and> mem_content part w' = mem_content part w \<and> mem_named w' = mem_named w
      \<and> mem_files part w' = (mem_files part w)(mem_named w h \<mapsto> c) \<and> mem_inv w'"
proof -
  obtain e where e: "bt_get (ms_partitions w) part = Some e" "bt_get e (mem_named w h) \<noteq> None" "bt_inv e"
      and f: "mem_files part w = bt_get e"
    using w(3,1) by (rule mem_filesE)
  from e(3) have "bt_inv (bt_insert (mem_named w h) c e)" by (rule bt_inv_insert)
  note m = mem_set_file [OF w(1) this, where part = part]
  have "mem_sync h w = Ok (w\<lparr>ms_partitions := bt_insert part (bt_insert (mem_named w h) c e) (ms_partitions w)\<rparr>)"
    using e w(2) by (auto simp: mem_sync_def mem_content_Some mem_named_def Let_def)
  then show ?thesis using m f by (simp add: bt_get_insert)
qed

lemma mem_remove_ok:
  assumes w: "mem_inv w" "mem_files part w name \<noteq> None" "validate_partition_name part = Ok ()"
  shows "\<exists>w'. mem_remove part (Some name) w = Ok w' \<and> mem_content part w' = mem_content part w \<and> mem_named w' = mem_named w
      \<and> mem_files part w' = (mem_files part w)(name := None) \<and> mem_inv w'"
proof -
  obtain e where e: "bt_get (ms_partitions w) part = Some e" "bt_get e name \<noteq> None" and i: "bt_inv e"
      and f: "mem_files part w = bt_get e"
    using w(2,1) by (rule mem_filesE)
  from i have "bt_inv (bt_remove name e)" by (rule bt_inv_remove)
  note m = mem_set_file [OF w(1) this, where part = part]
  have "mem_remove part (Some name) w = Ok (w\<lparr>ms_partitions := bt_insert part (bt_remove name e) (ms_partitions w)\<rparr>)"
    using e w(3) by (auto simp: mem_remove_def)
  then show ?thesis using m i f by (simp add: bt_get_remove)
qed

lemma or_default_inv: "bt_inv m \<Longrightarrow> bt_inv (snd (or_default k d m))"
  by (auto simp: or_default_def bt_inv_insert split: option.split)

lemma or_default_get: "bt_get (snd (or_default k d m)) = (bt_get m)(k \<mapsto> fst (or_default k d m))"
  by (auto simp: or_default_def bt_get_insert fun_eq_iff split: option.split)

lemma mem_open_ok:
  assumes w: "mem_inv w" "validate_partition_name part = Ok ()"
  shows "\<exists>h w' c. mem_open part name w = Ok (h, length c, w') \<and> mem_content part w h = None
      \<and> c = (case mem_files part w name of None \<Rightarrow> [] | Some d \<Rightarrow> d) \<and> mem_content part w' = (mem_content part w)(h \<mapsto> c)
      \<and> mem_named w' h = name \<and> (\<forall>k. mem_content part w k \<noteq> None \<longrightarrow> mem_named w' k = mem_named w k)
      \<and> mem_files part w' = (mem_files part w)(name \<mapsto> c) \<and> mem_inv w'"
proof -
  obtain e ps where e: "or_default part [] (ms_partitions w) = (e, ps)" by fastforce
  obtain c e' where c: "or_default name [] e = (c, e')" by fastforce
  have ei: "bt_inv e" and ef: "mem_files part w = bt_get e"
    using w(1) e by (auto simp: or_default_def mem_inv_def mem_files_def fun_eq_iff bt_get_def bt_inv_def split: option.splits)
  have e': "bt_inv e'" "bt_get e' = (bt_get e)(name \<mapsto> c)"
    using or_default_inv [OF ei, of name "[]"] or_default_get [of name "[]" e] c by simp_all
  let ?v = "w\<lparr>ms_partitions := bt_insert part e' (ms_partitions w)\<rparr>"
  let ?h = "length (ms_blobs w)"
  let ?w = "?v\<lparr>ms_blobs := ms_blobs w @ [\<lparr>mb_partition = part, mb_name = name, mb_content = c\<rparr>]\<rparr>"
  have m: "mem_files part ?v = bt_get e'" "mem_inv ?v"
    using mem_set_file [OF w(1) e'(1), where part = part] by auto
  have "mem_open part name w = Ok (?h, length c, ?w)" using w(2) e c by (simp add: mem_open_def)
  moreover have "mem_content part w ?h = None" by (simp add: mem_content_def)
  moreover have "c = (case mem_files part w name of None \<Rightarrow> [] | Some d \<Rightarrow> d)"
    using c ef by (auto simp: or_default_def split: option.splits)
  moreover have "mem_content part ?w = (mem_content part w)(?h \<mapsto> c)"
    by (auto simp: mem_content_def nth_append fun_eq_iff)
  moreover have "mem_named ?w ?h = name" by (simp add: mem_named_def)
  moreover have "mem_content part w k \<noteq> None \<longrightarrow> mem_named ?w k = mem_named w k" for k
    by (simp add: mem_named_def mem_content_def nth_append)
  moreover have "mem_files part ?w = (mem_files part w)(name \<mapsto> c)"
    using m(1) e'(2) ef by (simp add: mem_files_def fun_eq_iff)
  moreover have "mem_inv ?w" using m(2) by (simp add: mem_inv_def)
  ultimately show ?thesis by blast
qed

lemma mem_scan_ok:
  assumes "mem_inv w" "mem_files part w name \<noteq> None" "validate_partition_name part = Ok ()"
  shows "\<exists>ns. mem_scan part w = Ok ns \<and> sorted ns \<and> distinct ns \<and> set ns = dom (mem_files part w)"
proof -
  obtain e where "bt_get (ms_partitions w) part = Some e" "bt_inv e" "mem_files part w = bt_get e"
    using assms(2,1) by (rule mem_filesE)
  moreover have "bt_get e = map_of e" for e :: mem_partition by (simp add: bt_get_def fun_eq_iff)
  ultimately show ?thesis
    using assms(3) by (simp add: mem_scan_def bt_inv_def strict_sorted_iff dom_map_of_conv_image_fst)
qed

lemma mem_scan_none:
  assumes "\<And>name. mem_files part w name = None" "validate_partition_name part = Ok ()"
  shows "mem_scan part w = Ok [] \<or> (\<exists>part'. mem_scan part w = Err (PartitionMissing part'))"
proof (cases "bt_get (ms_partitions w) part")
  case (Some e)
  then have "bt_get e name = None" for name using assms(1) by (simp add: mem_files_def)
  then have "dom (bt_get e) = {}" by auto
  then have "e = []" using bt_dom [of e] by simp
  then show ?thesis using Some assms(2) by (simp add: mem_scan_def)
qed (use assms(2) in \<open>simp add: mem_scan_def\<close>)

lemma mem_store:
  assumes "validate_partition_name part = Ok ()"
  shows "blob_store (mem_ops part) (mem_content part) mem_named (mem_files part) mem_inv"
proof
  fix w h c off n assume "mem_inv w" "mem_content part w h = Some c"
  then have h: "h < length (ms_blobs w)" "mb_partition (ms_blobs w ! h) = part" "mb_content (ms_blobs w ! h) = c"
    by (simp_all add: mem_content_Some)
  show "off + n \<le> length c \<Longrightarrow> length c \<le> u64_max \<Longrightarrow> st_read_at (mem_ops part) n off h w = Ok (slice off n c)"
    using h by (simp add: mem_ops_def mem_read_at_def)
  show "length c < off + n \<Longrightarrow> off + n \<le> u64_max \<Longrightarrow> st_read_at (mem_ops part) n off h w = Err BlobInsufficientLength"
    using h by (simp add: mem_ops_def mem_read_at_def)
next
  fix w h c off and buf :: bytes and n
  assume w: "mem_inv w" and c: "mem_content part w h = Some c"
  then have h: "h < length (ms_blobs w)" "mb_partition (ms_blobs w ! h) = part" "mb_content (ms_blobs w ! h) = c"
    by (simp_all add: mem_content_Some)
  show "\<exists>w'. st_write_at (mem_ops part) buf off h w = Ok w' \<and> mem_content part w' = (mem_content part w)(h \<mapsto> overwrite off buf c)
        \<and> mem_named w' = mem_named w \<and> mem_files part w' = mem_files part w \<and> mem_inv w'" if "off + length buf \<le> u64_max"
    using that h mem_set_content [OF c w, of "overwrite off buf c"] by (simp add: mem_ops_def mem_write_at_def)
  show "\<exists>w'. st_resize (mem_ops part) n h w = Ok w' \<and> mem_content part w' = (mem_content part w)(h \<mapsto> resize_bytes n c)
        \<and> mem_named w' = mem_named w \<and> mem_files part w' = mem_files part w \<and> mem_inv w'" if "n \<le> u64_max"
    using h mem_set_content [OF c w, of "resize_bytes n c"] by (simp add: mem_ops_def mem_resize_def)
next
  show "\<exists>h w' c. st_open (mem_ops part) name w = Ok (h, length c, w') \<and> mem_content part w h = None
      \<and> c = (case mem_files part w name of None \<Rightarrow> [] | Some d \<Rightarrow> d) \<and> mem_content part w' = (mem_content part w)(h \<mapsto> c)
      \<and> mem_named w' h = name \<and> (\<forall>k. mem_content part w k \<noteq> None \<longrightarrow> mem_named w' k = mem_named w k)
      \<and> mem_files part w' = (mem_files part w)(name \<mapsto> c) \<and> mem_inv w'" if "mem_inv w" for w name
    using mem_open_ok [OF that assms, of name] by (simp add: mem_ops_def)
qed (simp_all add: mem_ops_def mem_sync_ok mem_remove_ok mem_scan_ok mem_scan_none assms del: not_None_eq)

interpretation mem: blob_store "mem_ops ''log''" "mem_content ''log''" mem_named "mem_files ''log''" mem_inv
  by (rule mem_store) (simp add: validate_partition_name_def is_ascii_alphanumeric_def)

end
