(* ===== verification/Blob_Write.thy ===== *)
theory Blob_Write
  imports Blob_Store
begin

text \<open>
  The tip buffer (\<open>runtime/src/utils/buffer/tip.rs\<close>) and the buffered writer built on it
  (\<open>runtime/src/utils/buffer/write.rs\<close>). The writer's blob and its buffer together stand for one
  byte array, \<open>tip_view\<close>; every operation of the writer acts on that array as the same operation
  of the blob would. Concurrent calls are serialised by the buffer's lock, so an operation is one step.
\<close>

section \<open>The tip buffer\<close>

record tip_buffer =
  tb_data :: bytes
  tb_offset :: nat
  tb_capacity :: nat

definition tip_new :: "nat \<Rightarrow> nat \<Rightarrow> tip_buffer" where
  "tip_new sz capacity = \<lparr>tb_data = [], tb_offset = sz, tb_capacity = capacity\<rparr>"

definition tip_size :: "tip_buffer \<Rightarrow> (nat, rt_error) result" where
  "tip_size b = u64_add (tb_offset b) (length (tb_data b))"

definition tip_is_empty :: "tip_buffer \<Rightarrow> bool" where
  "tip_is_empty b \<longleftrightarrow> tb_data b = []"

definition tip_resize :: "nat \<Rightarrow> tip_buffer \<Rightarrow> ((bytes \<times> nat) option \<times> tip_buffer, rt_error) result" where
  "tip_resize len b =
     (if tip_is_empty b then Ok (None, b\<lparr>tb_offset := len\<rparr>)
      else and_then (tip_size b) (\<lambda>size.
        if len \<ge> size then Ok (Some (tb_data b, tb_offset b), b\<lparr>tb_data := [], tb_offset := len\<rparr>)
        else if len \<ge> tb_offset b then Ok (None, b\<lparr>tb_data := take (len - tb_offset b) (tb_data b)\<rparr>)
        else Ok (None, b\<lparr>tb_data := [], tb_offset := len\<rparr>)))"

definition tip_take :: "tip_buffer \<Rightarrow> ((bytes \<times> nat) option \<times> tip_buffer, rt_error) result" where
  "tip_take b =
     (if tip_is_empty b then Ok (None, b)
      else and_then (u64_add (tb_offset b) (length (tb_data b))) (\<lambda>offset'.
        Ok (Some (tb_data b, tb_offset b), b\<lparr>tb_data := [], tb_offset := offset'\<rparr>)))"

text \<open>
  \<open>extract\<close> fills the part \<open>buf[remaining..]\<close> of the caller's buffer of length \<open>n\<close>; here it returns
  \<open>remaining\<close> and that part.
\<close>

definition tip_extract :: "nat \<Rightarrow> nat \<Rightarrow> tip_buffer \<Rightarrow> (nat \<times> bytes, rt_error) result" where
  "tip_extract n offset b =
     and_then (u64_add offset n) (\<lambda>end_offset.
     and_then (tip_size b) (\<lambda>size.
       if \<not> end_offset \<le> size then Panic
       else if end_offset \<le> tb_offset b then Ok (n, [])
       else let (start, remaining) =
                  (if offset < tb_offset b then (0, tb_offset b - offset) else (offset - tb_offset b, 0));
                end = start + n - remaining
            in if \<not> end \<le> length (tb_data b) then Panic
               else Ok (remaining, slice start (end - start) (tb_data b))))"

definition tip_merge :: "bytes \<Rightarrow> nat \<Rightarrow> tip_buffer \<Rightarrow> (bool \<times> tip_buffer, rt_error) result" where
  "tip_merge data offset b =
     and_then (u64_add offset (length data)) (\<lambda>end_offset.
     and_then (if offset \<ge> tb_offset b
               then and_then (u64_add (tb_offset b) (tb_capacity b)) (\<lambda>limit. Ok (end_offset \<le> limit))
               else Ok False) (\<lambda>can_merge_into_buffer.
       if \<not> can_merge_into_buffer then Ok (False, b)
       else Ok (True, b\<lparr>tb_data := overwrite (offset - tb_offset b) data (tb_data b)\<rparr>)))"

definition tip_append :: "bytes \<Rightarrow> tip_buffer \<Rightarrow> bool \<times> tip_buffer" where
  "tip_append data b = (length (tb_data b @ data) > tb_capacity b, b\<lparr>tb_data := tb_data b @ data\<rparr>)"

section \<open>The buffered writer\<close>

definition offset_add :: "nat \<Rightarrow> nat \<Rightarrow> (nat, rt_error) result" where
  "offset_add a b = (if a + b \<le> u64_max then Ok (a + b) else Err OffsetOverflow)"

record 'h write_blob =
  wb_blob :: 'h
  wb_buffer :: tip_buffer

definition write_new :: "'h \<Rightarrow> nat \<Rightarrow> nat \<Rightarrow> 'h write_blob" where
  "write_new blob sz capacity = \<lparr>wb_blob = blob, wb_buffer = tip_new sz capacity\<rparr>"

definition write_size :: "'h write_blob \<Rightarrow> (nat, rt_error) result" where
  "write_size wb = tip_size (wb_buffer wb)"

definition write_read_at :: "('w, 'h) store_ops \<Rightarrow> nat \<Rightarrow> nat \<Rightarrow> 'h write_blob \<Rightarrow> 'w \<Rightarrow> (bytes, rt_error) result" where
  "write_read_at ops n offset wb w =
     and_then (offset_add offset n) (\<lambda>end_offset.
     and_then (tip_size (wb_buffer wb)) (\<lambda>size.
       if end_offset > size then Err BlobInsufficientLength
       else and_then (tip_extract n offset (wb_buffer wb)) (\<lambda>(remaining, part).
         if remaining = 0 then Ok part
         else and_then (st_read_at ops remaining offset (wb_blob wb) w) (\<lambda>blob_part.
           Ok (blob_part @ part)))))"

text \<open>Flush what \<open>take\<close> or \<open>resize\<close> handed out.\<close>

definition write_back :: "('w, 'h) store_ops \<Rightarrow> (bytes \<times> nat) option \<Rightarrow> 'h \<Rightarrow> 'w \<Rightarrow> ('w, rt_error) result" where
  "write_back ops taken h w = (case taken of None \<Rightarrow> Ok w | Some (buf, offset) \<Rightarrow> st_write_at ops buf offset h w)"

definition write_direct :: "('w, 'h) store_ops \<Rightarrow> bytes \<Rightarrow> nat \<Rightarrow> nat \<Rightarrow> 'h write_blob \<Rightarrow> 'w \<Rightarrow> ('h write_blob \<times> 'w, rt_error) result" where
  "write_direct ops buf offset end_offset wb w =
     and_then (st_write_at ops buf offset (wb_blob wb) w) (\<lambda>w.
       Ok (wb\<lparr>wb_buffer := (wb_buffer wb)\<lparr>tb_offset := max (tb_offset (wb_buffer wb)) end_offset\<rparr>\<rparr>, w))"

definition write_write_at :: "('w, 'h) store_ops \<Rightarrow> bytes \<Rightarrow> nat \<Rightarrow> 'h write_blob \<Rightarrow> 'w \<Rightarrow> ('h write_blob \<times> 'w, rt_error) result" where
  "write_write_at ops buf offset wb w =
     and_then (offset_add offset (length buf)) (\<lambda>end_offset.
     and_then (tip_merge buf offset (wb_buffer wb)) (\<lambda>(merged, buffer).
       if merged then Ok (wb\<lparr>wb_buffer := buffer\<rparr>, w)
       else if tb_offset (wb_buffer wb) < end_offset then
         and_then (tip_take (wb_buffer wb)) (\<lambda>(taken, buffer).
           case taken of
             None \<Rightarrow> write_direct ops buf offset end_offset wb w
           | Some (old_buf, old_offset) \<Rightarrow>
               and_then (st_write_at ops old_buf old_offset (wb_blob wb) w) (\<lambda>w.
               and_then (tip_merge buf offset buffer) (\<lambda>(merged, buffer).
                 if merged then Ok (wb\<lparr>wb_buffer := buffer\<rparr>, w)
                 else write_direct ops buf offset end_offset (wb\<lparr>wb_buffer := buffer\<rparr>) w)))
       else write_direct ops buf offset end_offset wb w))"

definition write_resize :: "('w, 'h) store_ops \<Rightarrow> nat \<Rightarrow> 'h write_blob \<Rightarrow> 'w \<Rightarrow> ('h write_blob \<times> 'w, rt_error) result" where
  "write_resize ops len wb w =
     and_then (tip_resize len (wb_buffer wb)) (\<lambda>(flushed, buffer).
     and_then (write_back ops flushed (wb_blob wb) w) (\<lambda>w.
     and_then (st_resize ops len (wb_blob wb) w) (\<lambda>w.
       Ok (wb\<lparr>wb_buffer := buffer\<rparr>, w))))"

definition write_sync :: "('w, 'h) store_ops \<Rightarrow> 'h write_blob \<Rightarrow> 'w \<Rightarrow> ('h write_blob \<times> 'w, rt_error) result" where
  "write_sync ops wb w =
     and_then (tip_take (wb_buffer wb)) (\<lambda>(taken, buffer).
     and_then (write_back ops taken (wb_blob wb) w) (\<lambda>w.
     and_then (st_sync ops (wb_blob wb) w) (\<lambda>w.
       Ok (wb\<lparr>wb_buffer := buffer\<rparr>, w))))"

section \<open>What the blob and the buffer stand for\<close>

definition tip_view :: "bytes \<Rightarrow> tip_buffer \<Rightarrow> bytes" where
  "tip_view c b = take (tb_offset b) c @ tb_data b"

definition tip_inv :: "bytes \<Rightarrow> tip_buffer \<Rightarrow> bool" where
  "tip_inv c b \<longleftrightarrow> tb_offset b \<le> length c \<and> length c \<le> tb_offset b + length (tb_data b)"

lemma overwrite_append_right:
  "length xs \<le> off \<Longrightarrow> overwrite off buf (xs @ ys) = xs @ overwrite (off - length xs) buf ys"
  by (rule nth_equalityI) (auto simp: nth_overwrite nth_append)

lemma overwrite_append_left:
  "off + length buf \<le> length xs \<Longrightarrow> overwrite off buf (xs @ ys) = overwrite off buf xs @ ys"
  by (rule nth_equalityI) (auto simp: nth_overwrite nth_append)

lemma overwrite_tail:
  "off \<le> length xs \<Longrightarrow> length xs \<le> off + length buf \<Longrightarrow> overwrite off buf xs = take off xs @ buf"
  by (rule nth_equalityI) (auto simp: nth_overwrite nth_append)

lemma take_overwrite:
  "off + length buf \<le> n \<Longrightarrow> n \<le> length xs \<Longrightarrow> take n (overwrite off buf xs) = overwrite off buf (take n xs)"
  by (rule nth_equalityI) (auto simp: nth_overwrite)

lemma length_tip_view [simp]: "tip_inv c b \<Longrightarrow> length (tip_view c b) = tb_offset b + length (tb_data b)"
  by (simp add: tip_view_def tip_inv_def)

lemma tip_new_ok: "tip_inv c (tip_new (length c) cap)" "tip_view c (tip_new (length c) cap) = c"
  by (simp_all add: tip_inv_def tip_view_def tip_new_def)

lemma tip_extract_ok:
  assumes i: "tip_inv c b" and n: "off + n \<le> length (tip_view c b)" and m: "length (tip_view c b) \<le> u64_max"
  shows "\<exists>r part. tip_extract n off b = Ok (r, part) \<and> r = (if off < tb_offset b then min n (tb_offset b - off) else 0)
    \<and> slice off n (tip_view c b) = slice off r c @ part"
proof (cases "off + n \<le> tb_offset b")
  case True
  then have "slice off n (tip_view c b) = slice off n c"
    using i by (auto simp: tip_view_def tip_inv_def slice_def drop_take min_def)
  moreover have "tip_extract n off b = Ok (n, [])"
    using True n m i by (simp add: tip_extract_def tip_size_def)
  ultimately show ?thesis using True by (auto simp: slice_def)
next
  case False
  let ?r = "if off < tb_offset b then tb_offset b - off else 0"
  let ?start = "off - tb_offset b"
  have "tip_extract n off b = Ok (?r, slice ?start (n - ?r) (tb_data b))"
    using False n m i by (auto simp: tip_extract_def tip_size_def Let_def)
  moreover have "slice off n (tip_view c b) = slice off ?r c @ slice ?start (n - ?r) (tb_data b)"
    using False n i by (auto simp: slice_def tip_view_def tip_inv_def drop_take min_def)
  ultimately show ?thesis using False by (auto simp: min_def)
qed

lemma tip_merge_ok:
  assumes i: "tip_inv c b" and m: "off + length buf \<le> u64_max" "tb_offset b + tb_capacity b \<le> u64_max"
  shows "(\<exists>b'. tip_merge buf off b = Ok (True, b') \<and> tip_inv c b' \<and> tip_view c b' = overwrite off buf (tip_view c b)
        \<and> tb_offset b' = tb_offset b \<and> tb_capacity b' = tb_capacity b)
    \<or> tip_merge buf off b = Ok (False, b) \<and> \<not> (tb_offset b \<le> off \<and> off + length buf \<le> tb_offset b + tb_capacity b)"
proof (cases "tb_offset b \<le> off \<and> off + length buf \<le> tb_offset b + tb_capacity b")
  case True
  let ?b = "b\<lparr>tb_data := overwrite (off - tb_offset b) buf (tb_data b)\<rparr>"
  have "tip_merge buf off b = Ok (True, ?b)" using True m by (simp add: tip_merge_def)
  moreover have "tip_inv c ?b" using i by (auto simp: tip_inv_def)
  moreover have "tip_view c ?b = overwrite off buf (tip_view c b)"
    using True i by (simp add: tip_view_def tip_inv_def overwrite_append_right)
  ultimately show ?thesis by auto
next
  case False
  then show ?thesis using m by (auto simp: tip_merge_def)
qed

text \<open>Writing back what \<open>take\<close> handed out gives the blob the whole view.\<close>

lemma tip_flush: "tip_inv c b \<Longrightarrow> overwrite (tb_offset b) (tb_data b) c = tip_view c b"
  by (simp add: tip_inv_def tip_view_def overwrite_tail)

lemma tip_view_empty: "tip_inv c b \<Longrightarrow> tb_data b = [] \<Longrightarrow> tip_view c b = c \<and> length c = tb_offset b"
  by (simp add: tip_inv_def tip_view_def)


section \<open>The writer acts on the view\<close>

context blob_store
begin

lemma write_read_at_ok:
  assumes "inv w" "content w (wb_blob wb) = Some c" and i: "tip_inv c (wb_buffer wb)"
    and n: "off + n \<le> length (tip_view c (wb_buffer wb))" and m: "length (tip_view c (wb_buffer wb)) \<le> u64_max"
  shows "write_read_at ops n off wb w = Ok (slice off n (tip_view c (wb_buffer wb)))"
proof -
  let ?b = "wb_buffer wb"
  obtain r part where e: "tip_extract n off ?b = Ok (r, part)" "r = (if off < tb_offset ?b then min n (tb_offset ?b - off) else 0)"
      "slice off n (tip_view c ?b) = slice off r c @ part"
    using tip_extract_ok [OF i n m] by blast
  have c: "tb_offset ?b \<le> length c" "length c \<le> u64_max" using i m by (auto simp: tip_inv_def tip_view_def)
  then have "0 < r \<Longrightarrow> st_read_at ops r off (wb_blob wb) w = Ok (slice off r c)"
    using assms(1,2) e(2) by (intro read_ok) (auto split: if_splits)
  then show ?thesis using e n m i by (auto simp: write_read_at_def offset_add_def tip_size_def slice_def)
qed

lemma write_read_at_short:
  assumes "tip_inv c (wb_buffer wb)" "length (tip_view c (wb_buffer wb)) < off + n" "off + n \<le> u64_max"
  shows "write_read_at ops n off wb w = Err BlobInsufficientLength"
  using assms by (simp add: write_read_at_def offset_add_def tip_size_def)

text \<open>What an operation of the writer leaves behind, when its effect on the view is \<open>g\<close>.\<close>

definition writes :: "bytes \<Rightarrow> 'h write_blob \<Rightarrow> 'w \<Rightarrow> ('h write_blob \<times> 'w, rt_error) result \<Rightarrow> bool" where
  "writes v wb w res \<longleftrightarrow> (\<exists>wb' w' c. res = Ok (wb', w') \<and> wb_blob wb' = wb_blob wb
     \<and> tb_capacity (wb_buffer wb') = tb_capacity (wb_buffer wb)
     \<and> inv w' \<and> content w' = (content w)(wb_blob wb \<mapsto> c) \<and> tip_inv c (wb_buffer wb') \<and> tip_view c (wb_buffer wb') = v
     \<and> named w' = named w \<and> files w' = files w)"

lemma write_direct_writes:
  assumes "inv w" "content w (wb_blob wb) = Some c" "tip_inv c (wb_buffer wb)" "off + length buf \<le> u64_max"
    and "tb_data (wb_buffer wb) = [] \<or> off + length buf \<le> tb_offset (wb_buffer wb)"
  shows "writes (overwrite off buf (tip_view c (wb_buffer wb))) wb w (write_direct ops buf off (off + length buf) wb w)"
proof -
  let ?b = "wb_buffer wb" and ?c = "overwrite off buf c"
  obtain w' where w': "st_write_at ops buf off (wb_blob wb) w = Ok w'" "content w' = (content w)(wb_blob wb \<mapsto> ?c)"
      "named w' = named w" "files w' = files w" "inv w'"
    using write_ok [OF assms(1,2,4)] by blast
  let ?b' = "?b\<lparr>tb_offset := max (tb_offset ?b) (off + length buf)\<rparr>"
  have "tip_inv ?c ?b' \<and> tip_view ?c ?b' = overwrite off buf (tip_view c ?b)"
  proof (cases "tb_data ?b = []")
    case True
    then show ?thesis using assms(3) by (auto simp: tip_inv_def tip_view_def)
  next
    case False
    then have "off + length buf \<le> tb_offset ?b" using assms(5) by blast
    then show ?thesis using assms(3) by (simp add: tip_inv_def tip_view_def take_overwrite overwrite_append_left max_def)
  qed
  then show ?thesis using w' by (auto simp: writes_def write_direct_def)
qed

lemma tip_take_back:
  assumes "inv w" "content w h = Some c" "tip_inv c b" "length (tip_view c b) \<le> u64_max"
  shows "\<exists>taken b' w'. tip_take b = Ok (taken, b') \<and> write_back ops taken h w = Ok w' \<and> tb_data b' = []
    \<and> tb_capacity b' = tb_capacity b \<and> tb_offset b' = length (tip_view c b)
    \<and> (taken = None \<longrightarrow> b' = b \<and> w' = w)
    \<and> inv w' \<and> content w' = (content w)(h \<mapsto> tip_view c b) \<and> named w' = named w \<and> files w' = files w"
proof (cases "tb_data b = []")
  case True
  then show ?thesis using assms tip_view_empty [OF assms(3)]
    by (auto simp: tip_take_def tip_is_empty_def write_back_def fun_upd_idem)
next
  case False
  have m: "tb_offset b + length (tb_data b) \<le> u64_max" using assms(3,4) by simp
  obtain w' where "st_write_at ops (tb_data b) (tb_offset b) h w = Ok w'" "content w' = (content w)(h \<mapsto> tip_view c b)"
      "named w' = named w" "files w' = files w" "inv w'"
    using write_ok [OF assms(1,2) m] tip_flush [OF assms(3)] by auto
  then show ?thesis using False m assms(3) by (auto simp: tip_take_def tip_is_empty_def write_back_def)
qed

lemma write_over_ok:
  assumes w: "inv w" "content w (wb_blob wb) = Some c" "tip_inv c (wb_buffer wb)"
    and m: "max (length (tip_view c (wb_buffer wb))) (off + length buf) + tb_capacity (wb_buffer wb) \<le> u64_max"
    and over: "tip_merge buf off (wb_buffer wb) = Ok (False, wb_buffer wb)" "tb_offset (wb_buffer wb) < off + length buf"
  shows "writes (overwrite off buf (tip_view c (wb_buffer wb))) wb w (write_write_at ops buf off wb w)"
proof -
  let ?b = "wb_buffer wb" and ?e = "off + length buf"
  have e: "?e \<le> u64_max" "length (tip_view c ?b) \<le> u64_max" using m w(3) by auto
  obtain taken b' w' where t: "tip_take ?b = Ok (taken, b')" "write_back ops taken (wb_blob wb) w = Ok w'" "tb_data b' = []"
      "tb_capacity b' = tb_capacity ?b" "tb_offset b' = length (tip_view c ?b)" "taken = None \<longrightarrow> b' = ?b \<and> w' = w"
      "inv w'" "content w' = (content w)(wb_blob wb \<mapsto> tip_view c ?b)" "named w' = named w" "files w' = files w"
    using tip_take_back [OF w e(2)] by blast
  let ?wb = "wb\<lparr>wb_buffer := b'\<rparr>"
  have c: "content w' (wb_blob ?wb) = Some (tip_view c ?b)" and b': "tip_inv (tip_view c ?b) b'" "tip_view (tip_view c ?b) b' = tip_view c ?b"
    using t by (simp_all add: tip_inv_def tip_view_def [of "tip_view c ?b"])
  have dir: "writes (overwrite off buf (tip_view c ?b)) ?wb w' (write_direct ops buf off ?e ?wb w')"
    using write_direct_writes [of w' ?wb, OF t(7) c _ e(1)] b' t(3) by simp
  show ?thesis
  proof (cases taken)
    case None
    then have "b' = ?b" "w' = w" "?wb = wb" using t(6) by simp_all
    then show ?thesis using dir None over e t(1) by (simp add: write_write_at_def offset_add_def)
  next
    case (Some p)
    have "tb_offset b' + tb_capacity b' \<le> u64_max" using t(4,5) m by simp
    from tip_merge_ok [OF b'(1) e(1) this] consider
        (again) b'' where "tip_merge buf off b' = Ok (True, b'')" "tip_inv (tip_view c ?b) b''"
          "tip_view (tip_view c ?b) b'' = overwrite off buf (tip_view c ?b)" "tb_capacity b'' = tb_capacity ?b"
      | (direct) "tip_merge buf off b' = Ok (False, b')"
      using b'(2) t(4) by fastforce
    then show ?thesis
    proof cases
      case again
      then have "write_write_at ops buf off wb w = Ok (wb\<lparr>wb_buffer := b''\<rparr>, w')"
        using Some over e t by (auto simp: write_write_at_def offset_add_def write_back_def split: prod.splits)
      then show ?thesis using again t by (auto simp: writes_def)
    next
      case direct
      then have "write_write_at ops buf off wb w = write_direct ops buf off ?e ?wb w'"
        using Some over e t by (auto simp: write_write_at_def offset_add_def write_back_def split: prod.splits)
      then show ?thesis using dir t by (simp add: writes_def)
    qed
  qed
qed

lemma write_write_at_ok:
  assumes w: "inv w" "content w (wb_blob wb) = Some c" "tip_inv c (wb_buffer wb)"
    and m: "max (length (tip_view c (wb_buffer wb))) (off + length buf) + tb_capacity (wb_buffer wb) \<le> u64_max"
  shows "writes (overwrite off buf (tip_view c (wb_buffer wb))) wb w (write_write_at ops buf off wb w)"
proof -
  let ?b = "wb_buffer wb" and ?e = "off + length buf"
  have e: "?e \<le> u64_max" "tb_offset ?b + tb_capacity ?b \<le> u64_max" using m w(3) by auto
  from tip_merge_ok [OF w(3) e] consider
      (merged) b' where "tip_merge buf off ?b = Ok (True, b')" "tip_inv c b'" "tip_view c b' = overwrite off buf (tip_view c ?b)"
        "tb_capacity b' = tb_capacity ?b"
    | (before) "tip_merge buf off ?b = Ok (False, ?b)" "?e \<le> tb_offset ?b"
    | (over) "tip_merge buf off ?b = Ok (False, ?b)" "tb_offset ?b < ?e"
    by fastforce
  then show ?thesis
  proof cases
    case merged
    then show ?thesis using w e
      by (auto simp: writes_def write_write_at_def offset_add_def fun_upd_idem intro!: exI [of _ c])
  next
    case before
    then show ?thesis using write_direct_writes [OF w e(1)] e by (simp add: write_write_at_def offset_add_def)
  next
    case over
    then show ?thesis by (rule write_over_ok [OF w m])
  qed
qed

lemma write_resize_ok:
  assumes w: "inv w" "content w (wb_blob wb) = Some c" "tip_inv c (wb_buffer wb)"
    and m: "length (tip_view c (wb_buffer wb)) \<le> u64_max" "len \<le> u64_max"
  shows "writes (resize_bytes len (tip_view c (wb_buffer wb))) wb w (write_resize ops len wb w)"
proof -
  let ?b = "wb_buffer wb"
  define flush where "flush \<longleftrightarrow> tb_data ?b \<noteq> [] \<and> length (tip_view c ?b) \<le> len"
  define b' where "b' = (if tb_data ?b = [] \<or> flush \<or> len < tb_offset ?b then ?b\<lparr>tb_data := [], tb_offset := len\<rparr>
    else ?b\<lparr>tb_data := take (len - tb_offset ?b) (tb_data ?b)\<rparr>)"
  define taken where "taken = (if flush then Some (tb_data ?b, tb_offset ?b) else None)"
  define d where "d = (if flush then tip_view c ?b else c)"
  have r: "tip_resize len ?b = Ok (taken, b')"
    using m w(3) by (auto simp: tip_resize_def tip_is_empty_def tip_size_def b'_def taken_def flush_def)
  obtain w1 where w1: "write_back ops taken (wb_blob wb) w = Ok w1" "content w1 = (content w)(wb_blob wb \<mapsto> d)"
      "named w1 = named w" "files w1 = files w" "inv w1"
  proof (cases flush)
    case True
    have "tb_offset ?b + length (tb_data ?b) \<le> u64_max" using m(1) w(3) by simp
    from write_ok [OF w(1,2) this] show ?thesis
      using that True tip_flush [OF w(3)] by (auto simp: taken_def d_def write_back_def)
  next
    case False
    then show ?thesis using that [of w] w by (simp add: taken_def d_def write_back_def fun_upd_idem)
  qed
  obtain w2 where w2: "st_resize ops len (wb_blob wb) w1 = Ok w2" "content w2 = (content w1)(wb_blob wb \<mapsto> resize_bytes len d)"
      "named w2 = named w1" "files w2 = files w1" "inv w2"
    using resize_ok [of w1 "wb_blob wb" d len] w1 m by auto
  have "tip_inv (resize_bytes len d) b' \<and> tip_view (resize_bytes len d) b' = resize_bytes len (tip_view c ?b)"
  proof (cases "tb_data ?b = [] \<or> flush")
    case True
    then show ?thesis using w(3) tip_view_empty [OF w(3)] by (auto simp: b'_def d_def flush_def tip_inv_def tip_view_def)
  next
    case False
    then show ?thesis using w(3)
      by (auto simp: b'_def d_def flush_def tip_inv_def tip_view_def resize_bytes_def min_def not_le not_less)
  qed
  then show ?thesis using r w1 w2 by (auto simp: writes_def write_resize_def b'_def)
qed

lemma write_sync_ok:
  assumes w: "inv w" "content w (wb_blob wb) = Some c" "tip_inv c (wb_buffer wb)"
    and m: "length (tip_view c (wb_buffer wb)) \<le> u64_max" and f: "files w (named w (wb_blob wb)) \<noteq> None"
  shows "\<exists>wb' w'. write_sync ops wb w = Ok (wb', w') \<and> wb_blob wb' = wb_blob wb \<and> tb_capacity (wb_buffer wb') = tb_capacity (wb_buffer wb)
    \<and> inv w' \<and> content w' = (content w)(wb_blob wb \<mapsto> tip_view c (wb_buffer wb))
    \<and> tip_inv (tip_view c (wb_buffer wb)) (wb_buffer wb') \<and> tip_view (tip_view c (wb_buffer wb)) (wb_buffer wb') = tip_view c (wb_buffer wb)
    \<and> named w' = named w \<and> files w' = (files w)(named w (wb_blob wb) \<mapsto> tip_view c (wb_buffer wb))"
proof -
  let ?b = "wb_buffer wb"
  obtain taken b' w1 where t: "tip_take ?b = Ok (taken, b')" "write_back ops taken (wb_blob wb) w = Ok w1" "tb_data b' = []"
      "tb_capacity b' = tb_capacity ?b" "tb_offset b' = length (tip_view c ?b)"
      "inv w1" "content w1 = (content w)(wb_blob wb \<mapsto> tip_view c ?b)" "named w1 = named w" "files w1 = files w"
    using tip_take_back [OF w m] by blast
  obtain w2 where w2: "st_sync ops (wb_blob wb) w1 = Ok w2" "content w2 = content w1" "named w2 = named w1"
      "files w2 = (files w1)(named w1 (wb_blob wb) \<mapsto> tip_view c ?b)" "inv w2"
    using sync_ok [of w1 "wb_blob wb" "tip_view c ?b"] t f by auto
  have "tip_inv (tip_view c ?b) b' \<and> tip_view (tip_view c ?b) b' = tip_view c ?b"
    using t by (simp add: tip_inv_def tip_view_def [of "tip_view c ?b"])
  then show ?thesis using t w2 by (simp add: write_sync_def)
qed

end

section \<open>The writer and the blob it wraps\<close>

text \<open>A client's calls, and what it sees of them through the writer and on the blob itself.\<close>

datatype blob_call = CRead nat nat | CWrite bytes nat | CResize nat | CSync

fun run_writer :: "('w, 'h) store_ops \<Rightarrow> blob_call list \<Rightarrow> 'h write_blob \<Rightarrow> 'w \<Rightarrow>
    ((bytes, rt_error) result list \<times> 'h write_blob \<times> 'w, rt_error) result" where
  "run_writer ops [] wb w = Ok ([], wb, w)"
| "run_writer ops (CRead n off # cs) wb w =
     and_then (run_writer ops cs wb w) (\<lambda>(outs, r). Ok (write_read_at ops n off wb w # outs, r))"
| "run_writer ops (CWrite buf off # cs) wb w =
     and_then (write_write_at ops buf off wb w) (\<lambda>(wb, w). run_writer ops cs wb w)"
| "run_writer ops (CResize n # cs) wb w =
     and_then (write_resize ops n wb w) (\<lambda>(wb, w). run_writer ops cs wb w)"
| "run_writer ops (CSync # cs) wb w =
     and_then (write_sync ops wb w) (\<lambda>(wb, w). run_writer ops cs wb w)"

fun run_blob :: "('w, 'h) store_ops \<Rightarrow> blob_call list \<Rightarrow> 'h \<Rightarrow> 'w \<Rightarrow>
    ((bytes, rt_error) result list \<times> 'w, rt_error) result" where
  "run_blob ops [] h w = Ok ([], w)"
| "run_blob ops (CRead n off # cs) h w =
     and_then (run_blob ops cs h w) (\<lambda>(outs, r). Ok (st_read_at ops n off h w # outs, r))"
| "run_blob ops (CWrite buf off # cs) h w = and_then (st_write_at ops buf off h w) (run_blob ops cs h)"
| "run_blob ops (CResize n # cs) h w = and_then (st_resize ops n h w) (run_blob ops cs h)"
| "run_blob ops (CSync # cs) h w = and_then (st_sync ops h w) (run_blob ops cs h)"

text \<open>Calls whose byte range, plus the writer's capacity, stays in \<open>u64\<close>.\<close>

fun call_fits :: "nat \<Rightarrow> blob_call \<Rightarrow> bool" where
  "call_fits m (CRead n off) \<longleftrightarrow> off + n \<le> m"
| "call_fits m (CWrite buf off) \<longleftrightarrow> off + length buf \<le> m"
| "call_fits m (CResize n) \<longleftrightarrow> n \<le> m"
| "call_fits m CSync \<longleftrightarrow> True"

context blob_store
begin

definition same_view :: "nat \<Rightarrow> nat \<Rightarrow> 'h \<Rightarrow> 'h write_blob \<Rightarrow> 'w \<Rightarrow> 'w \<Rightarrow> bool" where
  "same_view m cap h wb w v \<longleftrightarrow> inv w \<and> inv v \<and> wb_blob wb = h \<and> tb_capacity (wb_buffer wb) = cap
     \<and> (\<exists>c. content w h = Some c \<and> tip_inv c (wb_buffer wb) \<and> content v h = Some (tip_view c (wb_buffer wb))
        \<and> length (tip_view c (wb_buffer wb)) \<le> m)
     \<and> named w = named v \<and> files w = files v \<and> files w (named w h) \<noteq> None"

lemma same_view_writes:
  assumes "same_view m cap h wb w v" "writes d wb w r" "length d \<le> m"
    and v': "inv v'" "content v' = (content v)(h \<mapsto> d)" "named v' = named v" "files v' = files v"
  shows "\<exists>wb' w'. r = Ok (wb', w') \<and> same_view m cap h wb' w' v'"
proof -
  have wb: "wb_blob wb = h" "tb_capacity (wb_buffer wb) = cap" using assms(1) by (simp_all add: same_view_def)
  obtain wb' w' e where a: "r = Ok (wb', w')" "wb_blob wb' = h" "tb_capacity (wb_buffer wb') = cap" "inv w'"
      "content w' = (content w)(h \<mapsto> e)" "tip_inv e (wb_buffer wb')" "tip_view e (wb_buffer wb') = d"
      "named w' = named w" "files w' = files w"
    using assms(2) wb by (auto simp: writes_def)
  then have "same_view m cap h wb' w' v'" using v' assms(1,3) unfolding same_view_def by (auto simp del: length_tip_view)
  then show ?thesis using a(1) by blast
qed

lemma same_view_write:
  assumes s: "same_view m cap h wb w v" and m: "off + length buf \<le> m" "m + cap \<le> u64_max"
  shows "\<exists>wb' w' v'. write_write_at ops buf off wb w = Ok (wb', w') \<and> st_write_at ops buf off h v = Ok v' \<and> same_view m cap h wb' w' v'"
proof -
  obtain c where c: "inv w" "inv v" "wb_blob wb = h" "tb_capacity (wb_buffer wb) = cap" "content w h = Some c"
      "tip_inv c (wb_buffer wb)" "content v h = Some (tip_view c (wb_buffer wb))" "length (tip_view c (wb_buffer wb)) \<le> m"
    using s by (auto simp: same_view_def simp del: length_tip_view)
  let ?d = "overwrite off buf (tip_view c (wb_buffer wb))"
  have "writes ?d wb w (write_write_at ops buf off wb w)"
    using c m by (intro write_write_at_ok) (simp_all del: length_tip_view)
  moreover have "length ?d \<le> m" using c(8) m by (simp del: length_tip_view)
  moreover obtain v' where "st_write_at ops buf off h v = Ok v'" "inv v'" "content v' = (content v)(h \<mapsto> ?d)"
      "named v' = named v" "files v' = files v"
    using write_ok [OF c(2,7), of off buf] m by auto
  ultimately show ?thesis using same_view_writes [OF s] by blast
qed

lemma same_view_resize:
  assumes s: "same_view m cap h wb w v" and m: "n \<le> m" "m + cap \<le> u64_max"
  shows "\<exists>wb' w' v'. write_resize ops n wb w = Ok (wb', w') \<and> st_resize ops n h v = Ok v' \<and> same_view m cap h wb' w' v'"
proof -
  obtain c where c: "inv w" "inv v" "wb_blob wb = h" "content w h = Some c"
      "tip_inv c (wb_buffer wb)" "content v h = Some (tip_view c (wb_buffer wb))" "length (tip_view c (wb_buffer wb)) \<le> m"
    using s by (auto simp: same_view_def simp del: length_tip_view)
  let ?d = "resize_bytes n (tip_view c (wb_buffer wb))"
  have "writes ?d wb w (write_resize ops n wb w)"
    using c m by (intro write_resize_ok) (simp_all del: length_tip_view)
  moreover have "length ?d \<le> m" using m by simp
  moreover obtain v' where "st_resize ops n h v = Ok v'" "inv v'" "content v' = (content v)(h \<mapsto> ?d)"
      "named v' = named v" "files v' = files v"
    using resize_ok [OF c(2,6), of n] m by auto
  ultimately show ?thesis using same_view_writes [OF s] by blast
qed

lemma same_view_sync:
  assumes s: "same_view m cap h wb w v" and m: "m + cap \<le> u64_max"
  shows "\<exists>wb' w' v'. write_sync ops wb w = Ok (wb', w') \<and> st_sync ops h v = Ok v' \<and> same_view m cap h wb' w' v'"
proof -
  obtain c where c: "inv w" "inv v" "wb_blob wb = h" "tb_capacity (wb_buffer wb) = cap" "content w h = Some c"
      "tip_inv c (wb_buffer wb)" "content v h = Some (tip_view c (wb_buffer wb))" "length (tip_view c (wb_buffer wb)) \<le> m"
      "named w = named v" "files w = files v" "files w (named w h) \<noteq> None"
    using s by (auto simp: same_view_def simp del: length_tip_view not_None_eq)
  let ?d = "tip_view c (wb_buffer wb)"
  obtain wb' w' where a: "write_sync ops wb w = Ok (wb', w')" "wb_blob wb' = h" "tb_capacity (wb_buffer wb') = cap" "inv w'"
      "content w' = (content w)(h \<mapsto> ?d)" "tip_inv ?d (wb_buffer wb')" "tip_view ?d (wb_buffer wb') = ?d"
      "named w' = named w" "files w' = (files w)(named w h \<mapsto> ?d)"
    using write_sync_ok [of w wb c] c m by (auto simp del: length_tip_view not_None_eq)
  obtain v' where b: "st_sync ops h v = Ok v'" "inv v'" "content v' = content v" "named v' = named v"
      "files v' = (files v)(named v h \<mapsto> ?d)"
    using sync_ok [OF c(2,7)] c(9-11) by auto
  have "same_view m cap h wb' w' v'"
    using a b c unfolding same_view_def by (auto simp del: length_tip_view)
  then show ?thesis using a(1) b(1) by blast
qed

lemma same_view_read:
  assumes "same_view m cap h wb w v" "off + n \<le> m" "m + cap \<le> u64_max"
  shows "write_read_at ops n off wb w = st_read_at ops n off h v"
proof -
  obtain c where c: "inv w" "inv v" "wb_blob wb = h" "content w h = Some c"
      "tip_inv c (wb_buffer wb)" "content v h = Some (tip_view c (wb_buffer wb))" "length (tip_view c (wb_buffer wb)) \<le> m"
    using assms(1) by (auto simp: same_view_def simp del: length_tip_view)
  show ?thesis
  proof (cases "off + n \<le> length (tip_view c (wb_buffer wb))")
    case True
    then show ?thesis using c assms(3) write_read_at_ok [of w wb c off n] read_ok [of v h _ off n] by simp
  next
    case False
    then show ?thesis using c assms(2,3) write_read_at_short [of c wb off n] read_short [of v h _ off n] by simp
  qed
qed

lemma writer_simulates:
  assumes "same_view m cap h wb w v" "list_all (call_fits m) cs" "m + cap \<le> u64_max"
  shows "\<exists>outs wb' w' v'. run_writer ops cs wb w = Ok (outs, wb', w') \<and> run_blob ops cs h v = Ok (outs, v')
    \<and> same_view m cap h wb' w' v'"
  using assms
proof (induction cs arbitrary: wb w v)
  case Nil
  then show ?case by simp
next
  case (Cons call cs)
  note IH = Cons.IH [OF _ _ Cons.prems(3)]
  show ?case
  proof (cases call)
    case (CRead n off)
    then have "write_read_at ops n off wb w = st_read_at ops n off h v"
      using Cons.prems by (intro same_view_read) auto
    then show ?thesis using IH [OF Cons.prems(1)] Cons.prems(2) CRead by auto
  next
    case (CWrite buf off)
    then show ?thesis using same_view_write [OF Cons.prems(1), of off buf] Cons.prems(2,3) IH by fastforce
  next
    case (CResize n)
    then show ?thesis using same_view_resize [OF Cons.prems(1), of n] Cons.prems(2,3) IH by fastforce
  next
    case CSync
    then show ?thesis using same_view_sync [OF Cons.prems(1)] Cons.prems(2,3) IH by fastforce
  qed
qed

end

text \<open>
  C16. Behind the buffered writer a blob of the in-memory store behaves as the blob itself: any
  sequence of reads, writes, resizes and syncs (at offsets that leave the buffer's capacity below
  \<open>u64::MAX\<close>) runs to its end, every read returns the same bytes or the same error, and the same
  contents become durable at every sync.
\<close>

theorem buffered_writer_is_transparent:
  assumes "validate_partition_name part = Ok ()" "mem_inv w" "mem_content part w h = Some c"
    and "mem_files part w (mem_named w h) \<noteq> None"
    and "length c \<le> m" "m + cap \<le> u64_max" "list_all (call_fits m) cs"
  shows "\<exists>outs wb' w' v'. run_writer (mem_ops part) cs (write_new h (length c) cap) w = Ok (outs, wb', w')
    \<and> run_blob (mem_ops part) cs h w = Ok (outs, v') \<and> mem_files part w' = mem_files part v'"
proof -
  note st = mem_store [OF assms(1)]
  have "blob_store.same_view (mem_content part) mem_named (mem_files part) mem_inv m cap h (write_new h (length c) cap) w w"
    using assms by (simp add: blob_store.same_view_def [OF st] write_new_def tip_new_ok, simp add: tip_new_def)
  from blob_store.writer_simulates [OF st this assms(7,6)] show ?thesis
    unfolding blob_store.same_view_def [OF st] by blast
qed

definition sample_store :: mem_store where
  "sample_store = \<lparr>ms_partitions = [(''log'', [([7], [1, 2, 3])])],
     ms_blobs = [\<lparr>mb_partition = ''log'', mb_name = [7], mb_content = [1, 2, 3]\<rparr>]\<rparr>"

lemma sample_store_ok:
  "validate_partition_name ''log'' = Ok ()" "mem_inv sample_store" "mem_content ''log'' sample_store 0 = Some [1, 2, 3]"
  "mem_files ''log'' sample_store (mem_named sample_store 0) \<noteq> None"
  by (simp_all add: validate_partition_name_def is_ascii_alphanumeric_def sample_store_def mem_inv_def bt_inv_def bt_get_def
      mem_content_def mem_files_def mem_named_def)

theorem buffered_writer_is_transparent_witness:
  "\<exists>outs wb' w' v'. run_writer (mem_ops ''log'') [CWrite [9] 1, CRead 3 0, CResize 2, CSync, CRead 3 0] (write_new 0 3 4) sample_store = Ok (outs, wb', w')
    \<and> run_blob (mem_ops ''log'') [CWrite [9] 1, CRead 3 0, CResize 2, CSync, CRead 3 0] 0 sample_store = Ok (outs, v') \<and> mem_files ''log'' w' = mem_files ''log'' v'"
  using buffered_writer_is_transparent [OF sample_store_ok, of 10 4 "[CWrite [9] 1, CRead 3 0, CResize 2, CSync, CRead 3 0]"]
  by (simp add: u64_max_def numeral_3_eq_3)

end
