(* ===== verification/Blob_Pool.thy ===== *)
theory Blob_Pool
  imports Blob_Write
begin

text \<open>
  The page cache shared by the append-only blobs (\<open>runtime/src/utils/buffer/pool.rs\<close>): pages of fixed
  size, keyed by blob id and page number, replaced by the clock policy. \<open>pool_inv\<close> is the invariant
  the source states of \<open>index\<close> and \<open>cache\<close>; \<open>pool_page\<close> is the map from keys to pages the two stand for.
  Calls are taken one at a time: the map \<open>page_fetches\<close>, which lets concurrent readers of a page share
  one fetch, is empty between calls, so its occupied branch is not part of the model.
\<close>

section \<open>Pool\<close>

record cache_entry =
  ce_key :: "nat \<times> nat"
  ce_referenced :: bool
  ce_data :: bytes

record pool =
  pl_index :: "nat \<times> nat \<rightharpoonup> nat"
  pl_cache :: "cache_entry list"
  pl_clock :: nat
  pl_capacity :: nat

definition pool_new :: "nat \<Rightarrow> (pool, rt_error) result" where
  "pool_new capacity =
     (if \<not> capacity > 0 then Panic
      else Ok \<lparr>pl_index = Map.empty, pl_cache = [], pl_clock = 0, pl_capacity = capacity\<rparr>)"

definition offset_to_page :: "nat \<Rightarrow> nat \<Rightarrow> (nat \<times> nat, rt_error) result" where
  "offset_to_page page_size offset = (if page_size = 0 then Panic else Ok (offset div page_size, offset mod page_size))"

definition pool_mark :: "nat \<Rightarrow> bool \<Rightarrow> cache_entry list \<Rightarrow> cache_entry list" where
  "pool_mark i r cache = cache[i := (cache ! i)\<lparr>ce_referenced := r\<rparr>]"

text \<open>The bytes copied to the front of a buffer of length \<open>n\<close>; none if the page is not cached.\<close>

definition pool_read_at :: "nat \<Rightarrow> nat \<Rightarrow> nat \<Rightarrow> nat \<Rightarrow> pool \<Rightarrow> (bytes \<times> pool, rt_error) result" where
  "pool_read_at page_size blob_id n offset p =
     and_then (offset_to_page page_size offset) (\<lambda>(page_num, offset_in_page).
       case pl_index p (blob_id, page_num) of
         None \<Rightarrow> Ok ([], p)
       | Some page_index \<Rightarrow>
           if \<not> page_index < length (pl_cache p) then Panic
           else let page = pl_cache p ! page_index in
             if ce_key page \<noteq> (blob_id, page_num) then Panic
             else let bytes_to_copy = min n (page_size - offset_in_page) in
               if \<not> offset_in_page + bytes_to_copy \<le> length (ce_data page) then Panic
               else Ok (slice offset_in_page bytes_to_copy (ce_data page),
                        p\<lparr>pl_cache := pool_mark page_index True (pl_cache p)\<rparr>))"

text \<open>The clock hand clears reference bits until it finds an entry whose bit is already clear.\<close>

function clock_sweep :: "cache_entry list \<Rightarrow> nat \<Rightarrow> (cache_entry list \<times> nat, rt_error) result" where
  "clock_sweep cache clock =
     (if \<not> clock < length cache then Panic
      else if ce_referenced (cache ! clock)
      then clock_sweep (pool_mark clock False cache) ((clock + 1) mod length cache)
      else Ok (cache, clock))"
  by pat_completeness auto

lemma filter_update_less:
  "i < length xs \<Longrightarrow> P (xs ! i) \<Longrightarrow> \<not> P x \<Longrightarrow> length (filter P (xs[i := x])) < length (filter P xs)"
proof (induction xs arbitrary: i)
  case (Cons y ys)
  then show ?case by (cases i) auto
qed simp

termination clock_sweep
  by (relation "measure (\<lambda>(cache, clock). length (filter ce_referenced cache))")
     (auto simp: pool_mark_def intro!: filter_update_less)

declare clock_sweep.simps [simp del]

definition pool_cache :: "nat \<Rightarrow> nat \<Rightarrow> bytes \<Rightarrow> nat \<Rightarrow> pool \<Rightarrow> (pool, rt_error) result" where
  "pool_cache page_size blob_id page page_num p =
     (if length page \<noteq> page_size then Panic
      else let key = (blob_id, page_num) in
        case pl_index p key of
          Some i \<Rightarrow>
            if \<not> i < length (pl_cache p) then Panic
            else let entry = pl_cache p ! i in
              if ce_key entry \<noteq> key \<or> length (ce_data entry) \<noteq> length page then Panic
              else Ok (p\<lparr>pl_cache := (pl_cache p)[i := entry\<lparr>ce_referenced := True, ce_data := page\<rparr>]\<rparr>)
        | None \<Rightarrow>
            if length (pl_cache p) < pl_capacity p then
              Ok (p\<lparr>pl_index := (pl_index p)(key \<mapsto> length (pl_cache p)),
                     pl_cache := pl_cache p @ [\<lparr>ce_key = key, ce_referenced = True, ce_data = page\<rparr>]\<rparr>)
            else and_then (clock_sweep (pl_cache p) (pl_clock p)) (\<lambda>(cache, clock).
              let entry = cache ! clock in
                if pl_index p (ce_key entry) = None \<or> length (ce_data entry) \<noteq> length page then Panic
                else Ok (p\<lparr>pl_index := (pl_index p)(ce_key entry := None, key \<mapsto> clock),
                       pl_cache := cache[clock := \<lparr>ce_key = key, ce_referenced = True, ce_data = page\<rparr>],
                       pl_clock := (clock + 1) mod length cache\<rparr>)))"

section \<open>References to a pool\<close>

record pool_ref =
  pr_page_size :: nat
  pr_next_id :: nat
  pr_pool :: pool

definition pool_ref_new :: "nat \<Rightarrow> nat \<Rightarrow> (pool_ref, rt_error) result" where
  "pool_ref_new page_size capacity =
     and_then (pool_new capacity) (\<lambda>p. Ok \<lparr>pr_page_size = page_size, pr_next_id = 0, pr_pool = p\<rparr>)"

definition pool_next_id :: "pool_ref \<Rightarrow> nat \<times> pool_ref" where
  "pool_next_id pr = (pr_next_id pr, pr\<lparr>pr_next_id := (pr_next_id pr + 1) mod (u64_max + 1)\<rparr>)"

definition read_after_page_fault :: "('w, 'h) store_ops \<Rightarrow> 'h \<Rightarrow> nat \<Rightarrow> nat \<Rightarrow> nat \<Rightarrow> pool_ref \<Rightarrow> 'w \<Rightarrow> (bytes \<times> pool_ref, rt_error) result" where
  "read_after_page_fault ops blob blob_id n offset pr w =
     (if n = 0 then Panic
      else and_then (offset_to_page (pr_page_size pr) offset) (\<lambda>(page_num, offset_in_page).
        and_then (pool_read_at (pr_page_size pr) blob_id n offset (pr_pool pr)) (\<lambda>(bs, p).
          if bs \<noteq> [] then Ok (bs, pr\<lparr>pr_pool := p\<rparr>)
          else and_then (u64_mul page_num (pr_page_size pr)) (\<lambda>page_offset.
            case st_read_at ops (pr_page_size pr) page_offset blob w of
              Panic \<Rightarrow> Panic
            | Err e \<Rightarrow> Err ReadFailed
            | Ok page_buf \<Rightarrow>
                and_then (pool_cache (pr_page_size pr) blob_id page_buf page_num p) (\<lambda>p.
                  let bytes_to_copy = min n (pr_page_size pr - offset_in_page)
                  in if \<not> offset_in_page + bytes_to_copy \<le> length page_buf then Panic
                     else Ok (slice offset_in_page bytes_to_copy page_buf, pr\<lparr>pr_pool := p\<rparr>))))))"

text \<open>One round of the loop of \<open>read\<close>: from the pool, or by a page fault.\<close>

definition pool_read_step :: "('w, 'h) store_ops \<Rightarrow> 'h \<Rightarrow> nat \<Rightarrow> nat \<Rightarrow> nat \<Rightarrow> pool_ref \<Rightarrow> 'w \<Rightarrow> (bytes \<times> pool_ref, rt_error) result" where
  "pool_read_step ops blob blob_id n offset pr w =
     and_then (pool_read_at (pr_page_size pr) blob_id n offset (pr_pool pr)) (\<lambda>(bs, p).
       if bs \<noteq> [] then Ok (bs, pr\<lparr>pr_pool := p\<rparr>)
       else read_after_page_fault ops blob blob_id n offset (pr\<lparr>pr_pool := p\<rparr>) w)"

text \<open>
  Every round of the loop of \<open>read\<close> copies at least one byte (the page size is not zero), so as many
  rounds as bytes are enough; \<open>pool_ref_read_ok\<close> shows that the read completes within them.
\<close>

fun pool_read_loop :: "nat \<Rightarrow> ('w, 'h) store_ops \<Rightarrow> 'h \<Rightarrow> nat \<Rightarrow> nat \<Rightarrow> nat \<Rightarrow> pool_ref \<Rightarrow> 'w \<Rightarrow> (bytes \<times> pool_ref, rt_error) result" where
  "pool_read_loop fuel ops blob blob_id 0 offset pr w = Ok ([], pr)"
| "pool_read_loop 0 ops blob blob_id (Suc n) offset pr w = Panic"
| "pool_read_loop (Suc fuel) ops blob blob_id (Suc n) offset pr w =
     and_then (pool_read_step ops blob blob_id (Suc n) offset pr w) (\<lambda>(bs, pr).
       and_then (u64_add offset (length bs)) (\<lambda>offset.
       and_then (pool_read_loop fuel ops blob blob_id (Suc n - length bs) offset pr w) (\<lambda>(rest, pr).
         Ok (bs @ rest, pr))))"

definition pool_ref_read :: "('w, 'h) store_ops \<Rightarrow> 'h \<Rightarrow> nat \<Rightarrow> nat \<Rightarrow> nat \<Rightarrow> pool_ref \<Rightarrow> 'w \<Rightarrow> (bytes \<times> pool_ref, rt_error) result" where
  "pool_ref_read ops blob blob_id n offset pr w = pool_read_loop n ops blob blob_id n offset pr w"

function pool_cache_pages :: "nat \<Rightarrow> nat \<Rightarrow> bytes \<Rightarrow> nat \<Rightarrow> pool \<Rightarrow> (nat \<times> pool, rt_error) result" where
  "pool_cache_pages page_size blob_id buf page_num p =
     (if page_size = 0 then Panic
      else if length buf \<ge> page_size then
        and_then (pool_cache page_size blob_id (take page_size buf) page_num p) (\<lambda>p.
          if page_num + 1 \<le> u64_max then pool_cache_pages page_size blob_id (drop page_size buf) (page_num + 1) p
          else Ok (length (drop page_size buf), p))
      else Ok (length buf, p))"
  by pat_completeness auto

termination pool_cache_pages
  by (relation "measure (\<lambda>(_, _, buf, _). length buf)") auto

declare pool_cache_pages.simps [simp del]

definition pool_ref_cache :: "nat \<Rightarrow> bytes \<Rightarrow> nat \<Rightarrow> pool_ref \<Rightarrow> (nat \<times> pool_ref, rt_error) result" where
  "pool_ref_cache blob_id buf offset pr =
     and_then (offset_to_page (pr_page_size pr) offset) (\<lambda>(page_num, offset_in_page).
       if offset_in_page \<noteq> 0 then Panic
       else and_then (pool_cache_pages (pr_page_size pr) blob_id buf page_num (pr_pool pr)) (\<lambda>(remaining, p).
         Ok (remaining, pr\<lparr>pr_pool := p\<rparr>)))"

section \<open>The invariant of the index and the cache\<close>

definition indexed :: "(nat \<times> nat \<rightharpoonup> nat) \<Rightarrow> cache_entry list \<Rightarrow> bool" where
  "indexed idx cache \<longleftrightarrow> (\<forall>k i. idx k = Some i \<longleftrightarrow> i < length cache \<and> ce_key (cache ! i) = k)"

definition sized :: "nat \<Rightarrow> cache_entry list \<Rightarrow> bool" where
  "sized page_size cache \<longleftrightarrow> (\<forall>i < length cache. length (ce_data (cache ! i)) = page_size)"

definition pool_inv :: "nat \<Rightarrow> pool \<Rightarrow> bool" where
  "pool_inv page_size p \<longleftrightarrow> 0 < pl_capacity p \<and> length (pl_cache p) \<le> pl_capacity p
     \<and> (pl_clock p = 0 \<or> pl_clock p < length (pl_cache p))
     \<and> indexed (pl_index p) (pl_cache p)
     \<and> sized page_size (pl_cache p)"

definition pool_page :: "pool \<Rightarrow> nat \<times> nat \<rightharpoonup> bytes" where
  "pool_page p k = map_option (\<lambda>i. ce_data (pl_cache p ! i)) (pl_index p k)"

lemma pool_new_ok: "0 < capacity \<Longrightarrow> \<exists>p. pool_new capacity = Ok p \<and> pool_inv page_size p \<and> pool_page p = Map.empty"
  by (auto simp: pool_new_def pool_inv_def indexed_def sized_def pool_page_def)

lemma nth_pool_mark [simp]:
  "i < length xs \<Longrightarrow> j < length xs \<Longrightarrow> pool_mark i r xs ! j = (if i = j then (xs ! j)\<lparr>ce_referenced := r\<rparr> else xs ! j)"
  by (simp add: pool_mark_def nth_list_update)

lemma length_pool_mark [simp]: "length (pool_mark i r xs) = length xs"
  by (simp add: pool_mark_def)

text \<open>The sweep changes reference bits only, and ends on an entry whose bit is clear.\<close>

definition same_entries :: "cache_entry list \<Rightarrow> cache_entry list \<Rightarrow> bool" where
  "same_entries xs ys \<longleftrightarrow> length xs = length ys \<and>
     (\<forall>i < length xs. ce_key (xs ! i) = ce_key (ys ! i) \<and> ce_data (xs ! i) = ce_data (ys ! i))"

lemma same_entries_mark: "i < length xs \<Longrightarrow> same_entries (pool_mark i r xs) xs"
  by (simp add: same_entries_def)

lemma same_entries_trans: "same_entries xs ys \<Longrightarrow> same_entries ys zs \<Longrightarrow> same_entries xs zs"
  by (simp add: same_entries_def)

lemma clock_sweep_ok:
  assumes "clock < length cache"
  shows "\<exists>cache' clock'. clock_sweep cache clock = Ok (cache', clock') \<and> same_entries cache' cache
    \<and> clock' < length cache \<and> \<not> ce_referenced (cache' ! clock')"
  using assms
proof (induction cache clock rule: clock_sweep.induct)
  case (1 cache clock)
  show ?case
  proof (cases "ce_referenced (cache ! clock)")
    case True
    have "(clock + 1) mod length cache < length (pool_mark clock False cache)"
      using 1(2) by (auto intro: mod_less_divisor)
    from "1.IH" [OF _ True this] 1(2) show ?thesis
      using True same_entries_mark [OF 1(2), of False] same_entries_trans
      by (subst clock_sweep.simps) fastforce
  next
    case False
    then show ?thesis using 1(2) by (subst clock_sweep.simps) (simp add: same_entries_def)
  qed
qed


lemma indexedD: "indexed idx cache \<Longrightarrow> idx k = Some i \<longleftrightarrow> i < length cache \<and> ce_key (cache ! i) = k"
  by (simp add: indexed_def del: split_paired_All)

lemma indexedI: "(\<And>k i. idx k = Some i \<longleftrightarrow> i < length cache \<and> ce_key (cache ! i) = k) \<Longrightarrow> indexed idx cache"
  by (simp only: indexed_def) blast

lemma indexed_keys:
  assumes "indexed idx cache" "length cache' = length cache" "\<And>i. i < length cache \<Longrightarrow> ce_key (cache' ! i) = ce_key (cache ! i)"
  shows "indexed idx cache'"
  using assms by (intro indexedI) (auto simp: indexedD)

lemma sized_update: "sized ps cache \<Longrightarrow> length (ce_data e) = ps \<Longrightarrow> sized ps (cache[i := e])"
  by (cases "i < length cache") (auto simp: sized_def nth_list_update)

lemma sized_append: "sized ps cache \<Longrightarrow> length (ce_data e) = ps \<Longrightarrow> sized ps (cache @ [e])"
  by (auto simp: sized_def nth_append less_Suc_eq)

lemma sized_same: "same_entries cache' cache \<Longrightarrow> sized ps cache \<Longrightarrow> sized ps cache'"
  by (simp add: sized_def same_entries_def)

lemma pool_inv_index:
  assumes "pool_inv ps p" "pl_index p k = Some i"
  shows "i < length (pl_cache p)" "ce_key (pl_cache p ! i) = k" "length (ce_data (pl_cache p ! i)) = ps"
  using assms by (auto simp: pool_inv_def indexedD sized_def)

lemma pool_page_Some: "pool_page p k = Some d \<longleftrightarrow> (\<exists>i. pl_index p k = Some i \<and> d = ce_data (pl_cache p ! i))"
  by (auto simp: pool_page_def)

lemma pool_page_None: "pool_page p k = None \<longleftrightarrow> pl_index p k = None"
  by (simp add: pool_page_def)

lemma pool_page_length: "pool_inv ps p \<Longrightarrow> pool_page p k = Some d \<Longrightarrow> length d = ps"
  by (auto simp: pool_page_Some dest: pool_inv_index)

lemma pool_mark_ok:
  assumes p: "pool_inv ps p" "i < length (pl_cache p)"
  defines "q \<equiv> p\<lparr>pl_cache := pool_mark i True (pl_cache p)\<rparr>"
  shows "pool_inv ps q \<and> pool_page q = pool_page p \<and> pl_capacity q = pl_capacity p"
proof -
  have "pool_page q k = pool_page p k" for k
  proof (cases "pl_index p k")
    case (Some j)
    then show ?thesis using p pool_inv_index [OF p(1) Some] by (simp add: q_def pool_page_def)
  qed (simp add: q_def pool_page_def)
  moreover have "indexed (pl_index p) (pool_mark i True (pl_cache p))"
    using p by (auto simp: pool_inv_def intro: indexed_keys [of _ "pl_cache p"])
  then have "pool_inv ps q"
    using p sized_same [OF same_entries_mark [OF p(2)], of ps] by (simp add: pool_inv_def q_def)
  ultimately show ?thesis by (auto simp: q_def)
qed

lemma pool_read_at_hit:
  assumes "pool_inv ps p" "0 < ps" "pool_page p (blob_id, off div ps) = Some d"
  shows "\<exists>p'. pool_read_at ps blob_id n off p = Ok (slice (off mod ps) (min n (ps - off mod ps)) d, p')
    \<and> pool_inv ps p' \<and> pool_page p' = pool_page p"
proof -
  obtain i where i: "pl_index p (blob_id, off div ps) = Some i" "d = ce_data (pl_cache p ! i)"
    using assms(3) by (auto simp: pool_page_Some)
  have "off mod ps < ps" using assms(2) by simp
  then have "off mod ps + min n (ps - off mod ps) \<le> ps" by linarith
  then show ?thesis using i pool_inv_index [OF assms(1) i(1)] pool_mark_ok [OF assms(1)] assms(2)
    by (simp add: pool_read_at_def offset_to_page_def)
qed

lemma pool_read_at_miss:
  "0 < ps \<Longrightarrow> pool_page p (blob_id, off div ps) = None \<Longrightarrow> pool_read_at ps blob_id n off p = Ok ([], p)"
  by (simp add: pool_read_at_def offset_to_page_def pool_page_None)

text \<open>Caching a page makes it readable under its key and changes no other page: at most one is dropped.\<close>

definition pool_put :: "nat \<times> nat \<Rightarrow> bytes \<Rightarrow> pool \<Rightarrow> pool \<Rightarrow> bool" where
  "pool_put k d p p' \<longleftrightarrow> pool_page p' k = Some d \<and> pool_page p' \<subseteq>\<^sub>m (pool_page p)(k \<mapsto> d)"

lemma pool_cache_hit:
  assumes p: "pool_inv ps p" "length page = ps" and i: "pl_index p (blob_id, n) = Some i"
  shows "\<exists>p'. pool_cache ps blob_id page n p = Ok p' \<and> pool_inv ps p' \<and> pool_put (blob_id, n) page p p'"
proof -
  note ii = pool_inv_index [OF p(1) i]
  let ?c = "(pl_cache p)[i := (pl_cache p ! i)\<lparr>ce_referenced := True, ce_data := page\<rparr>]"
  let ?p = "p\<lparr>pl_cache := ?c\<rparr>"
  have "pool_cache ps blob_id page n p = Ok ?p" using p i ii by (simp add: pool_cache_def)
  moreover have "indexed (pl_index p) ?c"
    using p ii by (auto simp: pool_inv_def nth_list_update intro: indexed_keys [of _ "pl_cache p"])
  then have "pool_inv ps ?p" using p by (simp add: pool_inv_def sized_update)
  moreover have "pool_page ?p = (pool_page p)((blob_id, n) \<mapsto> page)"
  proof
    fix k
    show "pool_page ?p k = ((pool_page p)((blob_id, n) \<mapsto> page)) k"
      using i ii p by (cases "pl_index p k") (auto simp: pool_page_def nth_list_update dest: pool_inv_index(2))
  qed
  ultimately show ?thesis by (simp add: pool_put_def)
qed

lemma pool_cache_fill:
  assumes p: "pool_inv ps p" "length page = ps" and i: "pl_index p (blob_id, n) = None" and c: "length (pl_cache p) < pl_capacity p"
  shows "\<exists>p'. pool_cache ps blob_id page n p = Ok p' \<and> pool_inv ps p' \<and> pool_put (blob_id, n) page p p'"
proof -
  let ?k = "(blob_id, n)"
  let ?p = "p\<lparr>pl_index := (pl_index p)(?k \<mapsto> length (pl_cache p)),
    pl_cache := pl_cache p @ [\<lparr>ce_key = ?k, ce_referenced = True, ce_data = page\<rparr>]\<rparr>"
  have "pool_cache ps blob_id page n p = Ok ?p" using p i c by (simp add: pool_cache_def Let_def)
  moreover have no: "\<not> (j < length (pl_cache p) \<and> ce_key (pl_cache p ! j) = ?k)" for j
    using p(1) i indexedD [of "pl_index p" "pl_cache p" ?k j] by (auto simp: pool_inv_def)
  have "indexed (pl_index ?p) (pl_cache ?p)"
    using p(1) no by (intro indexedI) (auto simp: pool_inv_def indexedD nth_append less_Suc_eq)
  then have "pool_inv ps ?p" using p c by (auto simp: pool_inv_def sized_append)
  moreover have "pool_page ?p = (pool_page p)(?k \<mapsto> page)"
  proof
    fix k
    show "pool_page ?p k = ((pool_page p)(?k \<mapsto> page)) k"
      using p by (cases "pl_index p k") (auto simp: pool_page_def nth_append dest: pool_inv_index(1))
  qed
  ultimately show ?thesis by (simp add: pool_put_def)
qed

lemma pool_cache_evict:
  assumes p: "pool_inv ps p" "length page = ps" and i: "pl_index p (blob_id, n) = None" and c: "\<not> length (pl_cache p) < pl_capacity p"
  shows "\<exists>p'. pool_cache ps blob_id page n p = Ok p' \<and> pool_inv ps p' \<and> pool_put (blob_id, n) page p p'"
proof -
  let ?k = "(blob_id, n)"
  have len: "0 < length (pl_cache p)" "length (pl_cache p) = pl_capacity p" "pl_clock p < length (pl_cache p)"
    using p(1) c by (auto simp: pool_inv_def)
  obtain cache clock where s: "clock_sweep (pl_cache p) (pl_clock p) = Ok (cache, clock)"
      "same_entries cache (pl_cache p)" "clock < length (pl_cache p)"
    using clock_sweep_ok [OF len(3)] by blast
  have l: "length cache = length (pl_cache p)"
    and keys: "\<And>j. j < length (pl_cache p) \<Longrightarrow> ce_key (cache ! j) = ce_key (pl_cache p ! j)"
    and datas: "\<And>j. j < length (pl_cache p) \<Longrightarrow> ce_data (cache ! j) = ce_data (pl_cache p ! j)"
    using s(2) by (auto simp: same_entries_def)
  let ?e = "ce_key (pl_cache p ! clock)"
  let ?p = "p\<lparr>pl_index := (pl_index p)(?e := None, ?k \<mapsto> clock),
    pl_cache := cache[clock := \<lparr>ce_key = ?k, ce_referenced = True, ce_data = page\<rparr>],
    pl_clock := (clock + 1) mod length cache\<rparr>"
  have e: "pl_index p ?e = Some clock" "length (ce_data (pl_cache p ! clock)) = ps" using p(1) s(3) by (auto simp: pool_inv_def indexedD sized_def)
  have ok: "pool_cache ps blob_id page n p = Ok ?p"
    using p i c s e keys [OF s(3)] datas [OF s(3)] by (simp add: pool_cache_def Let_def)
  have idx: "pl_index p k = Some j \<longleftrightarrow> j < length (pl_cache p) \<and> ce_key (pl_cache p ! j) = k" for k j
    using p(1) by (simp add: pool_inv_def indexedD)
  have "indexed (pl_index ?p) (pl_cache ?p)"
  proof (rule indexedI)
    fix k j
    show "(pl_index ?p k = Some j) = (j < length (pl_cache ?p) \<and> ce_key (pl_cache ?p ! j) = k)"
      using idx [of k j] idx [of ?k j] i e(1) l keys s(3) by (auto simp: nth_list_update)
  qed
  moreover have "sized ps (pl_cache ?p)"
    using p sized_same [OF s(2)] by (simp add: pool_inv_def sized_update)
  moreover have "(clock + 1) mod length cache < length cache" using l len(1) by (intro mod_less_divisor) simp
  ultimately have pinv: "pool_inv ps ?p" using p(1) l len by (simp add: pool_inv_def)
  have "pool_page ?p = (pool_page p)(?e := None, ?k \<mapsto> page)"
  proof
    fix k
    show "pool_page ?p k = ((pool_page p)(?e := None, ?k \<mapsto> page)) k"
    proof (cases "pl_index p k")
      case (Some j)
      then have "j < length (pl_cache p)" "ce_key (pl_cache p ! j) = k" using idx by auto
      then show ?thesis using Some s(3) l datas by (auto simp: pool_page_def nth_list_update)
    qed (auto simp: pool_page_def s(3) l)
  qed
  then have "pool_put ?k page p ?p" by (auto simp: pool_put_def map_le_def)
  then show ?thesis using ok pinv by blast
qed

lemma pool_cache_ok:
  assumes "pool_inv ps p" "length page = ps"
  shows "\<exists>p'. pool_cache ps blob_id page n p = Ok p' \<and> pool_inv ps p' \<and> pool_put (blob_id, n) page p p'"
  using pool_cache_hit [OF assms] pool_cache_fill [OF assms] pool_cache_evict [OF assms] by (cases "pl_index p (blob_id, n)") blast+


section \<open>Cached reads\<close>

text \<open>
  Up to the offset \<open>tip\<close> the pages of the blob \<open>blob_id\<close> that are cached hold the bytes \<open>c\<close>; pages from
  \<open>tip\<close> on may be stale. \<open>keeps_pages\<close> relates two states of a pool in which the pages of other blobs are
  unchanged or dropped.
\<close>

definition coherent :: "nat \<Rightarrow> nat \<Rightarrow> bytes \<Rightarrow> nat \<Rightarrow> pool \<Rightarrow> bool" where
  "coherent ps blob_id c tip p \<longleftrightarrow>
     (\<forall>n d. (n + 1) * ps \<le> tip \<longrightarrow> pool_page p (blob_id, n) = Some d \<longrightarrow> d = slice (n * ps) ps c)"

definition keeps_pages :: "nat \<Rightarrow> pool \<Rightarrow> pool \<Rightarrow> bool" where
  "keeps_pages blob_id p p' \<longleftrightarrow> (\<forall>i n. i \<noteq> blob_id \<longrightarrow> pool_page p' (i, n) = None \<or> pool_page p' (i, n) = pool_page p (i, n))"

lemma keeps_pages_refl [simp]: "keeps_pages i p p"
  by (simp add: keeps_pages_def)

lemma keeps_pages_trans: "keeps_pages i p q \<Longrightarrow> keeps_pages i q r \<Longrightarrow> keeps_pages i p r"
  unfolding keeps_pages_def by metis

lemma keeps_pages_same: "pool_page q = pool_page p \<Longrightarrow> keeps_pages i p q"
  by (simp add: keeps_pages_def)

lemma keeps_pages_coherent: "keeps_pages i p q \<Longrightarrow> j \<noteq> i \<Longrightarrow> coherent ps j c tip p \<Longrightarrow> coherent ps j c tip q"
  unfolding keeps_pages_def coherent_def by (metis option.distinct(1))

lemma coherent_mono: "coherent ps i c tip' p \<Longrightarrow> tip \<le> tip' \<Longrightarrow> coherent ps i c tip p"
  unfolding coherent_def by (meson le_trans)

lemma pool_put_other: "pool_put k d p q \<Longrightarrow> j \<noteq> k \<Longrightarrow> pool_page q j = None \<or> pool_page q j = pool_page p j"
proof (cases "pool_page q j")
  case (Some a)
  assume "pool_put k d p q" "j \<noteq> k"
  then have "pool_page q \<subseteq>\<^sub>m (pool_page p)(k \<mapsto> d)" by (simp add: pool_put_def)
  then have "((pool_page p)(k \<mapsto> d)) j = Some a" using Some by (metis domI map_le_def)
  then show ?thesis using \<open>j \<noteq> k\<close> Some by simp
qed simp

lemma pool_put_keeps_pages: "pool_put (i, n) d p q \<Longrightarrow> keeps_pages i p q"
  unfolding keeps_pages_def by (auto dest: pool_put_other [where j = "(_, _)"])

lemma pool_put_coherent:
  assumes "pool_put (i, n) (slice (n * ps) ps c) p q" "coherent ps i c tip p"
  shows "coherent ps i c (if tip = n * ps then tip + ps else tip) q"
  unfolding coherent_def
proof (intro allI impI)
  fix m d assume m: "(m + 1) * ps \<le> (if tip = n * ps then tip + ps else tip)" and d: "pool_page q (i, m) = Some d"
  show "d = slice (m * ps) ps c"
  proof (cases "m = n")
    case True
    then show ?thesis using assms(1) d by (simp add: pool_put_def)
  next
    case False
    then have "pool_page p (i, m) = Some d" using pool_put_other [OF assms(1), of "(i, m)"] d by simp
    moreover have "(m + 1) * ps \<le> tip"
    proof (cases "tip = n * ps \<and> 0 < ps")
      case True
      then have "(m + 1) * ps \<le> (n + 1) * ps" using m by simp
      then have "m + 1 \<le> n + 1" using True by (metis mult_le_cancel2)
      then have "m + 1 \<le> n" using False by simp
      then show ?thesis using True mult_le_mono1 [of "m + 1" n ps] by simp
    qed (use m in auto)
    ultimately show ?thesis using assms(2) by (auto simp: coherent_def)
  qed
qed

lemma slice_slice: "i + k \<le> n \<Longrightarrow> slice i k (slice off n xs) = slice (off + i) k xs"
  by (simp add: slice_def drop_take add.commute)

lemma page_fits:
  assumes "off < tip" "ps dvd tip" "0 < (ps :: nat)"
  shows "off div ps * ps + ps \<le> tip"
proof -
  obtain k where k: "tip = k * ps" using assms(2) by (metis dvd_def mult.commute)
  then have "off div ps < k" using assms by (simp add: less_mult_imp_div_less)
  then have "(off div ps + 1) * ps \<le> k * ps" by (intro mult_le_mono1) simp
  then show ?thesis using k by simp
qed

lemma page_slice:
  assumes "0 < (ps :: nat)"
  shows "slice (off mod ps) (min n (ps - off mod ps)) (slice (off div ps * ps) ps c) = slice off (min n (ps - off mod ps)) c"
proof -
  have "off mod ps < ps" using assms by simp
  then have "off mod ps + min n (ps - off mod ps) \<le> ps" by linarith
  then show ?thesis by (simp add: slice_slice)
qed

context blob_store
begin

text \<open>What a fetch of at most \<open>n\<close> bytes at \<open>off\<close> returns, up to the end of the page.\<close>

lemma page_fault_ok:
  assumes p: "pool_inv ps (pr_pool pr)" "pr_page_size pr = ps" "0 < ps" "coherent ps i c tip (pr_pool pr)"
    and w: "inv w" "content w h = Some c" "tip \<le> length c" "length c \<le> u64_max"
    and n: "0 < n" "off < tip" "ps dvd tip" and miss: "pool_page (pr_pool pr) (i, off div ps) = None"
  shows "\<exists>p'. read_after_page_fault ops h i n off pr w = Ok (slice off (min n (ps - off mod ps)) c, pr\<lparr>pr_pool := p'\<rparr>)
    \<and> pool_inv ps p' \<and> coherent ps i c tip p' \<and> keeps_pages i (pr_pool pr) p'"
proof -
  let ?pg = "off div ps"
  have fits: "?pg * ps + ps \<le> length c" using page_fits [OF n(2,3) p(3)] w(3) by linarith
  have rd: "st_read_at ops ps (?pg * ps) h w = Ok (slice (?pg * ps) ps c)"
    using w fits by (intro read_ok) auto
  obtain p' where c: "pool_cache ps i (slice (?pg * ps) ps c) ?pg (pr_pool pr) = Ok p'" "pool_inv ps p'"
      "pool_put (i, ?pg) (slice (?pg * ps) ps c) (pr_pool pr) p'"
    using pool_cache_ok [OF p(1), of "slice (?pg * ps) ps c"] fits by auto
  have "coherent ps i c tip p'" using pool_put_coherent [OF c(3) p(4)] by (auto intro: coherent_mono split: if_splits)
  moreover have "off mod ps + min n (ps - off mod ps) \<le> ps" using p(3) mod_less_divisor [of ps off] by linarith
  ultimately show ?thesis
    using p n w fits rd c pool_put_keeps_pages [OF c(3)] pool_read_at_miss [OF p(3) miss] page_slice [OF p(3), of off n c]
    by (auto simp: read_after_page_fault_def offset_to_page_def Let_def intro!: exI [of _ p'])
qed

lemma pool_read_step_ok:
  assumes p: "pool_inv ps (pr_pool pr)" "pr_page_size pr = ps" "0 < ps" "coherent ps i c tip (pr_pool pr)"
    and w: "inv w" "content w h = Some c" "tip \<le> length c" "length c \<le> u64_max"
    and n: "0 < n" "off + n \<le> tip" "ps dvd tip"
  shows "\<exists>k p'. pool_read_step ops h i n off pr w = Ok (slice off k c, pr\<lparr>pr_pool := p'\<rparr>) \<and> 0 < k \<and> k \<le> n
    \<and> pool_inv ps p' \<and> coherent ps i c tip p' \<and> keeps_pages i (pr_pool pr) p'"
proof -
  let ?k = "min n (ps - off mod ps)"
  have k: "0 < ?k" "?k \<le> n" "off < tip" using n p(3) by auto
  show ?thesis
  proof (cases "pool_page (pr_pool pr) (i, off div ps)")
    case None
    from page_fault_ok [OF p w n(1) k(3) n(3) None] obtain p' where
      "read_after_page_fault ops h i n off pr w = Ok (slice off ?k c, pr\<lparr>pr_pool := p'\<rparr>)"
      "pool_inv ps p'" "coherent ps i c tip p'" "keeps_pages i (pr_pool pr) p'" by blast
    moreover from this have "pool_read_step ops h i n off pr w = Ok (slice off ?k c, pr\<lparr>pr_pool := p'\<rparr>)"
      using pool_read_at_miss [OF p(3) None, of n] p(2) by (simp add: pool_read_step_def)
    ultimately show ?thesis using k by blast
  next
    case (Some d)
    have "(off div ps + 1) * ps \<le> tip" using page_fits [OF k(3) n(3) p(3)] by simp
    then have d: "d = slice (off div ps * ps) ps c" using p(4) Some by (simp add: coherent_def)
    obtain p' where p': "pool_read_at ps i n off (pr_pool pr) = Ok (slice (off mod ps) ?k d, p')" "pool_inv ps p'"
        "pool_page p' = pool_page (pr_pool pr)"
      using pool_read_at_hit [OF p(1,3) Some] by blast
    have e: "slice (off mod ps) ?k d = slice off ?k c" using page_slice [OF p(3)] d by simp
    have "slice off ?k c \<noteq> []" using k n w(3) by (auto simp: slice_def)
    then have "pool_read_step ops h i n off pr w = Ok (slice off ?k c, pr\<lparr>pr_pool := p'\<rparr>)"
      using p' e p(2) by (simp add: pool_read_step_def)
    moreover have "coherent ps i c tip p'" using p(4) p'(3) by (simp add: coherent_def)
    ultimately show ?thesis using p' k keeps_pages_same [OF p'(3)] by blast
  qed
qed

lemma pool_read_loop_ok:
  assumes "n \<le> fuel" "pool_inv ps (pr_pool pr)" "pr_page_size pr = ps" "0 < ps" "coherent ps i c tip (pr_pool pr)"
    and w: "inv w" "content w h = Some c" "tip \<le> length c" "length c \<le> u64_max"
    and n: "off + n \<le> tip" "ps dvd tip"
  shows "\<exists>p'. pool_read_loop fuel ops h i n off pr w = Ok (slice off n c, pr\<lparr>pr_pool := p'\<rparr>)
    \<and> pool_inv ps p' \<and> coherent ps i c tip p' \<and> keeps_pages i (pr_pool pr) p'"
  using assms(1-5) n
proof (induction fuel arbitrary: n off pr)
  case 0
  then show ?case by (auto simp: slice_def intro: exI [of _ "pr_pool pr"])
next
  case (Suc fuel)
  show ?case
  proof (cases n)
    case 0
    then show ?thesis using Suc.prems by (auto simp: slice_def intro: exI [of _ "pr_pool pr"])
  next
    case (Suc n')
    then have "0 < n" by simp
    from pool_read_step_ok [OF Suc.prems(2-5) w this Suc.prems(6,7)] obtain k p' where
      p': "pool_read_step ops h i n off pr w = Ok (slice off k c, pr\<lparr>pr_pool := p'\<rparr>)" "0 < k" "k \<le> n"
      "pool_inv ps p'" "coherent ps i c tip p'" "keeps_pages i (pr_pool pr) p'" by blast
    have len: "length (slice off k c) = k" using p'(3) Suc.prems(6) w(3) by simp
    have "n - k \<le> fuel" "off + k + (n - k) \<le> tip" using p'(2,3) Suc.prems(1,6) by simp_all
    then obtain p'' where "pool_read_loop fuel ops h i (n - k) (off + k) (pr\<lparr>pr_pool := p'\<rparr>) w
        = Ok (slice (off + k) (n - k) c, pr\<lparr>pr_pool := p''\<rparr>)" "pool_inv ps p''" "coherent ps i c tip p''" "keeps_pages i p' p''"
      using Suc.IH [of "n - k" "pr\<lparr>pr_pool := p'\<rparr>" "off + k"] p'(4,5) Suc.prems(3,4,7) by auto
    moreover have "slice off n c = slice off k c @ slice (off + k) (n - k) c"
      using slice_split [of off k "n - k" c] p'(3) by simp
    moreover have "off + k \<le> u64_max" using p'(3) Suc.prems(6) w(3,4) by linarith
    ultimately have "pool_read_loop (Suc fuel) ops h i n off pr w = Ok (slice off n c, pr\<lparr>pr_pool := p''\<rparr>)"
      using p'(1) len Suc by simp
    then show ?thesis using \<open>pool_inv ps p''\<close> \<open>coherent ps i c tip p''\<close> keeps_pages_trans [OF p'(6) \<open>keeps_pages i p' p''\<close>] by blast
  qed
qed

lemma pool_ref_read_ok:
  assumes "pool_inv ps (pr_pool pr)" "pr_page_size pr = ps" "0 < ps" "coherent ps i c tip (pr_pool pr)"
    and "inv w" "content w h = Some c" "tip \<le> length c" "length c \<le> u64_max" "off + n \<le> tip" "ps dvd tip"
  shows "\<exists>p'. pool_ref_read ops h i n off pr w = Ok (slice off n c, pr\<lparr>pr_pool := p'\<rparr>)
    \<and> pool_inv ps p' \<and> coherent ps i c tip p' \<and> keeps_pages i (pr_pool pr) p'"
  unfolding pool_ref_read_def using assms by (intro pool_read_loop_ok) auto

end

text \<open>Caching the bytes from \<open>page_num * ps\<close> on: every full page is cached, the rest is left over.\<close>

lemma pool_cache_pages_ok:
  assumes "pool_inv ps p" "0 < ps" "coherent ps i c (page_num * ps) p" "buf = drop (page_num * ps) c"
    and "page_num + length buf div ps \<le> u64_max"
  shows "\<exists>p'. pool_cache_pages ps i buf page_num p = Ok (length buf mod ps, p') \<and> pool_inv ps p'
    \<and> coherent ps i c ((page_num + length buf div ps) * ps) p' \<and> keeps_pages i p p'"
  using assms
proof (induction ps i buf page_num p rule: pool_cache_pages.induct)
  case (1 ps i buf n p)
  show ?case
  proof (cases "ps \<le> length buf")
    case True
    have t: "take ps buf = slice (n * ps) ps c" "length (take ps buf) = ps" using 1(5) True by (simp_all add: slice_def)
    obtain p' where p': "pool_cache ps i (take ps buf) n p = Ok p'" "pool_inv ps p'" "pool_put (i, n) (take ps buf) p p'"
      using pool_cache_ok [OF 1(2) t(2)] by blast
    have d: "length buf div ps = Suc ((length buf - ps) div ps)" "(length buf - ps) mod ps = length buf mod ps"
      using True 1(3) by (simp_all add: le_div_geq le_mod_geq)
    have "coherent ps i c ((n + 1) * ps) p'" using pool_put_coherent [of i n ps c p p' "n * ps"] p'(3) t(1) 1(4) by (simp add: add.commute)
    moreover have "drop ps buf = drop ((n + 1) * ps) c" using 1(5) by (simp add: add.commute)
    moreover have "n + 1 + length (drop ps buf) div ps \<le> u64_max" "n + 1 \<le> u64_max" using 1(6) d by simp_all
    ultimately obtain p'' where "pool_cache_pages ps i (drop ps buf) (n + 1) p' = Ok (length (drop ps buf) mod ps, p'')"
        "pool_inv ps p''" "coherent ps i c ((n + 1 + length (drop ps buf) div ps) * ps) p''" "keeps_pages i p' p''"
      using "1.IH" [of p'] True 1(3) p'(2) by auto
    then show ?thesis
      using True 1(3) p' d \<open>n + 1 \<le> u64_max\<close> pool_put_keeps_pages [OF p'(3)] keeps_pages_trans
      by (subst pool_cache_pages.simps) auto
  next
    case False
    then show ?thesis using 1 by (subst pool_cache_pages.simps) auto
  qed
qed

lemma pool_ref_cache_ok:
  assumes "pool_inv ps (pr_pool pr)" "pr_page_size pr = ps" "0 < ps" "ps dvd off" "off \<le> length c" "length c \<le> u64_max"
    and "coherent ps i c off (pr_pool pr)"
  shows "\<exists>p'. pool_ref_cache i (drop off c) off pr = Ok (length c mod ps, pr\<lparr>pr_pool := p'\<rparr>) \<and> pool_inv ps p'
    \<and> coherent ps i c (length c - length c mod ps) p' \<and> keeps_pages i (pr_pool pr) p'"
proof -
  obtain k where k: "off = k * ps" using assms(4) by (metis dvd_def mult.commute)
  have m: "(length c - off) mod ps = length c mod ps" "(k + (length c - off) div ps) * ps = length c - length c mod ps"
  proof -
    have e: "length c = (length c - off) + k * ps" using k assms(5) by simp
    show "(length c - off) mod ps = length c mod ps" by (subst (2) e) simp
    have "length c div ps = (length c - off) div ps + k" using assms(3) by (subst e) simp
    then show "(k + (length c - off) div ps) * ps = length c - length c mod ps"
      by (metis add.commute minus_mod_eq_div_mult)
  qed
  have "k + length (drop off c) div ps = length c div ps"
    using m(2) assms(3) by (metis length_drop minus_mod_eq_div_mult mult_right_cancel neq0_conv)
  also have "\<dots> \<le> u64_max" using assms(6) div_le_dividend le_trans by blast
  finally have "k + length (drop off c) div ps \<le> u64_max" .
  then obtain p' where "pool_cache_pages ps i (drop off c) k (pr_pool pr) = Ok (length (drop off c) mod ps, p')" "pool_inv ps p'"
      "coherent ps i c ((k + length (drop off c) div ps) * ps) p'" "keeps_pages i (pr_pool pr) p'"
    using pool_cache_pages_ok [of ps "pr_pool pr" i c k "drop off c"] assms k by auto
  then show ?thesis using assms(2,3) k m by (auto simp: pool_ref_cache_def offset_to_page_def intro!: exI [of _ p'])
qed

section \<open>Property\<close>

lemma card_pages:
  assumes "pool_inv ps p"
  shows "card (dom (pool_page p)) = length (pl_cache p)" "finite (dom (pool_page p))"
proof -
  have x: "indexed (pl_index p) (pl_cache p)" using assms by (simp add: pool_inv_def)
  have d: "dom (pool_page p) = (\<lambda>i. ce_key (pl_cache p ! i)) ` {..<length (pl_cache p)}"
  proof (rule set_eqI)
    fix k
    have "k \<in> dom (pool_page p) \<longleftrightarrow> (\<exists>i. pl_index p k = Some i)" by (auto simp: pool_page_def dom_def)
    also have "\<dots> \<longleftrightarrow> (\<exists>i < length (pl_cache p). ce_key (pl_cache p ! i) = k)" using x unfolding indexed_def by blast
    finally show "k \<in> dom (pool_page p) \<longleftrightarrow> k \<in> (\<lambda>i. ce_key (pl_cache p ! i)) ` {..<length (pl_cache p)}" by auto
  qed
  have "inj_on (\<lambda>i. ce_key (pl_cache p ! i)) {..<length (pl_cache p)}"
    using x unfolding indexed_def inj_on_def by (metis lessThan_iff option.inject)
  then show "card (dom (pool_page p)) = length (pl_cache p)" unfolding d by (simp add: card_image)
  show "finite (dom (pool_page p))" unfolding d by simp
qed

lemma pool_cache_grows:
  assumes p: "pool_inv ps p" and c: "pool_cache ps blob_id page n p = Ok p'"
  shows "length (pl_cache p) \<le> length (pl_cache p')"
proof (cases "pl_index p (blob_id, n) = None \<and> \<not> length (pl_cache p) < pl_capacity p")
  case True
  then have "pl_clock p < length (pl_cache p)" using p by (auto simp: pool_inv_def)
  from clock_sweep_ok [OF this] obtain cache' clock' where "clock_sweep (pl_cache p) (pl_clock p) = Ok (cache', clock')" "length cache' = length (pl_cache p)"
    by (auto simp: same_entries_def)
  then show ?thesis using c True by (auto simp: pool_cache_def Let_def split: if_splits option.splits)
next
  case False
  then show ?thesis using c by (auto simp: pool_cache_def Let_def split: if_splits option.splits)
qed

text \<open>
  C18. Putting a page into the page cache of a pool with the invariant ends (the clock hand always finds a
  page to replace) without a panic and keeps the invariant, so the cache never exceeds its capacity;
  afterwards the page is cached with its new bytes, every other cached page is one that was cached
  before with the same bytes, and at most one page has been evicted.
\<close>

theorem page_cache_replaces_one:
  assumes "pool_inv page_size p" "length page = page_size"
  shows "\<exists>p'. pool_cache page_size blob_id page page_num p = Ok p' \<and> pool_inv page_size p'
    \<and> pool_page p' (blob_id, page_num) = Some page \<and> pool_page p' \<subseteq>\<^sub>m (pool_page p)((blob_id, page_num) \<mapsto> page)
    \<and> card (dom (pool_page p) - dom (pool_page p')) \<le> 1"
proof -
  obtain p' where p': "pool_cache page_size blob_id page page_num p = Ok p'" "pool_inv page_size p'" "pool_put (blob_id, page_num) page p p'"
    using pool_cache_ok [OF assms] by blast
  let ?k = "(blob_id, page_num)" and ?D = "dom (pool_page p)" and ?E = "dom (pool_page p')"
  have put: "pool_page p' ?k = Some page" "pool_page p' \<subseteq>\<^sub>m (pool_page p)(?k \<mapsto> page)" using p'(3) by (simp_all add: pool_put_def)
  have sub: "?E - {?k} \<subseteq> ?D" using map_le_implies_dom_le [OF put(2)] by auto
  have "card ?D \<le> card ?E" using pool_cache_grows [OF assms(1) p'(1)] card_pages(1) [OF assms(1)] card_pages(1) [OF p'(2)] by simp
  moreover have "card (?E - {?k}) = card ?E - 1" using put(1) by (intro card_Diff_singleton) auto
  ultimately have "card ?D - card (?E - {?k}) \<le> 1" by linarith
  moreover have "card (?D - ?E) \<le> card (?D - (?E - {?k}))" using card_pages(2) [OF assms(1)] by (intro card_mono) auto
  moreover have "card (?D - (?E - {?k})) = card ?D - card (?E - {?k})" using sub card_pages(2) [OF p'(2)] by (intro card_Diff_subset) auto
  ultimately show ?thesis using p'(1,2) put by (intro exI [of _ p']) simp
qed

theorem page_cache_replaces_one_witness:
  "\<exists>p'. pool_cache 2 7 [3, 4] 0 \<lparr>pl_index = [(1, 5) \<mapsto> 0], pl_cache = [\<lparr>ce_key = (1, 5), ce_referenced = True, ce_data = [8, 9]\<rparr>], pl_clock = 0, pl_capacity = 1\<rparr> = Ok p'
    \<and> pool_page p' (7, 0) = Some [3, 4]"
proof -
  let ?p = "\<lparr>pl_index = [(1, 5) \<mapsto> 0], pl_cache = [\<lparr>ce_key = (1, 5), ce_referenced = True, ce_data = [8, 9]\<rparr>], pl_clock = 0, pl_capacity = 1\<rparr>"
  have "pool_inv 2 ?p" by (auto simp: pool_inv_def indexed_def sized_def)
  then show ?thesis using page_cache_replaces_one [of 2 ?p "[3, 4]" 7 0] by auto
qed

end
