(* ===== verification/Blob_Append.thy ===== *)
theory Blob_Append
  imports Blob_Pool
begin

text \<open>
  The append-only blob (\<open>runtime/src/utils/buffer/append.rs\<close>): a tip buffer that starts at a page boundary
  in front of a blob, with the pages below it cached in the pool. Blob, buffer and cached pages
  together stand for one byte array; \<open>append_inv c l\<close> says so of the blob's content \<open>c\<close> and the array \<open>l\<close>.
\<close>

section \<open>Operations\<close>

record 'h append_blob =
  ab_blob :: 'h
  ab_id :: nat
  ab_buffer :: tip_buffer
  ab_size :: nat

text \<open>
  The part of \<open>new\<close> and of \<open>resize\<close> that reads the last, partial page into an empty buffer, which starts
  at the last page boundary.
\<close>

definition append_leftover :: "('w, 'h) store_ops \<Rightarrow> 'h \<Rightarrow> nat \<Rightarrow> nat \<Rightarrow> tip_buffer \<Rightarrow> 'w \<Rightarrow> (tip_buffer, rt_error) result" where
  "append_leftover ops blob leftover_size aligned_size buffer w =
     (if leftover_size \<noteq> 0 then
        and_then (st_read_at ops leftover_size aligned_size blob w) (\<lambda>buf.
          let (over, buffer) = tip_append buf buffer in if over then Panic else Ok buffer)
      else Ok buffer)"

definition append_new :: "('w, 'h) store_ops \<Rightarrow> 'h \<Rightarrow> nat \<Rightarrow> nat \<Rightarrow> pool_ref \<Rightarrow> 'w \<Rightarrow> ('h append_blob \<times> pool_ref, rt_error) result" where
  "append_new ops blob sz buffer_size pr w =
     and_then (u64_mul (pr_page_size pr) 2) (\<lambda>floor.
       if pr_page_size pr = 0 then Panic
       else let buffer_size = max buffer_size floor;
                leftover_size = sz mod pr_page_size pr;
                page_aligned_size = sz - leftover_size
         in and_then (append_leftover ops blob leftover_size page_aligned_size (tip_new page_aligned_size buffer_size) w) (\<lambda>buffer.
           let (next, pr) = pool_next_id pr
           in Ok (\<lparr>ab_blob = blob, ab_id = next, ab_buffer = buffer, ab_size = sz\<rparr>, pr)))"

text \<open>\<open>flush\<close>: keep the bytes after the last full page buffered, and write what the blob does not hold yet.\<close>

definition append_rebuffer :: "bytes \<Rightarrow> nat \<Rightarrow> tip_buffer \<Rightarrow> (tip_buffer, rt_error) result" where
  "append_rebuffer buf remaining buffer =
     (if remaining \<noteq> 0
      then and_then (u64_sub (tb_offset buffer) remaining) (\<lambda>offset.
        Ok (buffer\<lparr>tb_offset := offset, tb_data := tb_data buffer @ drop (length buf - remaining) buf\<rparr>))
      else Ok buffer)"

definition append_write_new :: "('w, 'h) store_ops \<Rightarrow> bytes \<Rightarrow> nat \<Rightarrow> 'h append_blob \<Rightarrow> 'w \<Rightarrow> ('h append_blob \<times> 'w, rt_error) result" where
  "append_write_new ops buf offset ab w =
     (let new_data_start = ab_size ab - offset in
      if new_data_start \<ge> length buf then Ok (ab, w)
      else let buf = drop new_data_start buf in
        and_then (st_write_at ops buf (ab_size ab) (ab_blob ab) w) (\<lambda>w.
        and_then (u64_add (ab_size ab) (length buf)) (\<lambda>blob_size. Ok (ab\<lparr>ab_size := blob_size\<rparr>, w))))"

definition append_flush :: "('w, 'h) store_ops \<Rightarrow> 'h append_blob \<Rightarrow> pool_ref \<Rightarrow> 'w \<Rightarrow> ('h append_blob \<times> pool_ref \<times> 'w, rt_error) result" where
  "append_flush ops ab pr w =
     and_then (tip_take (ab_buffer ab)) (\<lambda>(taken, buffer).
       case taken of
         None \<Rightarrow> Ok (ab, pr, w)
       | Some (buf, offset) \<Rightarrow>
           and_then (pool_ref_cache (ab_id ab) buf offset pr) (\<lambda>(remaining, pr).
           and_then (append_rebuffer buf remaining buffer) (\<lambda>buffer.
           and_then (append_write_new ops buf offset (ab\<lparr>ab_buffer := buffer\<rparr>) w) (\<lambda>(ab, w).
             Ok (ab, pr, w)))))"

definition append_append :: "('w, 'h) store_ops \<Rightarrow> bytes \<Rightarrow> 'h append_blob \<Rightarrow> pool_ref \<Rightarrow> 'w \<Rightarrow> ('h append_blob \<times> pool_ref \<times> 'w, rt_error) result" where
  "append_append ops buf ab pr w =
     and_then (tip_size (ab_buffer ab)) (\<lambda>size.
     and_then (offset_add size (length buf)) (\<lambda>_.
       let (over, buffer) = tip_append buf (ab_buffer ab);
           ab = ab\<lparr>ab_buffer := buffer\<rparr>
       in if over then append_flush ops ab pr w else Ok (ab, pr, w)))"

definition append_size :: "'h append_blob \<Rightarrow> (nat, rt_error) result" where
  "append_size ab = tip_size (ab_buffer ab)"

definition append_read_at :: "('w, 'h) store_ops \<Rightarrow> nat \<Rightarrow> nat \<Rightarrow> 'h append_blob \<Rightarrow> pool_ref \<Rightarrow> 'w \<Rightarrow> (bytes \<times> pool_ref, rt_error) result" where
  "append_read_at ops n offset ab pr w =
     and_then (offset_add offset n) (\<lambda>end_offset.
     and_then (tip_size (ab_buffer ab)) (\<lambda>size.
       if end_offset > size then Err BlobInsufficientLength
       else and_then (tip_extract n offset (ab_buffer ab)) (\<lambda>(remaining, part).
         if remaining = 0 then Ok (part, pr)
         else and_then (pool_ref_read ops (ab_blob ab) (ab_id ab) remaining offset pr w) (\<lambda>(blob_part, pr).
           Ok (blob_part @ part, pr)))))"

definition append_write_at :: "bytes \<Rightarrow> nat \<Rightarrow> 'h append_blob \<Rightarrow> (unit, rt_error) result" where
  "append_write_at buf offset ab = Panic"

definition append_sync :: "('w, 'h) store_ops \<Rightarrow> 'h append_blob \<Rightarrow> pool_ref \<Rightarrow> 'w \<Rightarrow> ('h append_blob \<times> pool_ref \<times> 'w, rt_error) result" where
  "append_sync ops ab pr w =
     and_then (append_flush ops ab pr w) (\<lambda>(ab, pr, w).
     and_then (st_sync ops (ab_blob ab) w) (\<lambda>w. Ok (ab, pr, w)))"

definition append_resize :: "('w, 'h) store_ops \<Rightarrow> nat \<Rightarrow> 'h append_blob \<Rightarrow> pool_ref \<Rightarrow> 'w \<Rightarrow> ('h append_blob \<times> pool_ref \<times> 'w, rt_error) result" where
  "append_resize ops sz ab pr w =
     and_then (append_flush ops ab pr w) (\<lambda>(ab, pr, w).
     and_then (st_resize ops sz (ab_blob ab) w) (\<lambda>w.
       if pr_page_size pr = 0 then Panic
       else let leftover_size = sz mod pr_page_size pr;
                buffer = (ab_buffer ab)\<lparr>tb_offset := sz - leftover_size, tb_data := []\<rparr>
         in and_then (append_leftover ops (ab_blob ab) leftover_size (sz - leftover_size) buffer w) (\<lambda>buffer.
           Ok (ab\<lparr>ab_size := sz, ab_buffer := buffer\<rparr>, pr, w))))"

section \<open>What an append-only blob stands for\<close>

definition append_inv :: "bytes \<Rightarrow> bytes \<Rightarrow> 'h append_blob \<Rightarrow> pool_ref \<Rightarrow> bool" where
  "append_inv c l ab pr \<longleftrightarrow> 0 < pr_page_size pr \<and> pool_inv (pr_page_size pr) (pr_pool pr)
     \<and> pr_page_size pr dvd tb_offset (ab_buffer ab) \<and> 2 * pr_page_size pr \<le> tb_capacity (ab_buffer ab)
     \<and> ab_size ab = length c \<and> tip_inv c (ab_buffer ab) \<and> tip_view c (ab_buffer ab) = l \<and> take (length c) l = c
     \<and> coherent (pr_page_size pr) (ab_id ab) l (tb_offset (ab_buffer ab)) (pr_pool pr)"

definition same_pool :: "nat \<Rightarrow> pool_ref \<Rightarrow> pool_ref \<Rightarrow> bool" where
  "same_pool i pr pr' \<longleftrightarrow> pr_page_size pr' = pr_page_size pr \<and> pr_next_id pr' = pr_next_id pr
     \<and> pool_inv (pr_page_size pr') (pr_pool pr') \<and> keeps_pages i (pr_pool pr) (pr_pool pr')"

lemma append_invD:
  assumes "append_inv c l ab pr"
  shows "length l = tb_offset (ab_buffer ab) + length (tb_data (ab_buffer ab))" "length c \<le> length l"
    "tb_data (ab_buffer ab) = drop (tb_offset (ab_buffer ab)) l" "tb_offset (ab_buffer ab) \<le> length c" "ab_size ab = length c"
    "take (length c) l = c" "tb_offset (ab_buffer ab) \<le> length l"
proof -
  show len: "length l = tb_offset (ab_buffer ab) + length (tb_data (ab_buffer ab))" using assms by (auto simp: append_inv_def)
  show le: "length c \<le> length l" using assms by (auto simp: append_inv_def tip_inv_def)
  show "tb_data (ab_buffer ab) = drop (tb_offset (ab_buffer ab)) l" using assms by (auto simp: append_inv_def tip_view_def tip_inv_def)
  show "tb_offset (ab_buffer ab) \<le> length c" "ab_size ab = length c" using assms by (simp_all add: append_inv_def tip_inv_def)
  show "take (length c) l = c" using assms by (simp add: append_inv_def)
  show "tb_offset (ab_buffer ab) \<le> length l" using len by simp
qed

lemma append_inv_other:
  assumes "append_inv c l ab pr" "same_pool i pr pr'" "ab_id ab \<noteq> i"
  shows "append_inv c l ab pr'"
  using assms keeps_pages_coherent [of i "pr_pool pr" "pr_pool pr'" "ab_id ab"] by (auto simp: append_inv_def same_pool_def)

text \<open>A blob that holds the whole array, behind a buffer that starts at its last page boundary.\<close>

lemma append_inv_settled:
  assumes "0 < pr_page_size pr" "pool_inv (pr_page_size pr) (pr_pool pr)"
    and "tb_offset (ab_buffer ab) = length l - length l mod pr_page_size pr" "tb_data (ab_buffer ab) = drop (tb_offset (ab_buffer ab)) l"
    and "2 * pr_page_size pr \<le> tb_capacity (ab_buffer ab)" "ab_size ab = length l"
    and "coherent (pr_page_size pr) (ab_id ab) l (tb_offset (ab_buffer ab)) (pr_pool pr)"
  shows "append_inv l l ab pr"
  using assms by (simp add: append_inv_def tip_inv_def tip_view_def dvd_minus_mod)

lemma aligned_le: "(ps :: nat) dvd o' \<Longrightarrow> o' \<le> n \<Longrightarrow> o' \<le> n - n mod ps"
  by (metis div_le_mono dvd_div_mult_self minus_mod_eq_div_mult mult_le_mono1)

lemma append_rebuffer_ok:
  assumes "o' \<le> length l" "o' \<le> length l - r" "r \<le> length l"
  shows "append_rebuffer (drop o' l) r (b\<lparr>tb_data := [], tb_offset := length l\<rparr>) =
    Ok (b\<lparr>tb_data := drop (length l - r) l, tb_offset := length l - r\<rparr>)"
proof -
  have "drop (length (drop o' l) - r) (drop o' l) = drop (length l - r) l" using assms by (simp add: add.commute)
  then show ?thesis using assms(3) by (simp add: append_rebuffer_def)
qed

lemma coherent_take:
  assumes "coherent ps i l tip p" "tip \<le> n"
  shows "coherent ps i (take n l) tip p"
proof -
  have "slice (m * ps) ps (take n l) = slice (m * ps) ps l" if "(m + 1) * ps \<le> tip" for m
    using that assms(2) by (simp add: slice_def take_drop min_def)
  then show ?thesis using assms(1) by (metis coherent_def)
qed

lemma coherent_append:
  assumes "coherent ps i l tip p" "tip \<le> length l"
  shows "coherent ps i (l @ d) tip p"
proof -
  have "slice (m * ps) ps (l @ d) = slice (m * ps) ps l" if "(m + 1) * ps \<le> tip" for m
    using that assms(2) by (intro slice_append_left) simp
  then show ?thesis using assms(1) by (metis coherent_def)
qed

text \<open>The ids a pool has yet to hand out own no cached page.\<close>

definition fresh_ids :: "pool_ref \<Rightarrow> bool" where
  "fresh_ids pr \<longleftrightarrow> (\<forall>i n. pr_next_id pr \<le> i \<longrightarrow> pool_page (pr_pool pr) (i, n) = None)"

lemma same_pool_fresh: "same_pool i pr pr' \<Longrightarrow> i < pr_next_id pr \<Longrightarrow> fresh_ids pr \<Longrightarrow> fresh_ids pr'"
  unfolding same_pool_def keeps_pages_def fresh_ids_def by (metis leD)

lemma same_pool_trans: "same_pool i p q \<Longrightarrow> same_pool i q r \<Longrightarrow> same_pool i p r"
  using keeps_pages_trans by (auto simp: same_pool_def)

context blob_store
begin

text \<open>
  What an operation leaves behind: the array becomes \<open>l\<close>, the blob's content \<open>c\<close>; other blobs and the
  pages cached for them are not affected.
\<close>

definition appends :: "bytes \<Rightarrow> bytes \<Rightarrow> 'h append_blob \<Rightarrow> pool_ref \<Rightarrow> 'w \<Rightarrow> ('h append_blob \<times> pool_ref \<times> 'w, rt_error) result \<Rightarrow> bool" where
  "appends c l ab pr w res \<longleftrightarrow> (\<exists>ab' pr' w'. res = Ok (ab', pr', w') \<and> ab_blob ab' = ab_blob ab \<and> ab_id ab' = ab_id ab
     \<and> same_pool (ab_id ab) pr pr' \<and> append_inv c l ab' pr'
     \<and> inv w' \<and> content w' = (content w)(ab_blob ab \<mapsto> c) \<and> named w' = named w \<and> files w' = files w)"

lemma append_write_new_ok:
  assumes w: "inv w" "content w (ab_blob ab) = Some c" "ab_size ab = length c"
    and l: "off \<le> length c" "length c \<le> length l" "take (length c) l = c" "length l \<le> u64_max"
  shows "\<exists>w'. append_write_new ops (drop off l) off ab w = Ok (ab\<lparr>ab_size := length l\<rparr>, w') \<and> inv w'
    \<and> content w' = (content w)(ab_blob ab \<mapsto> l) \<and> named w' = named w \<and> files w' = files w"
proof (cases "length c = length l")
  case True
  then have "c = l" using l(3) by simp
  moreover have "ab\<lparr>ab_size := length c\<rparr> = ab" using w(3) by simp
  ultimately show ?thesis using True w l(1) by (simp add: append_write_new_def fun_upd_idem)
next
  case False
  have bnd: "length c + length (drop (length c) l) \<le> u64_max" using l by simp
  obtain w' where w': "st_write_at ops (drop (length c) l) (length c) (ab_blob ab) w = Ok w'"
      "content w' = (content w)(ab_blob ab \<mapsto> l)" "named w' = named w" "files w' = files w" "inv w'"
    using write_ok [OF w(1,2) bnd] append_take_drop_id [of "length c" l] l(3) by (auto simp: overwrite_end)
  moreover have "\<not> length l - off \<le> length c - off" using False l(1,2) by linarith
  ultimately show ?thesis using w(3) l bnd by (simp add: append_write_new_def Let_def)
qed

lemma append_flush_tip:
  assumes w: "inv w" "content w (ab_blob ab) = Some c" and a: "append_inv c l ab pr" and m: "length l \<le> u64_max"
  shows "\<exists>ab' pr' w'. append_flush ops ab pr w = Ok (ab', pr', w') \<and> tb_offset (ab_buffer ab') = length l - length l mod pr_page_size pr
    \<and> appends l l ab pr w (Ok (ab', pr', w'))"
proof (cases "tb_data (ab_buffer ab) = []")
  case True
  then have "length c = length l" using append_invD(1,2,4) [OF a] by simp
  then have "c = l" using append_invD(6) [OF a] by simp
  moreover have "length l mod pr_page_size pr = 0" using True a append_invD(1) [OF a] by (simp add: append_inv_def)
  ultimately show ?thesis using True w a append_invD(1) [OF a]
    by (simp add: appends_def append_flush_def tip_take_def tip_is_empty_def same_pool_def append_inv_def fun_upd_idem)
next
  case False
  let ?b = "ab_buffer ab" and ?ps = "pr_page_size pr"
  let ?o = "tb_offset ?b" and ?t = "length l - length l mod ?ps"
  note d = append_invD [OF a]
  have ps: "0 < ?ps" "pool_inv ?ps (pr_pool pr)" "?ps dvd ?o" "coherent ?ps (ab_id ab) l ?o (pr_pool pr)" "2 * ?ps \<le> tb_capacity ?b"
    using a by (simp_all add: append_inv_def)
  obtain p' where p': "pool_ref_cache (ab_id ab) (tb_data ?b) ?o pr = Ok (length l mod ?ps, pr\<lparr>pr_pool := p'\<rparr>)" "pool_inv ?ps p'"
      "coherent ?ps (ab_id ab) l ?t p'" "keeps_pages (ab_id ab) (pr_pool pr) p'"
    using pool_ref_cache_ok [OF ps(2) refl ps(1,3) d(7) m ps(4)] d(3) by auto
  let ?b' = "?b\<lparr>tb_data := drop ?t l, tb_offset := ?t\<rparr>" and ?pr = "pr\<lparr>pr_pool := p'\<rparr>"
  have re: "append_rebuffer (tb_data ?b) (length l mod ?ps) (?b\<lparr>tb_data := [], tb_offset := length l\<rparr>) = Ok ?b'"
    by (subst d(3), rule append_rebuffer_ok) (use d(7) aligned_le [OF ps(3) d(7)] in auto)
  obtain w' where w': "append_write_new ops (tb_data ?b) ?o (ab\<lparr>ab_buffer := ?b'\<rparr>) w = Ok (ab\<lparr>ab_buffer := ?b', ab_size := length l\<rparr>, w')"
      "inv w'" "content w' = (content w)(ab_blob ab \<mapsto> l)" "named w' = named w" "files w' = files w"
    using append_write_new_ok [of w "ab\<lparr>ab_buffer := ?b'\<rparr>" c ?o l, OF w(1) _ _ d(4,2,6) m] w(2) d(5)
    unfolding d(3) [symmetric] by auto
  have "append_flush ops ab pr w = Ok (ab\<lparr>ab_buffer := ?b', ab_size := length l\<rparr>, ?pr, w')"
    using False d(1) m p'(1) re w'(1) by (simp add: append_flush_def tip_take_def tip_is_empty_def)
  moreover have "append_inv l l (ab\<lparr>ab_buffer := ?b', ab_size := length l\<rparr>) ?pr" using ps p' by (intro append_inv_settled) simp_all
  moreover have "same_pool (ab_id ab) pr ?pr" using p' by (simp add: same_pool_def)
  ultimately show ?thesis using w' by (simp add: appends_def)
qed

lemma append_flush_ok:
  assumes "inv w" "content w (ab_blob ab) = Some c" "append_inv c l ab pr" "length l \<le> u64_max"
  shows "appends l l ab pr w (append_flush ops ab pr w)"
  using append_flush_tip [OF assms] by auto

lemma append_append_ok:
  assumes w: "inv w" "content w (ab_blob ab) = Some c" and a: "append_inv c l ab pr" and m: "length l + length buf \<le> u64_max"
  shows "\<exists>c'. appends c' (l @ buf) ab pr w (append_append ops buf ab pr w)"
proof -
  let ?ab = "ab\<lparr>ab_buffer := (ab_buffer ab)\<lparr>tb_data := tb_data (ab_buffer ab) @ buf\<rparr>\<rparr>"
  note d = append_invD [OF a]
  have "coherent (pr_page_size pr) (ab_id ab) (l @ buf) (tb_offset (ab_buffer ab)) (pr_pool pr)"
    using a d(7) by (auto simp: append_inv_def intro: coherent_append)
  then have a': "append_inv c (l @ buf) ?ab pr"
    using a d(2,6) by (auto simp: append_inv_def tip_inv_def tip_view_def)
  have sz: "and_then (tip_size (ab_buffer ab)) (\<lambda>size. and_then (offset_add size (length buf)) f) = f (length l + length buf)" for f
      :: "nat \<Rightarrow> ('h append_blob \<times> pool_ref \<times> 'w, rt_error) result"
    using d(1) m by (simp add: tip_size_def offset_add_def)
  show ?thesis
  proof (cases "length (tb_data (ab_buffer ab) @ buf) > tb_capacity (ab_buffer ab)")
    case True
    then have "append_append ops buf ab pr w = append_flush ops ?ab pr w" by (simp add: append_append_def sz tip_append_def)
    moreover have "appends (l @ buf) (l @ buf) ?ab pr w (append_flush ops ?ab pr w)"
      using append_flush_ok [of w ?ab, OF w(1) _ a'] w(2) m by simp
    ultimately show ?thesis by (auto simp: appends_def)
  next
    case False
    then have "append_append ops buf ab pr w = Ok (?ab, pr, w)" by (simp add: append_append_def sz tip_append_def)
    then show ?thesis using a' w a by (auto simp: appends_def same_pool_def append_inv_def fun_upd_idem intro!: exI [of _ c])
  qed
qed

lemma append_read_at_ok:
  assumes w: "inv w" "content w (ab_blob ab) = Some c" and a: "append_inv c l ab pr"
    and n: "off + n \<le> length l" and m: "length l \<le> u64_max"
  shows "\<exists>pr'. append_read_at ops n off ab pr w = Ok (slice off n l, pr') \<and> same_pool (ab_id ab) pr pr' \<and> append_inv c l ab pr'"
proof -
  let ?b = "ab_buffer ab" and ?ps = "pr_page_size pr"
  let ?o = "tb_offset ?b"
  note d = append_invD [OF a]
  have ps: "0 < ?ps" "pool_inv ?ps (pr_pool pr)" "?ps dvd ?o" "coherent ?ps (ab_id ab) l ?o (pr_pool pr)" "tip_inv c ?b" "tip_view c ?b = l"
    using a by (simp_all add: append_inv_def)
  obtain r part where e: "tip_extract n off ?b = Ok (r, part)" "r = (if off < ?o then min n (?o - off) else 0)" "slice off n l = slice off r c @ part"
    using tip_extract_ok [OF ps(5), of off n] n m ps(6) by auto
  have sz: "tip_size ?b = Ok (length l)" using d(1) m by (simp add: tip_size_def)
  show ?thesis
  proof (cases "r = 0")
    case True
    then have "append_read_at ops n off ab pr w = Ok (slice off n l, pr)"
      using e n m sz by (simp add: append_read_at_def offset_add_def slice_def)
    then show ?thesis using a ps by (auto simp: same_pool_def)
  next
    case False
    have "coherent ?ps (ab_id ab) c ?o (pr_pool pr)" using coherent_take [OF ps(4) d(4)] d(6) by simp
    moreover have "off + r \<le> ?o" using e(2) False by (auto split: if_splits)
    ultimately obtain p' where p': "pool_ref_read ops (ab_blob ab) (ab_id ab) r off pr w = Ok (slice off r c, pr\<lparr>pr_pool := p'\<rparr>)"
        "pool_inv ?ps p'" "coherent ?ps (ab_id ab) c ?o p'" "keeps_pages (ab_id ab) (pr_pool pr) p'"
      using pool_ref_read_ok [OF ps(2) refl ps(1) _ w d(4)] d(2) m ps(3) le_trans by blast
    have "coherent ?ps (ab_id ab) l ?o p'"
      using coherent_append [OF p'(3) d(4), of "drop (length c) l"] append_take_drop_id [of "length c" l] d(6) by simp
    then have "append_inv c l ab (pr\<lparr>pr_pool := p'\<rparr>)" using a p'(2) by (simp add: append_inv_def)
    moreover have "append_read_at ops n off ab pr w = Ok (slice off n l, pr\<lparr>pr_pool := p'\<rparr>)"
      using e False p'(1) n m sz by (simp add: append_read_at_def offset_add_def)
    ultimately show ?thesis using p' by (auto simp: same_pool_def)
  qed
qed

lemma append_read_at_short:
  assumes "append_inv c l ab pr" "length l < off + n" "off + n \<le> u64_max"
  shows "append_read_at ops n off ab pr w = Err BlobInsufficientLength"
  using assms append_invD(1) [OF assms(1)] by (simp add: append_read_at_def offset_add_def tip_size_def)

lemma append_size_ok: "append_inv c l ab pr \<Longrightarrow> length l \<le> u64_max \<Longrightarrow> append_size ab = Ok (length l)"
  using append_invD(1) [of c l ab pr] by (simp add: append_size_def tip_size_def)

lemma append_sync_ok:
  assumes w: "inv w" "content w (ab_blob ab) = Some c" and a: "append_inv c l ab pr" and m: "length l \<le> u64_max"
    and f: "files w (named w (ab_blob ab)) \<noteq> None"
  shows "\<exists>ab' pr' w'. append_sync ops ab pr w = Ok (ab', pr', w') \<and> ab_blob ab' = ab_blob ab \<and> ab_id ab' = ab_id ab
    \<and> same_pool (ab_id ab) pr pr' \<and> append_inv l l ab' pr' \<and> inv w' \<and> content w' = (content w)(ab_blob ab \<mapsto> l)
    \<and> named w' = named w \<and> files w' = (files w)(named w (ab_blob ab) \<mapsto> l)"
proof -
  obtain ab' pr' w1 where fl: "append_flush ops ab pr w = Ok (ab', pr', w1)" "ab_blob ab' = ab_blob ab" "ab_id ab' = ab_id ab"
      "same_pool (ab_id ab) pr pr'" "append_inv l l ab' pr'" "inv w1" "content w1 = (content w)(ab_blob ab \<mapsto> l)"
      "named w1 = named w" "files w1 = files w"
    using append_flush_ok [OF w a m] by (auto simp: appends_def)
  moreover obtain w2 where "st_sync ops (ab_blob ab) w1 = Ok w2" "content w2 = content w1" "named w2 = named w1"
      "files w2 = (files w1)(named w1 (ab_blob ab) \<mapsto> l)" "inv w2"
    using sync_ok [of w1 "ab_blob ab" l] fl f by auto
  ultimately show ?thesis by (simp add: append_sync_def)
qed

lemma append_leftover_ok:
  assumes "inv w" "content w h = Some c" "length c \<le> u64_max" "0 < ps" "2 * ps \<le> tb_capacity b" "tb_data b = []"
  shows "append_leftover ops h (length c mod ps) (length c - length c mod ps) b w = Ok (b\<lparr>tb_data := drop (length c - length c mod ps) c\<rparr>)"
proof (cases "length c mod ps = 0")
  case True
  then show ?thesis using assms(6) by (simp add: append_leftover_def)
next
  case False
  have lt: "length c mod ps < ps" using assms(4) by simp
  have "st_read_at ops (length c mod ps) (length c - length c mod ps) h w = Ok (slice (length c - length c mod ps) (length c mod ps) c)"
    using assms(1-3) by (intro read_ok) simp_all
  moreover have "slice (length c - length c mod ps) (length c mod ps) c = drop (length c - length c mod ps) c" by (simp add: slice_def)
  ultimately show ?thesis using False lt assms(5,6) by (simp add: append_leftover_def tip_append_def)
qed

text \<open>Shrinking. (Growing can expose stale pages, see \<open>append_grow_stale\<close>.)\<close>

lemma append_resize_ok:
  assumes w: "inv w" "content w (ab_blob ab) = Some c" and a: "append_inv c l ab pr" and m: "length l \<le> u64_max"
    and n: "sz \<le> length l"
  shows "appends (take sz l) (take sz l) ab pr w (append_resize ops sz ab pr w)"
proof -
  obtain ab' pr' w1 where fl: "append_flush ops ab pr w = Ok (ab', pr', w1)" "ab_blob ab' = ab_blob ab" "ab_id ab' = ab_id ab"
      "same_pool (ab_id ab) pr pr'" "append_inv l l ab' pr'" "inv w1" "content w1 = (content w)(ab_blob ab \<mapsto> l)"
      "named w1 = named w" "files w1 = files w"
      and tip: "tb_offset (ab_buffer ab') = length l - length l mod pr_page_size pr"
    using append_flush_tip [OF w a m] by (auto simp: appends_def)
  obtain w2 where w2: "st_resize ops sz (ab_blob ab) w1 = Ok w2" "content w2 = (content w1)(ab_blob ab \<mapsto> take sz l)"
      "named w2 = named w1" "files w2 = files w1" "inv w2"
    using resize_ok [of w1 "ab_blob ab" l sz] fl n m by (auto simp: resize_shrink)
  let ?ps = "pr_page_size pr'" and ?t = "take sz l"
  let ?b = "(ab_buffer ab')\<lparr>tb_offset := sz - sz mod ?ps, tb_data := []\<rparr>"
  let ?ab = "ab'\<lparr>ab_size := sz, ab_buffer := ?b\<lparr>tb_data := drop (sz - sz mod ?ps) ?t\<rparr>\<rparr>"
  have ps: "0 < ?ps" "pool_inv ?ps (pr_pool pr')" "2 * ?ps \<le> tb_capacity (ab_buffer ab')"
      "coherent ?ps (ab_id ab') l (tb_offset (ab_buffer ab')) (pr_pool pr')" using fl(5) by (simp_all add: append_inv_def)
  have "append_leftover ops (ab_blob ab) (sz mod ?ps) (sz - sz mod ?ps) ?b w2 = Ok (?b\<lparr>tb_data := drop (sz - sz mod ?ps) ?t\<rparr>)"
    using append_leftover_ok [of w2 "ab_blob ab" ?t ?ps ?b] w2 ps n m by (simp add: min_absorb2)
  then have "append_resize ops sz ab pr w = Ok (?ab, pr', w2)" using fl w2 ps by (simp add: append_resize_def Let_def)
  moreover have "append_inv ?t ?t ?ab pr'"
  proof (rule append_inv_settled)
    have "sz - sz mod ?ps \<le> length l" using n by simp
    then have "sz - sz mod ?ps \<le> tb_offset (ab_buffer ab')"
      using tip fl(4) aligned_le [OF dvd_minus_mod] by (simp add: same_pool_def)
    then show "coherent ?ps (ab_id ?ab) ?t (tb_offset (ab_buffer ?ab)) (pr_pool pr')"
      using ps(4) by (auto intro: coherent_take coherent_mono)
  qed (use ps n in \<open>simp_all add: min_absorb2\<close>)
  ultimately show ?thesis using fl w2 by (simp add: appends_def)
qed

lemma append_new_ok:
  assumes w: "inv w" "content w h = Some c" "length c \<le> u64_max"
    and pr: "0 < pr_page_size pr" "2 * pr_page_size pr \<le> u64_max" "pool_inv (pr_page_size pr) (pr_pool pr)" "fresh_ids pr"
      "pr_next_id pr < u64_max"
  shows "\<exists>ab pr'. append_new ops h (length c) buffer_size pr w = Ok (ab, pr') \<and> ab_blob ab = h \<and> ab_id ab = pr_next_id pr
    \<and> pr' = pr\<lparr>pr_next_id := pr_next_id pr + 1\<rparr> \<and> append_inv c c ab pr'"
proof -
  let ?ps = "pr_page_size pr" and ?cap = "max buffer_size (pr_page_size pr * 2)"
  let ?t = "length c - length c mod ?ps"
  let ?ab = "\<lparr>ab_blob = h, ab_id = pr_next_id pr, ab_buffer = \<lparr>tb_data = drop ?t c, tb_offset = ?t, tb_capacity = ?cap\<rparr>, ab_size = length c\<rparr>"
  let ?pr = "pr\<lparr>pr_next_id := pr_next_id pr + 1\<rparr>"
  have "append_leftover ops h (length c mod ?ps) ?t (tip_new ?t ?cap) w = Ok ((tip_new ?t ?cap)\<lparr>tb_data := drop ?t c\<rparr>)"
    using w pr by (intro append_leftover_ok) (auto simp: tip_new_def)
  then have "append_new ops h (length c) buffer_size pr w = Ok (?ab, ?pr)"
    using pr by (simp add: append_new_def Let_def pool_next_id_def tip_new_def mult.commute)
  moreover have "append_inv c c ?ab ?pr"
    using pr by (intro append_inv_settled) (auto simp: coherent_def fresh_ids_def)
  ultimately show ?thesis by auto
qed

end

section \<open>An append-only blob is a byte array\<close>

text \<open>A client's calls, what it sees of them, and the array it should see.\<close>

datatype log_call = LAppend bytes | LRead nat nat | LTruncate nat | LSync

fun run_append :: "('w, 'h) store_ops \<Rightarrow> log_call list \<Rightarrow> 'h append_blob \<Rightarrow> pool_ref \<Rightarrow> 'w \<Rightarrow>
    ((bytes, rt_error) result list \<times> 'h append_blob \<times> pool_ref \<times> 'w, rt_error) result" where
  "run_append ops [] ab pr w = Ok ([], ab, pr, w)"
| "run_append ops (LAppend buf # cs) ab pr w =
     and_then (append_append ops buf ab pr w) (\<lambda>(ab, pr, w). run_append ops cs ab pr w)"
| "run_append ops (LRead n off # cs) ab pr w =
     (case append_read_at ops n off ab pr w of
        Panic \<Rightarrow> Panic
      | Err e \<Rightarrow> and_then (run_append ops cs ab pr w) (\<lambda>(outs, r). Ok (Err e # outs, r))
      | Ok (bs, pr) \<Rightarrow> and_then (run_append ops cs ab pr w) (\<lambda>(outs, r). Ok (Ok bs # outs, r)))"
| "run_append ops (LTruncate n # cs) ab pr w =
     and_then (append_resize ops n ab pr w) (\<lambda>(ab, pr, w). run_append ops cs ab pr w)"
| "run_append ops (LSync # cs) ab pr w =
     and_then (append_sync ops ab pr w) (\<lambda>(ab, pr, w). run_append ops cs ab pr w)"

fun log_spec :: "log_call list \<Rightarrow> bytes \<Rightarrow> bytes \<Rightarrow> (bytes, rt_error) result list \<times> bytes \<times> bytes" where
  "log_spec [] l d = ([], l, d)"
| "log_spec (LAppend buf # cs) l d = log_spec cs (l @ buf) d"
| "log_spec (LRead n off # cs) l d =
     (let (outs, r) = log_spec cs l d
      in ((if off + n \<le> length l then Ok (slice off n l) else Err BlobInsufficientLength) # outs, r))"
| "log_spec (LTruncate n # cs) l d = log_spec cs (take n l) d"
| "log_spec (LSync # cs) l d = log_spec cs l l"

fun log_fits :: "log_call list \<Rightarrow> nat \<Rightarrow> bool" where
  "log_fits [] len \<longleftrightarrow> len \<le> u64_max"
| "log_fits (LAppend buf # cs) len \<longleftrightarrow> len \<le> u64_max \<and> log_fits cs (len + length buf)"
| "log_fits (LRead n off # cs) len \<longleftrightarrow> off + n \<le> u64_max \<and> log_fits cs len"
| "log_fits (LTruncate n # cs) len \<longleftrightarrow> len \<le> u64_max \<and> n \<le> len \<and> log_fits cs n"
| "log_fits (LSync # cs) len \<longleftrightarrow> log_fits cs len"

lemma log_fits_bound: "log_fits cs len \<Longrightarrow> len \<le> u64_max"
  by (induction cs len rule: log_fits.induct) auto

lemma log_spec_bound: "log_fits cs (length l) \<Longrightarrow> length (fst (snd (log_spec cs l d))) \<le> u64_max"
  by (induction cs l d rule: log_spec.induct) (auto simp: min_absorb2 split: prod.splits)

context blob_store
begin

definition log_state :: "'h \<Rightarrow> bytes \<Rightarrow> bytes \<Rightarrow> (bytes \<rightharpoonup> bytes) \<Rightarrow> 'h append_blob \<Rightarrow> pool_ref \<Rightarrow> 'w \<Rightarrow> bool" where
  "log_state h l d fs ab pr w \<longleftrightarrow> ab_blob ab = h \<and> inv w \<and> (\<exists>c. content w h = Some c \<and> append_inv c l ab pr)
     \<and> files w = fs(named w h \<mapsto> d)"

lemma appends_log_state:
  assumes "log_state h l d fs ab pr w" "appends c' l' ab pr w res"
  shows "\<exists>ab' pr' w'. res = Ok (ab', pr', w') \<and> log_state h l' d fs ab' pr' w' \<and> named w' h = named w h"
  using assms by (auto simp: log_state_def appends_def)

lemma append_log_simulates:
  assumes "log_state h l d fs ab pr w" "log_fits cs (length l)" "log_spec cs l d = (outs, l', d')"
  shows "\<exists>ab' pr' w'. run_append ops cs ab pr w = Ok (outs, ab', pr', w') \<and> log_state h l' d' fs ab' pr' w' \<and> named w' h = named w h"
  using assms
proof (induction cs arbitrary: l d ab pr w outs)
  case Nil
  then show ?case by simp
next
  case (Cons call cs)
  obtain c where c: "ab_blob ab = h" "inv w" "content w h = Some c" "append_inv c l ab pr" "files w = fs(named w h \<mapsto> d)"
    using Cons.prems(1) by (auto simp: log_state_def)
  have m: "length l \<le> u64_max" using Cons.prems(2) log_fits_bound by blast
  show ?case
  proof (cases call)
    case (LAppend buf)
    then have "length l + length buf \<le> u64_max" using Cons.prems(2) log_fits_bound [of cs] by simp
    then obtain c' where "appends c' (l @ buf) ab pr w (append_append ops buf ab pr w)"
      using append_append_ok [of w ab c l pr buf] c by auto
    from appends_log_state [OF Cons.prems(1) this] obtain ab' pr' w' where
      "append_append ops buf ab pr w = Ok (ab', pr', w')" "log_state h (l @ buf) d fs ab' pr' w'" "named w' h = named w h" by blast
    then show ?thesis using Cons.IH [of "l @ buf" d ab' pr' w' outs] Cons.prems(2,3) LAppend by auto
  next
    case (LRead n off)
    obtain outs' where o: "log_spec cs l d = (outs', l', d')"
      "outs = (if off + n \<le> length l then Ok (slice off n l) else Err BlobInsufficientLength) # outs'"
      using Cons.prems(3) LRead by (auto split: prod.splits)
    show ?thesis
    proof (cases "off + n \<le> length l")
      case True
      obtain pr' where r: "append_read_at ops n off ab pr w = Ok (slice off n l, pr')" "append_inv c l ab pr'"
        using append_read_at_ok [of w ab c l pr off n] c m True by auto
      have "log_state h l d fs ab pr' w" using c r(2) by (simp add: log_state_def)
      from Cons.IH [OF this _ o(1)] show ?thesis using r(1) True Cons.prems(2) LRead o(2) by auto
    next
      case False
      then have "append_read_at ops n off ab pr w = Err BlobInsufficientLength"
        using append_read_at_short [OF c(4)] Cons.prems(2) LRead by simp
      then show ?thesis using Cons.IH [OF Cons.prems(1) _ o(1)] False Cons.prems(2) LRead o(2) by auto
    qed
  next
    case (LTruncate n)
    then have n: "n \<le> length l" using Cons.prems(2) by simp
    then have "appends (take n l) (take n l) ab pr w (append_resize ops n ab pr w)"
      using append_resize_ok [of w ab c l pr n] c m by simp
    from appends_log_state [OF Cons.prems(1) this] obtain ab' pr' w' where
      "append_resize ops n ab pr w = Ok (ab', pr', w')" "log_state h (take n l) d fs ab' pr' w'" "named w' h = named w h" by blast
    then show ?thesis using Cons.IH [of "take n l" d ab' pr' w' outs] Cons.prems(2,3) LTruncate n by auto
  next
    case LSync
    obtain ab' pr' w' where "append_sync ops ab pr w = Ok (ab', pr', w')" "ab_blob ab' = h" "append_inv l l ab' pr'" "inv w'"
        "content w' = (content w)(h \<mapsto> l)" "named w' = named w" "files w' = (files w)(named w h \<mapsto> l)"
      using append_sync_ok [of w ab c l pr] c m by auto
    moreover from this have "log_state h l l fs ab' pr' w'" using c by (simp add: log_state_def)
    ultimately show ?thesis using Cons.IH [of l l ab' pr' w' outs] Cons.prems(2,3) LSync by auto
  qed
qed

end

text \<open>
  C15. An append-only blob over the in-memory store is a byte array: opened on a blob with content \<open>c\<close>,
  whatever the page size, the capacity of the pool and the size of the write buffer, any sequence of
  appends, reads, truncations and syncs runs to its end, every read returns the bytes (or the error)
  the array gives, the size is that of the array, and what becomes durable is the array at the
  last sync.
\<close>

theorem append_blob_is_array:
  assumes "validate_partition_name part = Ok ()" "mem_inv w" "mem_content part w h = Some c"
    and "mem_files part w (mem_named w h) = Some d"
    and "0 < page_size" "2 * page_size \<le> u64_max" "0 < capacity"
    and "log_fits cs (length c)" "log_spec cs c d = (outs, l, d')"
  shows "\<exists>pr ab pr' ab' pr'' w'. pool_ref_new page_size capacity = Ok pr
    \<and> append_new (mem_ops part) h (length c) buffer_size pr w = Ok (ab, pr')
    \<and> run_append (mem_ops part) cs ab pr' w = Ok (outs, ab', pr'', w')
    \<and> append_size ab' = Ok (length l) \<and> mem_files part w' = (mem_files part w)(mem_named w h \<mapsto> d')"
proof -
  note st = mem_store [OF assms(1)]
  obtain p where p: "pool_new capacity = Ok p" "pool_inv page_size p" "pool_page p = Map.empty"
    using pool_new_ok [OF assms(7)] by blast
  let ?pr = "\<lparr>pr_page_size = page_size, pr_next_id = 0, pr_pool = p\<rparr>"
  have pr: "pool_ref_new page_size capacity = Ok ?pr" using p by (simp add: pool_ref_new_def)
  have c: "length c \<le> u64_max" using log_fits_bound [OF assms(8)] .
  have "pr_next_id ?pr < u64_max" by (simp add: u64_max_def)
  then obtain ab pr' where ab: "append_new (mem_ops part) h (length c) buffer_size ?pr w = Ok (ab, pr')" "ab_blob ab = h" "append_inv c c ab pr'"
    using blob_store.append_new_ok [OF st assms(2,3) c, of ?pr buffer_size] p assms(5,6) by (auto simp: fresh_ids_def)
  have "blob_store.log_state (mem_content part) mem_named (mem_files part) mem_inv h c d (mem_files part w) ab pr' w"
    using ab assms(2-4) by (auto simp: blob_store.log_state_def [OF st])
  from blob_store.append_log_simulates [OF st this assms(8,9)] obtain ab' pr'' w' where
    r: "run_append (mem_ops part) cs ab pr' w = Ok (outs, ab', pr'', w')" "mem_named w' h = mem_named w h"
    "blob_store.log_state (mem_content part) mem_named (mem_files part) mem_inv h l d' (mem_files part w) ab' pr'' w'" by blast
  have "length l \<le> u64_max" using log_spec_bound [OF assms(8), of d] assms(9) by simp
  then have "append_size ab' = Ok (length l)" "mem_files part w' = (mem_files part w)(mem_named w h \<mapsto> d')"
    using r(2,3) by (auto simp: blob_store.log_state_def [OF st] blob_store.append_size_ok [OF st])
  then show ?thesis using pr ab(1) r(1) by blast
qed

definition sample_calls :: "log_call list" where
  "sample_calls = [LAppend [4, 5, 6], LRead 4 1, LTruncate 2, LSync, LRead 3 0]"

lemma sample_calls_ok:
  "log_fits sample_calls (length [1, 2, 3 :: u8])"
  "log_spec sample_calls [1, 2, 3] [1, 2, 3] = ([Ok [2, 3, 4, 5], Err BlobInsufficientLength], [1, 2], [1, 2])"
  by (simp_all add: sample_calls_def u64_max_def slice_def)

theorem append_blob_is_array_witness:
  "\<exists>pr ab pr' ab' pr'' w'. pool_ref_new 2 1 = Ok pr
    \<and> append_new (mem_ops ''log'') 0 (length [1, 2, 3 :: u8]) 1 pr sample_store = Ok (ab, pr')
    \<and> run_append (mem_ops ''log'') sample_calls ab pr' sample_store
        = Ok ([Ok [2, 3, 4, 5], Err BlobInsufficientLength], ab', pr'', w')
    \<and> append_size ab' = Ok (length [1, 2 :: u8])
    \<and> mem_files ''log'' w' = (mem_files ''log'' sample_store)(mem_named sample_store 0 \<mapsto> [1, 2])"
  by (rule append_blob_is_array [OF sample_store_ok(1-3) _ _ _ _ sample_calls_ok])
     (simp_all add: u64_max_def sample_store_def mem_files_def mem_named_def bt_get_def)


lemma pool_read_loop_pos:
  "0 < fuel \<Longrightarrow> 0 < n \<Longrightarrow> pool_read_loop fuel ops blob i n off pr w =
     and_then (pool_read_step ops blob i n off pr w) (\<lambda>(bs, pr).
       and_then (u64_add off (length bs)) (\<lambda>off.
       and_then (pool_read_loop (fuel - 1) ops blob i (n - length bs) off pr w) (\<lambda>(rest, pr). Ok (bs @ rest, pr))))"
  by (cases fuel; cases n) simp_all

lemma small_u64: "n \<le> 9 \<Longrightarrow> n \<le> u64_max"
  by (simp add: u64_max_def)

text \<open>
  Growing with \<open>resize\<close> can bring stale bytes back: after a page has been cached, truncating below it
  and growing over it again leaves the blob with zeros there, and the append-only blob still returns
  the bytes from before the truncation.
\<close>

theorem append_grow_stale:
  "\<exists>pr ab pr' ab' pr'' w'. pool_ref_new 2 1 = Ok pr
    \<and> append_new (mem_ops ''log'') 0 3 4 pr sample_store = Ok (ab, pr')
    \<and> run_append (mem_ops ''log'') [LRead 2 0, LTruncate 0, LTruncate 2, LRead 2 0] ab pr' sample_store
        = Ok ([Ok [1, 2], Ok [1, 2]], ab', pr'', w')
    \<and> mem_content ''log'' w' 0 = Some [0, 0]"
  by (simp add: small_u64 u64_add_def u64_mul_def u64_sub_def offset_add_def sample_store_def mem_content_def
      pool_ref_new_def pool_new_def append_new_def append_leftover_def tip_new_def mem_ops_def mem_read_at_def slice_def Let_def
      tip_append_def pool_next_id_def append_read_at_def tip_size_def tip_extract_def pool_ref_read_def pool_read_loop_pos
      pool_read_step_def pool_read_at_def offset_to_page_def read_after_page_fault_def pool_cache_def pool_mark_def
      append_resize_def append_flush_def tip_take_def tip_is_empty_def pool_ref_cache_def pool_cache_pages.simps
      append_rebuffer_def append_write_new_def mem_resize_def resize_bytes_def, simp add: numeral_2_eq_2)

end
