(* ===== verification/Blob_Read.thy ===== *)
theory Blob_Read
  imports Blob_Append
begin

text \<open>
  The buffered reader (\<open>runtime/src/utils/buffer/read.rs\<close>). The reader is generic in the blob it reads
  from; here it takes the blob's \<open>read_at\<close> as a function of a state \<open>'s\<close> (for an append-only blob: the
  blob, the pool and the store). The locale \<open>readable\<close> is what it relies on.
\<close>

section \<open>Operations\<close>

record blob_reader =
  br_buffer :: bytes
  br_blob_position :: nat
  br_blob_size :: nat
  br_buffer_position :: nat
  br_buffer_valid_len :: nat
  br_buffer_size :: nat

type_synonym 's read_at = "nat \<Rightarrow> nat \<Rightarrow> 's \<Rightarrow> (bytes \<times> 's, rt_error) result"

definition reader_new :: "nat \<Rightarrow> nat \<Rightarrow> blob_reader" where
  "reader_new blob_size buffer_size =
     \<lparr>br_buffer = replicate buffer_size 0, br_blob_position = 0, br_blob_size = blob_size,
      br_buffer_position = 0, br_buffer_valid_len = 0, br_buffer_size = buffer_size\<rparr>"

definition buffer_remaining :: "blob_reader \<Rightarrow> (nat, rt_error) result" where
  "buffer_remaining r = u64_sub (br_buffer_valid_len r) (br_buffer_position r)"

definition blob_remaining :: "blob_reader \<Rightarrow> (nat, rt_error) result" where
  "blob_remaining r = and_then (u64_add (br_blob_position r) (br_buffer_position r)) (\<lambda>p. Ok (br_blob_size r - p))"

definition refill :: "'s read_at \<Rightarrow> blob_reader \<Rightarrow> 's \<Rightarrow> (nat \<times> blob_reader \<times> 's, rt_error) result" where
  "refill rd r s =
     and_then (u64_add (br_blob_position r) (br_buffer_position r)) (\<lambda>blob_position.
       let r = r\<lparr>br_blob_position := blob_position, br_buffer_position := 0, br_buffer_valid_len := 0\<rparr>;
           blob_remaining = br_blob_size r - br_blob_position r
       in if blob_remaining = 0 then Err BlobInsufficientLength
          else let bytes_to_read = min (br_buffer_size r) blob_remaining in
            and_then (rd bytes_to_read (br_blob_position r) s) (\<lambda>(bs, s).
              let buffer = (if bytes_to_read < br_buffer_size r
                            then take bytes_to_read bs @ drop bytes_to_read (br_buffer r) else bs)
              in Ok (bytes_to_read, r\<lparr>br_buffer := buffer, br_buffer_valid_len := bytes_to_read\<rparr>, s)))"

text \<open>
  Every round of the loop of \<open>read_exact\<close> copies at least one byte, as the buffer is not of size zero:
  as many rounds as bytes are enough (\<open>read_exact_ok\<close> and \<open>read_exact_short\<close> show that the loop
  ends within them).
\<close>

fun read_exact_loop :: "nat \<Rightarrow> 's read_at \<Rightarrow> nat \<Rightarrow> blob_reader \<Rightarrow> 's \<Rightarrow> (bytes \<times> blob_reader \<times> 's, rt_error) result" where
  "read_exact_loop fuel rd 0 r s = Ok ([], r, s)"
| "read_exact_loop 0 rd (Suc n) r s = Panic"
| "read_exact_loop (Suc fuel) rd (Suc n) r s =
     and_then (if br_buffer_position r \<ge> br_buffer_valid_len r
               then and_then (refill rd r s) (\<lambda>(_, r, s). Ok (r, s)) else Ok (r, s)) (\<lambda>(r, s).
     and_then (buffer_remaining r) (\<lambda>remaining.
       let bytes_to_copy = min (Suc n) remaining in
       if \<not> br_buffer_position r + bytes_to_copy \<le> length (br_buffer r) then Panic
       else let bs = slice (br_buffer_position r) bytes_to_copy (br_buffer r) in
         and_then (read_exact_loop fuel rd (Suc n - bytes_to_copy)
             (r\<lparr>br_buffer_position := br_buffer_position r + bytes_to_copy\<rparr>) s) (\<lambda>(rest, r, s).
           Ok (bs @ rest, r, s))))"

definition read_exact :: "'s read_at \<Rightarrow> nat \<Rightarrow> blob_reader \<Rightarrow> 's \<Rightarrow> (bytes \<times> blob_reader \<times> 's, rt_error) result" where
  "read_exact rd n r s =
     and_then (buffer_remaining r) (\<lambda>in_buffer.
     and_then (blob_remaining r) (\<lambda>in_blob.
     and_then (u64_add in_buffer in_blob) (\<lambda>available.
       if available < n then Err BlobInsufficientLength else read_exact_loop n rd n r s)))"

definition reader_position :: "blob_reader \<Rightarrow> (nat, rt_error) result" where
  "reader_position r = u64_add (br_blob_position r) (br_buffer_position r)"

definition seek_to :: "nat \<Rightarrow> blob_reader \<Rightarrow> (blob_reader, rt_error) result" where
  "seek_to position r =
     (if position > br_blob_size r then Err BlobInsufficientLength
      else and_then (u64_add (br_blob_position r) (br_buffer_valid_len r)) (\<lambda>buffer_end.
        if position \<ge> br_blob_position r \<and> position < buffer_end
        then Ok (r\<lparr>br_buffer_position := position - br_blob_position r\<rparr>)
        else Ok (r\<lparr>br_blob_position := position, br_buffer_position := 0, br_buffer_valid_len := 0\<rparr>)))"

section \<open>What the reader relies on and what it returns\<close>

text \<open>\<open>view s\<close> is the content of the blob in state \<open>s\<close>; reading changes \<open>s\<close> only as \<open>frame\<close> allows.\<close>

locale readable =
  fixes rd :: "'s read_at"
    and view :: "'s \<Rightarrow> bytes option"
    and frame :: "'s \<Rightarrow> 's \<Rightarrow> bool"
  assumes view_bound: "view s = Some l \<Longrightarrow> length l \<le> u64_max"
    and frame_refl: "view s = Some l \<Longrightarrow> frame s s"
    and frame_trans: "frame s t \<Longrightarrow> frame t u \<Longrightarrow> frame s u"
    and rd_ok: "view s = Some l \<Longrightarrow> off + n \<le> length l \<Longrightarrow> \<exists>s'. rd n off s = Ok (slice off n l, s') \<and> view s' = Some l \<and> frame s s'"

definition reader_inv :: "bytes \<Rightarrow> blob_reader \<Rightarrow> bool" where
  "reader_inv l r \<longleftrightarrow> br_blob_size r = length l \<and> 0 < br_buffer_size r \<and> length (br_buffer r) = br_buffer_size r
     \<and> br_buffer_valid_len r \<le> br_buffer_size r \<and> br_buffer_position r \<le> br_buffer_valid_len r
     \<and> br_blob_position r + br_buffer_valid_len r \<le> length l
     \<and> take (br_buffer_valid_len r) (br_buffer r) = slice (br_blob_position r) (br_buffer_valid_len r) l"

abbreviation at_position :: "blob_reader \<Rightarrow> nat" where
  "at_position r \<equiv> br_blob_position r + br_buffer_position r"

lemma reader_new_ok: "0 < buffer_size \<Longrightarrow> reader_inv l (reader_new (length l) buffer_size)"
  by (simp add: reader_inv_def reader_new_def slice_def)

lemma reader_position_ok: "reader_inv l r \<Longrightarrow> length l \<le> u64_max \<Longrightarrow> reader_position r = Ok (at_position r)"
  by (simp add: reader_position_def reader_inv_def)

lemma seek_to_ok:
  assumes "reader_inv l r" "length l \<le> u64_max" "p \<le> length l"
  shows "\<exists>r'. seek_to p r = Ok r' \<and> reader_inv l r' \<and> at_position r' = p"
  using assms by (auto simp: seek_to_def reader_inv_def slice_def)

lemma seek_to_short: "reader_inv l r \<Longrightarrow> length l < p \<Longrightarrow> seek_to p r = Err BlobInsufficientLength"
  by (simp add: seek_to_def reader_inv_def)

lemma buffered_slice:
  assumes "reader_inv l r" "br_buffer_position r + k \<le> br_buffer_valid_len r"
  shows "slice (br_buffer_position r) k (br_buffer r) = slice (at_position r) k l"
proof -
  have "slice (br_buffer_position r) k (br_buffer r) = slice (br_buffer_position r) k (take (br_buffer_valid_len r) (br_buffer r))"
    using assms(2) by (simp add: slice_def drop_take min_def)
  also have "\<dots> = slice (at_position r) k l" using assms by (simp add: reader_inv_def slice_slice)
  finally show ?thesis .
qed

context readable
begin

lemma refill_ok:
  assumes r: "reader_inv l r" and s: "view s = Some l" and p: "at_position r < length l"
  shows "\<exists>n r' s'. refill rd r s = Ok (n, r', s') \<and> reader_inv l r' \<and> at_position r' = at_position r
    \<and> br_buffer_position r' < br_buffer_valid_len r' \<and> view s' = Some l \<and> frame s s'"
proof -
  let ?n = "min (br_buffer_size r) (length l - at_position r)"
  have n: "0 < ?n" "at_position r + ?n \<le> length l" using r p by (auto simp: reader_inv_def)
  obtain s' where s': "rd ?n (at_position r) s = Ok (slice (at_position r) ?n l, s')" "view s' = Some l" "frame s s'"
    using rd_ok [OF s n(2)] by blast
  define buf where "buf = (if ?n < br_buffer_size r then slice (at_position r) ?n l @ drop ?n (br_buffer r) else slice (at_position r) ?n l)"
  let ?r = "r\<lparr>br_blob_position := at_position r, br_buffer_position := 0, br_buffer_valid_len := ?n, br_buffer := buf\<rparr>"
  have len: "length (slice (at_position r) ?n l) = ?n" using n(2) by simp
  have "refill rd r s = Ok (?n, ?r, s')"
    using r s' p n len view_bound [OF s] by (simp add: refill_def reader_inv_def Let_def buf_def)
  moreover have "reader_inv l ?r" using r n len by (auto simp: reader_inv_def buf_def)
  ultimately show ?thesis using s' n by auto
qed

lemma refill_end:
  assumes "reader_inv l r" "view s = Some l" "at_position r = length l"
  shows "refill rd r s = Err BlobInsufficientLength"
  using assms view_bound [OF assms(2)] by (simp add: refill_def reader_inv_def)

text \<open>After the refill of a round, if any, the buffer holds unread bytes.\<close>

lemma round_ready:
  assumes r: "reader_inv l r" and s: "view s = Some l" and p: "at_position r < length l"
  shows "\<exists>r' s'. (if br_buffer_position r \<ge> br_buffer_valid_len r
      then and_then (refill rd r s) (\<lambda>(_, r, s). Ok (r, s)) else Ok (r, s)) = Ok (r', s')
    \<and> reader_inv l r' \<and> at_position r' = at_position r \<and> br_buffer_position r' < br_buffer_valid_len r' \<and> view s' = Some l \<and> frame s s'"
  using refill_ok [OF assms] assms frame_refl [OF s] by (cases "br_buffer_position r \<ge> br_buffer_valid_len r") auto

lemma round_copy:
  assumes r: "reader_inv l r" "br_buffer_position r < br_buffer_valid_len r"
  shows "\<exists>k. buffer_remaining r = Ok k \<and> 0 < k \<and> at_position r + k \<le> length l \<and> br_buffer_position r + k \<le> length (br_buffer r)
    \<and> (\<forall>n \<le> k. reader_inv l (r\<lparr>br_buffer_position := br_buffer_position r + n\<rparr>) \<and> slice (br_buffer_position r) n (br_buffer r) = slice (at_position r) n l)"
  using r buffered_slice [OF r(1)] by (auto simp: buffer_remaining_def reader_inv_def intro!: exI [of _ "br_buffer_valid_len r - br_buffer_position r"])

lemma read_exact_loop_ok:
  assumes "reader_inv l r" "view s = Some l" "at_position r + n \<le> length l" "n \<le> fuel"
  shows "\<exists>r' s'. read_exact_loop fuel rd n r s = Ok (slice (at_position r) n l, r', s') \<and> reader_inv l r'
    \<and> at_position r' = at_position r + n \<and> view s' = Some l \<and> frame s s'"
  using assms
proof (induction fuel arbitrary: n r s)
  case 0
  then show ?case using frame_refl [OF 0(2)] by (simp add: slice_def)
next
  case (Suc fuel)
  show ?case
  proof (cases n)
    case 0
    then show ?thesis using Suc.prems frame_refl [OF Suc.prems(2)] by (simp add: slice_def)
  next
    case (Suc m)
    have "at_position r < length l" using Suc Suc.prems(3) by simp
    from round_ready [OF Suc.prems(1,2) this] obtain r1 s1 where
      r1: "(if br_buffer_position r \<ge> br_buffer_valid_len r
        then and_then (refill rd r s) (\<lambda>(_, r, s). Ok (r, s)) else Ok (r, s)) = Ok (r1, s1)"
      "reader_inv l r1" "at_position r1 = at_position r" "br_buffer_position r1 < br_buffer_valid_len r1" "view s1 = Some l" "frame s s1" by blast
    from round_copy [OF r1(2,4)] obtain k where
      k: "buffer_remaining r1 = Ok k" "0 < k" "at_position r1 + k \<le> length l" "br_buffer_position r1 + k \<le> length (br_buffer r1)"
      "\<forall>n \<le> k. reader_inv l (r1\<lparr>br_buffer_position := br_buffer_position r1 + n\<rparr>) \<and> slice (br_buffer_position r1) n (br_buffer r1) = slice (at_position r1) n l"
      by blast
    let ?c = "min n k"
    let ?r = "r1\<lparr>br_buffer_position := br_buffer_position r1 + ?c\<rparr>"
    have c: "reader_inv l ?r" "slice (br_buffer_position r1) ?c (br_buffer r1) = slice (at_position r) ?c l" "at_position ?r = at_position r + ?c"
      "0 < ?c" "?c \<le> n" using k r1(3) Suc by auto
    obtain r' s' where r': "read_exact_loop fuel rd (n - ?c) ?r s1 = Ok (slice (at_position r + ?c) (n - ?c) l, r', s')" "reader_inv l r'"
        "at_position r' = at_position r + ?c + (n - ?c)" "view s' = Some l" "frame s1 s'"
    proof -
      have "at_position r + ?c + (n - ?c) \<le> length l" "n - ?c \<le> fuel" using c(4,5) Suc.prems(3,4) by linarith+
      from Suc.IH [OF c(1) r1(5), unfolded c(3), OF this] show ?thesis using that by blast
    qed
    have "slice (at_position r) n l = slice (at_position r) ?c l @ slice (at_position r + ?c) (n - ?c) l"
      using slice_split [of "at_position r" ?c "n - ?c" l] c(5) by simp
    moreover have "br_buffer_position r1 + ?c \<le> length (br_buffer r1)" using k(4) by linarith
    ultimately have "read_exact_loop (Suc fuel) rd n r s = Ok (slice (at_position r) n l, r', s')"
      using Suc r1(1) k(1) c(2) r'(1) by (simp add: Let_def)
    then show ?thesis using r' c(5) frame_trans [OF r1(6) r'(5)] by auto
  qed
qed

lemma read_exact_loop_short:
  assumes "reader_inv l r" "view s = Some l" "length l < at_position r + n" "n \<le> fuel"
  shows "read_exact_loop fuel rd n r s = Err BlobInsufficientLength"
  using assms
proof (induction fuel arbitrary: n r s)
  case 0
  then show ?case by (simp add: reader_inv_def)
next
  case (Suc fuel)
  have le: "at_position r \<le> length l" using Suc.prems(1) by (simp add: reader_inv_def)
  then obtain m where n: "n = Suc m" using Suc.prems(3) by (cases n) auto
  show ?case
  proof (cases "at_position r = length l")
    case True
    then have "br_buffer_position r \<ge> br_buffer_valid_len r" using Suc.prems(1) by (simp add: reader_inv_def)
    then show ?thesis using refill_end [OF Suc.prems(1,2) True] n by simp
  next
    case False
    then have "at_position r < length l" using le by simp
    from round_ready [OF Suc.prems(1,2) this] obtain r1 s1 where
      r1: "(if br_buffer_position r \<ge> br_buffer_valid_len r
        then and_then (refill rd r s) (\<lambda>(_, r, s). Ok (r, s)) else Ok (r, s)) = Ok (r1, s1)"
      "reader_inv l r1" "at_position r1 = at_position r" "br_buffer_position r1 < br_buffer_valid_len r1" "view s1 = Some l" "frame s s1" by blast
    from round_copy [OF r1(2,4)] obtain k where
      k: "buffer_remaining r1 = Ok k" "0 < k" "at_position r1 + k \<le> length l" "br_buffer_position r1 + k \<le> length (br_buffer r1)"
      "\<forall>n \<le> k. reader_inv l (r1\<lparr>br_buffer_position := br_buffer_position r1 + n\<rparr>)"
      by blast
    have "k < n" using k(3) r1(3) Suc.prems(3) by simp
    then have "read_exact_loop fuel rd (n - k) (r1\<lparr>br_buffer_position := br_buffer_position r1 + k\<rparr>) s1 = Err BlobInsufficientLength"
      using Suc.IH [of "r1\<lparr>br_buffer_position := br_buffer_position r1 + k\<rparr>" s1 "n - k"] k r1 Suc.prems(3,4) by auto
    then show ?thesis using n r1(1) k(1,4) \<open>k < n\<close> by (simp add: Let_def min_absorb2)
  qed
qed

lemma read_exact_eq:
  assumes "reader_inv l r" "2 * length l \<le> u64_max"
  shows "read_exact rd n r s = (if br_buffer_valid_len r - br_buffer_position r + (length l - at_position r) < n
    then Err BlobInsufficientLength else read_exact_loop n rd n r s)"
proof -
  have "br_buffer_valid_len r - br_buffer_position r + (length l - at_position r) \<le> u64_max" "at_position r \<le> u64_max"
    using assms unfolding reader_inv_def by linarith+
  then show ?thesis using assms by (simp add: read_exact_def buffer_remaining_def blob_remaining_def reader_inv_def)
qed

lemma read_exact_ok:
  assumes r: "reader_inv l r" "view s = Some l" "at_position r + n \<le> length l" and m: "2 * length l \<le> u64_max"
  shows "\<exists>r' s'. read_exact rd n r s = Ok (slice (at_position r) n l, r', s') \<and> reader_inv l r'
    \<and> at_position r' = at_position r + n \<and> view s' = Some l \<and> frame s s'"
proof -
  have "\<not> br_buffer_valid_len r - br_buffer_position r + (length l - at_position r) < n" using r(3) by linarith
  then show ?thesis using read_exact_loop_ok [OF r order_refl] read_exact_eq [OF r(1) m] by simp
qed

lemma read_exact_short:
  assumes r: "reader_inv l r" "view s = Some l" "length l < at_position r + n" and m: "2 * length l \<le> u64_max"
  shows "read_exact rd n r s = Err BlobInsufficientLength"
  using read_exact_loop_short [OF r order_refl] read_exact_eq [OF r(1) m] by simp

end

section \<open>Append-only blobs are readable\<close>

definition append_rd :: "('w, 'h) store_ops \<Rightarrow> ('h append_blob \<times> pool_ref \<times> 'w) read_at" where
  "append_rd ops n off = (\<lambda>(ab, pr, w). and_then (append_read_at ops n off ab pr w) (\<lambda>(bs, pr). Ok (bs, ab, pr, w)))"

definition append_view :: "('w \<Rightarrow> 'h \<Rightarrow> bytes option) \<Rightarrow> ('w \<Rightarrow> bool) \<Rightarrow> 'h append_blob \<times> pool_ref \<times> 'w \<Rightarrow> bytes option" where
  "append_view content store_ok = (\<lambda>(ab, pr, w).
     case content w (ab_blob ab) of
       None \<Rightarrow> None
     | Some c \<Rightarrow> let l = tip_view c (ab_buffer ab)
         in if store_ok w \<and> append_inv c l ab pr \<and> length l \<le> u64_max then Some l else None)"

definition append_frame :: "'h append_blob \<times> pool_ref \<times> 'w \<Rightarrow> 'h append_blob \<times> pool_ref \<times> 'w \<Rightarrow> bool" where
  "append_frame = (\<lambda>(ab, pr, w) (ab', pr', w'). ab' = ab \<and> w' = w \<and> same_pool (ab_id ab) pr pr')"

lemma append_view_Some:
  "append_view content store_ok (ab, pr, w) = Some l \<longleftrightarrow>
    (\<exists>c. content w (ab_blob ab) = Some c \<and> store_ok w \<and> append_inv c l ab pr \<and> length l \<le> u64_max)"
  by (auto simp: append_view_def append_inv_def Let_def split: option.splits)

sublocale blob_store \<subseteq> append: readable "append_rd ops" "append_view content inv" append_frame
proof
  fix s l assume s: "append_view content inv s = Some l"
  obtain ab pr w where e: "s = (ab, pr, w)" by (cases s)
  then obtain c where c: "content w (ab_blob ab) = Some c" "inv w" "append_inv c l ab pr" "length l \<le> u64_max"
    using s by (auto simp: append_view_Some)
  show "length l \<le> u64_max" by (fact c)
  show "append_frame s s" using e c by (simp add: append_frame_def same_pool_def append_inv_def)
  fix off n assume "off + n \<le> length l"
  from append_read_at_ok [OF c(2,1,3) this c(4)] show
    "\<exists>s'. append_rd ops n off s = Ok (slice off n l, s') \<and> append_view content inv s' = Some l \<and> append_frame s s'"
    using e c by (auto simp: append_rd_def append_view_Some append_frame_def)
qed (auto simp: append_frame_def intro: same_pool_trans)

end
