(* ===== verification/Codec.thy ===== *)
theory Codec
  imports Prelude
begin

text \<open>
  The traits of the codec crate (\<open>codec/src/codec.rs\<close>, \<open>error.rs\<close>, \<open>util.rs\<close>, \<open>config.rs\<close>).

  A readable buffer (\<open>Buf\<close>) is the list of the bytes that are left in it, a writable one
  (\<open>BufMut\<close>) the list of the bytes written to it. Writing a value is a result, since the
  implementations for lengths panic on values beyond \<open>u32\<close>. The locale \<open>codec\<close> is the contract
  every implementation of \<open>Write\<close>, \<open>EncodeSize\<close> and \<open>Read\<close> keeps; what \<open>encode\<close> and
  \<open>decode_cfg\<close> promise is proved from it once.
\<close>

section \<open>Errors\<close>

datatype codec_error =
    EndOfBuffer
  | ExtraData nat
  | InvalidVarint nat
  | InvalidUsize
  | InvalidBool
  | InvalidEnum u8
  | InvalidLength nat
  | Invalid string string
  | Wrapped string

type_synonym 'a reader = "bytes \<Rightarrow> ('a \<times> bytes, codec_error) result"
type_synonym 'a writer = "'a \<Rightarrow> (bytes, codec_error) result"
type_synonym 'a sizer = "'a \<Rightarrow> (nat, codec_error) result"

section \<open>Buffers\<close>

definition at_least :: "bytes \<Rightarrow> nat \<Rightarrow> (unit, codec_error) result" where
  "at_least buf len = (if length buf < len then Err EndOfBuffer else Ok ())"

definition read_u8 :: "u8 reader" where
  "read_u8 buf = and_then (at_least buf 1)
     (\<lambda>_. case buf of [] \<Rightarrow> Panic | b # rest \<Rightarrow> Ok (b, rest))"

lemma read_u8_simps [simp]:
  "read_u8 [] = Err EndOfBuffer"
  "read_u8 (b # rest) = Ok (b, rest)"
  by (simp_all add: read_u8_def at_least_def)

fun ensure_zeros :: "bytes \<Rightarrow> nat \<Rightarrow> (bytes, codec_error) result" where
  "ensure_zeros buf 0 = Ok buf"
| "ensure_zeros buf (Suc n) = and_then (read_u8 buf)
     (\<lambda>(b, rest). if b \<noteq> 0 then Err (Invalid ''codec'' ''non-zero bytes'')
                  else ensure_zeros rest n)"

lemma ensure_zeros_Ok_iff:
  "ensure_zeros buf n = Ok rest \<longleftrightarrow> buf = replicate n 0 @ rest"
proof (induction buf n rule: ensure_zeros.induct)
  case (2 buf n)
  then show ?case by (cases buf) auto
qed auto

section \<open>Encoding and decoding whole values\<close>

definition encode :: "'a writer \<Rightarrow> 'a sizer \<Rightarrow> 'a writer" where
  "encode write_to encode_size x =
     and_then (encode_size x) (\<lambda>len.
     and_then (write_to x) (\<lambda>buffer.
       if length buffer = len then Ok buffer else Panic))"

definition decode_cfg :: "'a reader \<Rightarrow> bytes \<Rightarrow> ('a, codec_error) result" where
  "decode_cfg read_cfg buf =
     and_then (read_cfg buf) (\<lambda>(result, rest).
       let remaining = length rest
       in if 0 < remaining then Err (ExtraData remaining) else Ok result)"

definition encode_fixed :: "nat \<Rightarrow> 'a writer \<Rightarrow> nat \<Rightarrow> 'a writer" where
  "encode_fixed n write_to fixed_size x =
     (if n \<noteq> fixed_size then Panic
      else and_then (write_to x) (\<lambda>buf. if length buf = n then Ok buf else Panic))"

section \<open>Range configurations\<close>

datatype 'a bound = Included 'a | Excluded 'a | Unbounded

record 'a range_cfg =
  range_start :: "'a bound"
  range_end :: "'a bound"

definition range_exact :: "'a \<Rightarrow> 'a range_cfg" where
  "range_exact value = \<lparr>range_start = Included value, range_end = Included value\<rparr>"

definition range_contains :: "'a::linorder range_cfg \<Rightarrow> 'a \<Rightarrow> bool" where
  "range_contains cfg value =
     (if (case range_start cfg of
            Included s \<Rightarrow> value < s | Excluded s \<Rightarrow> value \<le> s | Unbounded \<Rightarrow> False)
      then False
      else if (case range_end cfg of
            Included e \<Rightarrow> value > e | Excluded e \<Rightarrow> value \<ge> e | Unbounded \<Rightarrow> False)
      then False
      else True)"

lemma range_exact_contains [simp]: "range_contains (range_exact v) x \<longleftrightarrow> x = v"
  by (auto simp: range_contains_def range_exact_def)

section \<open>The contract of a codec\<close>

text \<open>
  \<open>valid\<close> holds of the values an implementation can write and read back under its configuration.
  Reading is canonical: the only bytes that decode to a value are the ones writing it yields.
\<close>

locale codec =
  fixes write_to :: "'a writer" and read_cfg :: "'a reader"
    and encode_size :: "'a sizer" and valid :: "'a \<Rightarrow> bool"
  assumes write_valid: "valid x \<Longrightarrow> \<exists>bs. write_to x = Ok bs \<and> encode_size x = Ok (length bs)"
    and read_write: "valid x \<Longrightarrow> write_to x = Ok bs \<Longrightarrow> read_cfg (bs @ rest) = Ok (x, rest)"
    and read_canonical:
      "read_cfg buf = Ok (x, rest) \<Longrightarrow> valid x \<and> (\<exists>bs. write_to x = Ok bs \<and> buf = bs @ rest)"
    and read_no_panic: "read_cfg buf \<noteq> Panic"
begin

lemma encode_ok: "valid x \<Longrightarrow> encode write_to encode_size x = write_to x \<and> write_to x \<noteq> Panic"
  using write_valid [of x] by (auto simp: encode_def)

lemma decode_encode:
  assumes "valid x"
  shows "\<exists>bs. encode write_to encode_size x = Ok bs \<and> decode_cfg read_cfg bs = Ok x"
proof -
  from write_valid [OF assms] obtain bs where bs: "write_to x = Ok bs" "encode_size x = Ok (length bs)"
    by blast
  then have "read_cfg bs = Ok (x, [])" using read_write [OF assms bs(1), of "[]"] by simp
  with bs show ?thesis by (simp add: encode_def decode_cfg_def)
qed

lemma encode_decode:
  assumes "decode_cfg read_cfg bs = Ok x"
  shows "valid x \<and> encode write_to encode_size x = Ok bs"
proof -
  from assms have r: "read_cfg bs = Ok (x, [])"
    by (auto simp: decode_cfg_def result_simps Let_def split: if_splits)
  from read_canonical [OF r] have "valid x" "write_to x = Ok bs" by auto
  with write_valid [of x] show ?thesis by (auto simp: encode_def)
qed

lemma decode_iff_encode:
  "decode_cfg read_cfg bs = Ok x \<longleftrightarrow> valid x \<and> encode write_to encode_size x = Ok bs"
  using encode_decode decode_encode by fastforce

lemma encode_inj:
  assumes "valid x" "valid y" "encode write_to encode_size x = encode write_to encode_size y"
  shows "x = y"
  using decode_encode [OF assms(1)] decode_encode [OF assms(2)] assms(3) by auto

lemma encode_prefix_free:
  assumes "valid x" "valid y" "write_to x = Ok bs" "write_to y = Ok (bs @ cs)"
  shows "x = y \<and> cs = []"
  using read_write [OF assms(1,3), of cs] read_write [OF assms(2,4), of "[]"] by auto

lemma decode_extra:
  assumes "valid x" "write_to x = Ok bs" "cs \<noteq> []"
  shows "decode_cfg read_cfg (bs @ cs) = Err (ExtraData (length cs))"
  using read_write [OF assms(1,2), of cs] assms(3) by (simp add: decode_cfg_def)

lemma decode_no_panic: "decode_cfg read_cfg bs \<noteq> Panic"
  using read_no_panic [of bs] by (auto simp: decode_cfg_def result_simps Let_def)

end

interpretation u8: codec "\<lambda>b. Ok [b]" read_u8 "\<lambda>_. Ok 1" "\<lambda>_. True"
proof
  show "read_u8 buf = Ok (x, rest) \<Longrightarrow> True \<and> (\<exists>bs. Ok [x] = Ok bs \<and> buf = bs @ rest)"
    for buf x rest by (cases buf) auto
  show "read_u8 buf \<noteq> Panic" for buf by (cases buf) auto
qed auto

end
