(* ===== verification/Varint.thy ===== *)
theory Varint
  imports Codec
begin

text \<open>
  Variable-length integers (\<open>codec/src/varint.rs\<close>): the incremental \<open>Decoder\<close>, the writer, the
  reader and the size computation for unsigned integers, and the ZigZag mapping for signed ones.
  The unsigned integer type \<open>U\<close> is \<^typ>\<open>'a::len word\<close>; the code instantiates it with 16, 32, 64
  and 128 bits; the results hold for every width that is a whole number of bytes.
\<close>

section \<open>Definitions\<close>

definition BITS_PER_BYTE :: nat where "BITS_PER_BYTE = 8"
definition DATA_BITS_PER_BYTE :: nat where "DATA_BITS_PER_BYTE = 7"
definition DATA_BITS_MASK :: u8 where "DATA_BITS_MASK = 0x7F"
definition CONTINUATION_BIT_MASK :: u8 where "CONTINUATION_BIT_MASK = 0x80"

lemmas varint_consts =
  BITS_PER_BYTE_def DATA_BITS_PER_BYTE_def DATA_BITS_MASK_def CONTINUATION_BIT_MASK_def

record 'w decoder =
  decoder_result :: 'w
  bits_read :: nat

definition decoder_new :: "'a::len word decoder" where
  "decoder_new = \<lparr>decoder_result = 0, bits_read = 0\<rparr>"

text \<open>\<open>U::SIZE\<close>, in bytes.\<close>

definition prim_size :: "'a::len itself \<Rightarrow> nat" where
  "prim_size t = LENGTH('a) div 8"

definition feed ::
  "'a::len word decoder \<Rightarrow> u8 \<Rightarrow> ('a word option \<times> 'a word decoder, codec_error) result" where
  "feed d byte =
     (let max_bits = prim_size TYPE('a) * BITS_PER_BYTE in
      if byte = 0 \<and> bits_read d > 0 then Err (InvalidVarint (prim_size TYPE('a)))
      else if max_bits < bits_read d then Panic
      else
        let remaining_bits = max_bits - bits_read d;
            relevant_bits = BITS_PER_BYTE - leading_zeros byte in
        if remaining_bits \<le> DATA_BITS_PER_BYTE \<and> relevant_bits > remaining_bits
        then Err (InvalidVarint (prim_size TYPE('a)))
        else
          let r = decoder_result d OR push_bit (bits_read d) (ucast (byte AND DATA_BITS_MASK)) in
          if byte AND CONTINUATION_BIT_MASK = 0
          then Ok (Some r, d\<lparr>decoder_result := r\<rparr>)
          else Ok (None, d\<lparr>decoder_result := r, bits_read := bits_read d + DATA_BITS_PER_BYTE\<rparr>))"

text \<open>
  The loop of the writer, with the comparison against \<open>T::from(0x80)\<close> made on the value.
\<close>

function varint_write_loop :: "'a::len word \<Rightarrow> bytes" where
  "varint_write_loop val =
     (if unat CONTINUATION_BIT_MASK \<le> unat val
      then (ucast val OR CONTINUATION_BIT_MASK) # varint_write_loop (drop_bit 7 val)
      else [ucast val])"
  by pat_completeness auto
termination
proof (relation "measure unat")
  fix val :: "'a::len word"
  assume "unat CONTINUATION_BIT_MASK \<le> unat val"
  then show "(drop_bit 7 val, val) \<in> measure unat"
    using unat_drop_bit [of 7 val] by (simp add: varint_consts)
qed simp

declare varint_write_loop.simps [simp del]

definition varint_write :: "'a::len word \<Rightarrow> bytes" where
  "varint_write value =
     (if unat value < unat CONTINUATION_BIT_MASK then [ucast value] else varint_write_loop value)"

fun varint_read_loop :: "'a::len word decoder \<Rightarrow> 'a word reader" where
  "varint_read_loop d [] = and_then (read_u8 []) (\<lambda>_. Panic)"
| "varint_read_loop d (b # bs) =
     (case read_u8 (b # bs) of
        Ok (byte, buf) \<Rightarrow>
          (case feed d byte of
             Ok (Some value, _) \<Rightarrow> Ok (value, bs)
           | Ok (None, d') \<Rightarrow> varint_read_loop d' bs
           | Err e \<Rightarrow> Err e
           | Panic \<Rightarrow> Panic)
      | Err e \<Rightarrow> Err e
      | Panic \<Rightarrow> Panic)"

definition varint_read :: "'a::len word reader" where
  "varint_read buf = varint_read_loop decoder_new buf"

definition varint_size :: "'a::len word \<Rightarrow> nat" where
  "varint_size value =
     (let total_bits = prim_size TYPE('a) * 8;
          data_bits = total_bits - leading_zeros value
      in max 1 ((data_bits + DATA_BITS_PER_BYTE - 1) div DATA_BITS_PER_BYTE))"

text \<open>ZigZag: \<open>(self << 1) ^ (self >> shr)\<close>, the second shift arithmetic.\<close>

definition as_zigzag :: "'a::len word \<Rightarrow> 'a word" where
  "as_zigzag self = push_bit 1 self XOR signed_drop_bit (LENGTH('a) - 1) self"

definition un_zigzag :: "'a::len word \<Rightarrow> 'a word" where
  "un_zigzag value = drop_bit 1 value XOR (- (value AND 1))"

definition write_signed :: "'a::len word \<Rightarrow> bytes" where
  "write_signed value = varint_write (as_zigzag value)"

definition read_signed :: "'a::len word reader" where
  "read_signed buf = and_then (varint_read buf) (\<lambda>(v, rest). Ok (un_zigzag v, rest))"

definition size_signed :: "'a::len word \<Rightarrow> nat" where
  "size_signed value = varint_size (as_zigzag value)"

section \<open>The encoding as a numeral system\<close>

text \<open>Reference definitions on natural numbers: base-128 digits, least significant first.\<close>

function leb :: "nat \<Rightarrow> nat list" where
  "leb n = (if n < 128 then [n] else (n mod 128 + 128) # leb (n div 128))"
  by pat_completeness auto
termination by (relation "measure id") auto

declare leb.simps [simp del]

lemma leb_step: "0 < m \<Longrightarrow> c < 128 \<Longrightarrow> leb (c + m * 128) = (c + 128) # leb m"
  by (simp add: leb.simps [of "c + m * 128"])

lemma unat_ucast8 [word_nat]: "unat (ucast v :: u8) = unat v mod 256"
  by (simp add: unsigned_ucast_eq take_bit_eq_mod)

lemma unat_or_continuation: "unat (b OR 0x80 :: u8) = unat b mod 128 + 128"
proof -
  have "b OR 2 ^ 7 = take_bit 7 b OR push_bit 7 (word_of_nat 1)"
  proof (rule bit_word_eqI)
    fix n assume "n < LENGTH(8)"
    then have "n < 7 \<or> n = 7" by auto
    then show "bit (b OR 2 ^ 7) n = bit (take_bit 7 b OR push_bit 7 (word_of_nat 1)) n"
      by (auto simp: bit_or_iff bit_take_bit_iff bit_exp_iff bit_push_bit_iff bit_1_iff)
  qed
  moreover have "unat (take_bit 7 b) < 2 ^ 7" using unat_take_bit [of 7 b] by simp
  ultimately show ?thesis
    using unat_or_push_bit [of "take_bit 7 b" 7 1] unat_take_bit [of 7 b] by simp
qed

lemma map_unat_write_loop: "map unat (varint_write_loop v) = leb (unat v)"
proof (induction v rule: varint_write_loop.induct)
  case (1 v)
  show ?case
  proof (cases "unat v < 128")
    case True
    then show ?thesis
      by (simp add: varint_write_loop.simps [of v] leb.simps [of "unat v"] varint_consts word_nat)
  next
    case False
    then have "map unat (varint_write_loop (drop_bit 7 v)) = leb (unat v div 128)"
      using "1.IH" unat_drop_bit [of 7 v] by (simp add: varint_consts)
    then show ?thesis using False
      by (simp add: varint_write_loop.simps [of v] leb.simps [of "unat v"] varint_consts
          unat_or_continuation word_nat mod_mod_cancel)
  qed
qed

lemma varint_write_eq_loop: "varint_write v = varint_write_loop v"
  by (simp add: varint_write_def varint_write_loop.simps [of v] varint_consts)

lemma map_unat_write: "map unat (varint_write v) = leb (unat v)"
  by (simp add: varint_write_eq_loop map_unat_write_loop)

section \<open>The decoder\<close>

definition decoder_inv :: "'a::len word decoder \<Rightarrow> bool" where
  "decoder_inv d \<longleftrightarrow> unat (decoder_result d) < 2 ^ bits_read d \<and> bits_read d \<le> LENGTH('a)"

lemma decoder_inv_new: "decoder_inv decoder_new"
  by (simp add: decoder_inv_def decoder_new_def)

lemma unat_byte_split:
  "unat (b AND 0x7F) = unat b mod 128" "b AND 0x80 = 0 \<longleftrightarrow> unat b < 128" for b :: u8
proof -
  have "b AND 0x7F = take_bit 7 b" by (simp add: take_bit_eq_mask mask_eq_exp_minus_1)
  then show "unat (b AND 0x7F) = unat b mod 128" using unat_take_bit [of 7 b] by simp
  have b: "unat b < 256" using unsigned_less [where 'a = nat, of b] by simp
  have "b AND 0x80 = 0 \<longleftrightarrow> \<not> bit b 7"
    using and_exp_eq_0_iff_not_bit [of b 7] by simp
  also have "\<dots> \<longleftrightarrow> \<not> odd (unat b div 128)"
    using bit_unsigned_iff [where 'a = nat, of b 7] by (simp add: bit_iff_odd)
  also have "\<dots> \<longleftrightarrow> unat b < 128"
  proof (cases "unat b < 128")
    case False
    then have "unat b div 128 = 1" using b by (intro div_nat_eqI) auto
    with False show ?thesis by simp
  qed simp
  finally show "b AND 0x80 = 0 \<longleftrightarrow> unat b < 128" .
qed

lemma relevant_bits_gt:
  "k < BITS_PER_BYTE - leading_zeros b \<longleftrightarrow> 2 ^ k \<le> unat b" for b :: u8
proof
  assume "k < BITS_PER_BYTE - leading_zeros b"
  then have "b \<noteq> 0" "k \<le> 8 - leading_zeros b - 1"
    using leading_zeros_unique [of b 0] by (auto simp: BITS_PER_BYTE_def)
  then have "(2::nat) ^ k \<le> 2 ^ (8 - leading_zeros b - 1)" by (intro power_increasing) auto
  also have "\<dots> \<le> unat b" using unat_ge_leading_zeros [OF \<open>b \<noteq> 0\<close>] by simp
  finally show "2 ^ k \<le> unat b" .
next
  assume "2 ^ k \<le> unat b"
  also have "\<dots> < 2 ^ (8 - leading_zeros b)"
    using unat_less_leading_zeros [of b] by simp
  finally have "(2::nat) ^ k < 2 ^ (8 - leading_zeros b)" .
  then show "k < BITS_PER_BYTE - leading_zeros b"
    by (simp add: BITS_PER_BYTE_def)
qed

text \<open>One step of the decoder, read on natural numbers.\<close>

lemma feed_nat:
  fixes d :: "'a::len word decoder" and byte :: u8
  assumes "8 dvd LENGTH('a)" "decoder_inv d"
  defines "k \<equiv> bits_read d" and "b \<equiv> unat byte"
  shows "feed d byte =
    (if b = 0 \<and> 0 < k \<or> LENGTH('a) - k \<le> 7 \<and> 2 ^ (LENGTH('a) - k) \<le> b
     then Err (InvalidVarint (LENGTH('a) div 8))
     else let r = word_of_nat (unat (decoder_result d) + b mod 128 * 2 ^ k) in
       if b < 128 then Ok (Some r, d\<lparr>decoder_result := r\<rparr>)
       else Ok (None, \<lparr>decoder_result = r, bits_read = k + 7\<rparr>))"
proof -
  let ?m = "byte AND DATA_BITS_MASK"
  have inv: "unat (decoder_result d) < 2 ^ k" "k \<le> LENGTH('a)"
    using assms(2) by (simp_all add: decoder_inv_def k_def)
  have max: "prim_size TYPE('a) * BITS_PER_BYTE = LENGTH('a)"
    using assms(1) by (simp add: prim_size_def BITS_PER_BYTE_def)
  have r: "decoder_result d OR push_bit k (ucast ?m)
      = word_of_nat (unat (decoder_result d) + b mod 128 * 2 ^ k)"
    if fits: "\<not> (LENGTH('a) - k \<le> 7 \<and> 2 ^ (LENGTH('a) - k) \<le> b)"
  proof -
    have "b mod 128 < 2 ^ (LENGTH('a) - k)"
    proof (cases "LENGTH('a) - k \<le> 7")
      case True
      with fits show ?thesis using mod_less_eq_dividend [of b 128] by simp
    next
      case False
      then have "(2::nat) ^ 7 \<le> 2 ^ (LENGTH('a) - k)" by (intro power_increasing) auto
      moreover have "b mod 128 < 2 ^ 7" by simp
      ultimately show ?thesis by linarith
    qed
    then have "(b mod 128 + 1) * 2 ^ k \<le> 2 ^ (LENGTH('a) - k) * 2 ^ k" by (intro mult_right_mono) auto
    then have "b mod 128 * 2 ^ k + unat (decoder_result d) < 2 ^ LENGTH('a)"
      using inv by (simp add: power_add [symmetric])
    then have "unat (decoder_result d OR push_bit k (word_of_nat (b mod 128)))
        = unat (decoder_result d) + b mod 128 * 2 ^ k"
      by (rule unat_or_push_bit [OF inv(1)])
    from arg_cong [OF this, of "word_of_nat :: nat \<Rightarrow> 'a word"]
    have "decoder_result d OR push_bit k (word_of_nat (b mod 128))
        = word_of_nat (unat (decoder_result d) + b mod 128 * 2 ^ k)"
      by (simp only: of_nat_unat ucast_id)
    moreover have "ucast ?m = (word_of_nat (b mod 128) :: 'a word)"
      unfolding DATA_BITS_MASK_def b_def unat_byte_split(1) [symmetric]
      by (rule of_nat_unat [symmetric])
    ultimately show ?thesis by (simp only:)
  qed
  have zero: "byte = 0 \<longleftrightarrow> b = 0" by (simp add: b_def unat_eq_0)
  have cont: "byte AND CONTINUATION_BIT_MASK = 0 \<longleftrightarrow> b < 128"
    by (simp add: CONTINUATION_BIT_MASK_def unat_byte_split(2) b_def)
  note unfold = feed_def Let_def max zero cont relevant_bits_gt k_def [symmetric] b_def [symmetric]
    DATA_BITS_PER_BYTE_def
  have n: "(LENGTH('a) < k) = False" using inv(2) by simp
  have upd: "d\<lparr>decoder_result := x, bits_read := y\<rparr> = \<lparr>decoder_result = x, bits_read = y\<rparr>"
    for x y by (cases d) simp
  let ?A = "b = 0 \<and> 0 < k" and ?B = "LENGTH('a) - k \<le> 7 \<and> 2 ^ (LENGTH('a) - k) \<le> b"
  consider "?A = True" | "?A = False" "?B = True" | "?A = False" "?B = False" by blast
  then show ?thesis
  proof cases
    case 3
    then have "decoder_result d OR push_bit k (ucast ?m)
        = word_of_nat (unat (decoder_result d) + b mod 128 * 2 ^ k)" by (intro r) simp
    then show ?thesis by (simp only: unfold 3 n if_False) (simp only: 3 upd if_False simp_thms)
  next
    case 2
    then show ?thesis by (simp only: unfold n if_True if_False simp_thms) (simp only: prim_size_def)
  qed (simp only: unfold n if_True if_False simp_thms, simp only: prim_size_def)
qed

section \<open>Reading back what was written\<close>

lemma decoder_inv_step:
  fixes d :: "'a::len word decoder"
  assumes "decoder_inv d" "128 \<le> b" "b < 256"
    "\<not> (LENGTH('a) - bits_read d \<le> 7 \<and> 2 ^ (LENGTH('a) - bits_read d) \<le> b)"
  defines "r \<equiv> unat (decoder_result d) + b mod 128 * 2 ^ bits_read d"
  shows "bits_read d + 7 < LENGTH('a)" "r < 2 ^ (bits_read d + 7)"
    "unat (word_of_nat r :: 'a word) = r"
proof -
  have rem: "7 < LENGTH('a) - bits_read d"
  proof (rule ccontr)
    assume "\<not> ?thesis"
    then have "(2::nat) ^ (LENGTH('a) - bits_read d) \<le> 2 ^ 7" by (intro power_increasing) auto
    with assms(2,4) \<open>\<not> ?thesis\<close> show False by auto
  qed
  then show k: "bits_read d + 7 < LENGTH('a)" by linarith
  have "r < (b mod 128 + 1) * 2 ^ bits_read d"
    using assms(1) by (simp add: decoder_inv_def r_def)
  also have "\<dots> \<le> 2 ^ 7 * 2 ^ bits_read d" by (rule mult_right_mono) (simp_all add: Suc_leI)
  also have "\<dots> = 2 ^ (bits_read d + 7)" by (simp add: power_add)
  finally show r: "r < 2 ^ (bits_read d + 7)" .
  also have "(2::nat) ^ (bits_read d + 7) \<le> 2 ^ LENGTH('a)" using k by (intro power_increasing) auto
  finally show "unat (word_of_nat r :: 'a word) = r"
    by (simp add: unat_of_nat)
qed

lemma varint_read_loop_leb:
  fixes d :: "'a::len word decoder"
  assumes "8 dvd LENGTH('a)" "decoder_inv d" "0 < bits_read d \<Longrightarrow> 0 < m"
    "unat (decoder_result d) + m * 2 ^ bits_read d < 2 ^ LENGTH('a)"
  shows "varint_read_loop d (map word_of_nat (leb m) @ rest)
    = Ok (word_of_nat (unat (decoder_result d) + m * 2 ^ bits_read d), rest)"
  using assms(2-)
proof (induction m arbitrary: d rule: leb.induct)
  case (1 m)
  define k where "k = bits_read d"
  have k: "k \<le> LENGTH('a)" using "1.prems"(1) by (simp add: decoder_inv_def k_def)
  have "m * 2 ^ k < 2 ^ (LENGTH('a) - k) * 2 ^ k"
    using "1.prems"(3) k by (simp add: k_def flip: power_add)
  then have m: "m < 2 ^ (LENGTH('a) - k)" by simp
  show ?case
  proof (cases "m < 128")
    case True
    have "unat (word_of_nat m :: u8) = m" using True by (simp add: unat_of_nat)
    moreover have "\<not> (m = 0 \<and> 0 < k)" using "1.prems"(2) by (auto simp: k_def)
    ultimately have "feed d (word_of_nat m) = Ok (Some (word_of_nat (unat (decoder_result d) + m * 2 ^ k)),
        d\<lparr>decoder_result := word_of_nat (unat (decoder_result d) + m * 2 ^ k)\<rparr>)"
      using feed_nat [OF assms(1) "1.prems"(1), of "word_of_nat m"] m True
      by (simp add: k_def Let_def)
    with True show ?thesis by (simp add: leb.simps [of m] k_def)
  next
    case False
    let ?b = "m mod 128 + 128" and ?r = "unat (decoder_result d) + m mod 128 * 2 ^ k"
    define byte :: u8 where "byte = word_of_nat ?b"
    have b: "unat byte = ?b" unfolding byte_def by (rule unat_of_nat_less) simp
    have fits: "\<not> (LENGTH('a) - k \<le> 7 \<and> 2 ^ (LENGTH('a) - k) \<le> ?b)"
    proof
      assume "LENGTH('a) - k \<le> 7 \<and> 2 ^ (LENGTH('a) - k) \<le> ?b"
      then have "(2::nat) ^ (LENGTH('a) - k) \<le> 2 ^ 7" by (intro power_increasing) auto
      with m False show False by simp
    qed
    let ?d = "\<lparr>decoder_result = word_of_nat ?r, bits_read = k + 7\<rparr> :: 'a word decoder"
    have f: "feed d byte = Ok (None, ?d)"
      using feed_nat [OF assms(1) "1.prems"(1), of byte] fits
      by (simp add: b k_def Let_def)
    note st = decoder_inv_step [OF "1.prems"(1), of ?b, folded k_def]
    have u: "unat (word_of_nat ?r :: 'a word) = ?r" and inv: "decoder_inv ?d"
      using st fits by (auto simp: decoder_inv_def)
    have val: "?r + m div 128 * 2 ^ (k + 7) = unat (decoder_result d) + m * 2 ^ k"
    proof -
      have "m mod 128 * 2 ^ k + m div 128 * 2 ^ (k + 7) = (m mod 128 + m div 128 * 128) * 2 ^ k"
        by (simp only: power_add add_mult_distrib) simp
      then show ?thesis by (simp only: add.assoc mod_div_mult_eq)
    qed
    have "varint_read_loop ?d (map word_of_nat (leb (m div 128)) @ rest)
        = Ok (word_of_nat (unat (decoder_result ?d) + m div 128 * 2 ^ bits_read ?d), rest)"
    proof (rule "1.IH" [OF False inv])
      show "0 < m div 128" using False by simp
      show "unat (decoder_result ?d) + m div 128 * 2 ^ bits_read ?d < 2 ^ LENGTH('a)"
        using val "1.prems"(3) by (simp only: u decoder.simps k_def [symmetric])
    qed
    then have "varint_read_loop ?d (map word_of_nat (leb (m div 128)) @ rest)
        = Ok (word_of_nat (unat (decoder_result d) + m * 2 ^ k), rest)"
      using val by (simp only: u decoder.simps)
    moreover have "map word_of_nat (leb m) = byte # map word_of_nat (leb (m div 128))"
      using False by (simp only: leb.simps [of m] if_False list.map byte_def)
    ultimately show ?thesis using f by (simp add: k_def)
  qed
qed

lemma varint_write_leb: "varint_write x = map word_of_nat (leb (unat x))"
proof -
  have "map word_of_nat (map unat (varint_write x)) = varint_write x"
    by (simp add: map_idI)
  then show ?thesis by (simp add: map_unat_write)
qed

lemma varint_read_write:
  fixes x :: "'a::len word"
  assumes "8 dvd LENGTH('a)"
  shows "varint_read (varint_write x @ rest) = Ok (x, rest)"
  using varint_read_loop_leb [OF assms decoder_inv_new, of "unat x" rest]
  by (simp add: varint_read_def varint_write_leb decoder_new_def)

section \<open>Only what was written is read\<close>

lemma varint_read_loop_Ok:
  fixes d :: "'a::len word decoder"
  assumes "8 dvd LENGTH('a)" "decoder_inv d" "varint_read_loop d bs = Ok (x, rest)"
  shows "\<exists>m. (0 < bits_read d \<longrightarrow> 0 < m)
    \<and> unat x = unat (decoder_result d) + m * 2 ^ bits_read d
    \<and> bs = map word_of_nat (leb m) @ rest"
  using assms(2-)
proof (induction bs arbitrary: d)
  case (Cons byte bs)
  define k b where "k = bits_read d" and "b = unat byte"
  have b: "b < 256" "byte = word_of_nat b"
    using unsigned_less [where 'a = nat, of byte] by (simp_all add: b_def)
  note f = feed_nat [OF assms(1) Cons.prems(1), of byte, folded b_def k_def]
  have nerr: "\<not> (b = 0 \<and> 0 < k \<or> LENGTH('a) - k \<le> 7 \<and> 2 ^ (LENGTH('a) - k) \<le> b)"
    using Cons.prems(2) f by (auto split: if_splits)
  show ?case
  proof (cases "b < 128")
    case True
    have k: "k \<le> LENGTH('a)" "unat (decoder_result d) < 2 ^ k"
      using Cons.prems(1) by (simp_all add: decoder_inv_def k_def)
    have "b < 2 ^ (LENGTH('a) - k)"
    proof (cases "LENGTH('a) - k \<le> 7")
      case False
      then have "(2::nat) ^ 7 \<le> 2 ^ (LENGTH('a) - k)" by (intro power_increasing) auto
      with \<open>b < 128\<close> show ?thesis by simp
    qed (use nerr in auto)
    then have "(b + 1) * 2 ^ k \<le> 2 ^ (LENGTH('a) - k) * 2 ^ k" by (intro mult_right_mono) auto
    then have "unat (decoder_result d) + b * 2 ^ k < 2 ^ LENGTH('a)"
      using k by (simp add: power_add [symmetric])
    then have "unat (word_of_nat (unat (decoder_result d) + b * 2 ^ k) :: 'a word)
        = unat (decoder_result d) + b * 2 ^ k" by (rule unat_of_nat_less)
    moreover have "x = word_of_nat (unat (decoder_result d) + b * 2 ^ k)" "rest = bs"
      using Cons.prems(2) f nerr True by (simp_all add: Let_def)
    ultimately show ?thesis
      using True nerr b(2) by (intro exI [of _ b]) (auto simp: leb.simps [of b] k_def)
  next
    case False
    let ?r = "unat (decoder_result d) + b mod 128 * 2 ^ k"
    let ?d = "\<lparr>decoder_result = word_of_nat ?r, bits_read = k + 7\<rparr> :: 'a word decoder"
    have fd: "feed d byte = Ok (None, ?d)" using f nerr False by (simp add: Let_def)
    note st = decoder_inv_step [OF Cons.prems(1), of b, folded k_def]
    have u: "unat (word_of_nat ?r :: 'a word) = ?r" and inv: "decoder_inv ?d"
      using st nerr False b(1) by (auto simp: decoder_inv_def)
    have pos: "(0 < k + 7) = True" by simp
    have "varint_read_loop ?d bs = Ok (x, rest)" using Cons.prems(2) fd by simp
    from Cons.IH [OF inv this] obtain m where m: "0 < m" "unat x = ?r + m * 2 ^ (k + 7)"
        "bs = map word_of_nat (leb m) @ rest" by (auto simp only: u decoder.simps pos simp_thms)
    let ?m = "b mod 128 + m * 128"
    have "b mod 128 + 128 = b" using le_mod_geq [of 128 b] False b(1) by simp
    then have "leb ?m = b # leb m" using leb_step [OF m(1), of "b mod 128"] by simp
    moreover have "unat x = unat (decoder_result d) + ?m * 2 ^ k"
      using m(2) by (simp add: power_add algebra_simps)
    ultimately show ?thesis
      using m(1,3) b(2) by (intro exI [of _ ?m]) (auto simp: k_def)
  qed
qed simp

lemma varint_read_canonical:
  fixes x :: "'a::len word"
  assumes "8 dvd LENGTH('a)" "varint_read buf = Ok (x, rest)"
  shows "buf = varint_write x @ rest"
  using varint_read_loop_Ok [OF assms(1) decoder_inv_new] assms(2)
  by (auto simp: varint_read_def decoder_new_def varint_write_leb)

lemma varint_read_loop_no_panic:
  fixes d :: "'a::len word decoder"
  assumes "8 dvd LENGTH('a)" "decoder_inv d"
  shows "varint_read_loop d bs \<noteq> Panic"
  using assms(2)
proof (induction bs arbitrary: d)
  case (Cons byte bs)
  define k b where "k = bits_read d" and "b = unat byte"
  have b: "b < 256" using unsigned_less [where 'a = nat, of byte] by (simp add: b_def)
  note f = feed_nat [OF assms(1) Cons.prems, of byte, folded b_def k_def]
  show ?case
  proof (cases "b < 128 \<or> b = 0 \<and> 0 < k \<or> LENGTH('a) - k \<le> 7 \<and> 2 ^ (LENGTH('a) - k) \<le> b")
    case False
    then have "decoder_inv (\<lparr>decoder_result = word_of_nat (unat (decoder_result d) + b mod 128 * 2 ^ k),
        bits_read = k + 7\<rparr> :: 'a word decoder)"
      using decoder_inv_step [OF Cons.prems, of b, folded k_def] b by (auto simp: decoder_inv_def)
    from Cons.IH [OF this] False show ?thesis by (simp add: f Let_def)
  qed (auto simp: f Let_def)
qed simp

section \<open>Sizes\<close>

lemma length_leb: "0 < k \<Longrightarrow> n < 2 ^ k \<Longrightarrow> 2 ^ (k - 1) \<le> n \<Longrightarrow> length (leb n) = (k + 6) div 7"
proof (induction n arbitrary: k rule: leb.induct)
  case (1 n)
  show ?case
  proof (cases "n < 128")
    case True
    then have "(2::nat) ^ (k - 1) < 2 ^ 7" using "1.prems"(3) by simp
    then have "k - 1 < 7" by (rule power_less_imp_less_exp [rotated]) simp
    then have "(k + 6) div 7 = 1" using "1.prems"(1) by (intro div_nat_eqI) auto
    with True show ?thesis by (simp add: leb.simps [of n])
  next
    case False
    then have "(2::nat) ^ 7 < 2 ^ k" using "1.prems"(2) by simp
    then have k: "7 < k" by (rule power_less_imp_less_exp [rotated]) simp
    have e: "(2::nat) ^ k = 2 ^ (k - 7) * 128" "(2::nat) ^ (k - 1) = 2 ^ (k - 7 - 1) * 128"
      using k power_add [of "2::nat" "k - 7" 7] power_add [of "2::nat" "k - 7 - 1" 7]
      by simp_all
    have "n div 128 < 2 ^ (k - 7)" using "1.prems"(2) e(1) by (simp add: less_mult_imp_div_less)
    moreover have "2 ^ (k - 7 - 1) \<le> n div 128"
      using "1.prems"(3) e(2) by (simp add: less_eq_div_iff_mult_less_eq)
    ultimately have "length (leb (n div 128)) = (k - 7 + 6) div 7"
      using "1.IH" [of "k - 7"] False k by simp
    moreover have "(k + 6) div 7 = Suc ((k - 7 + 6) div 7)"
      using k div_add_self1 [of 7 "k - 7 + 6"] by simp
    ultimately show ?thesis using False by (simp add: leb.simps [of n])
  qed
qed

lemma length_varint_write:
  fixes x :: "'a::len word"
  assumes "8 dvd LENGTH('a)"
  shows "varint_size x = length (varint_write x)"
proof -
  let ?k = "LENGTH('a) - leading_zeros x"
  have s: "prim_size TYPE('a) * 8 = LENGTH('a)" using assms by (simp add: prim_size_def)
  show ?thesis
  proof (cases "x = 0")
    case True
    then have "?k = 0" using leading_zeros_unique [of x 0] by simp
    then show ?thesis using True
      by (simp add: varint_size_def s DATA_BITS_PER_BYTE_def varint_write_leb leb.simps [of 0])
  next
    case False
    then have k: "0 < ?k" using unat_less_leading_zeros [of x] by (cases ?k) (auto simp: unat_eq_0)
    then have "length (leb (unat x)) = (?k + 6) div 7"
      by (rule length_leb) (use unat_less_leading_zeros unat_ge_leading_zeros [OF False] in auto)
    moreover have "1 \<le> (?k + 6) div 7" using k by (simp add: div_greater_zero_iff Suc_le_eq)
    ultimately show ?thesis
      by (simp add: varint_size_def s DATA_BITS_PER_BYTE_def varint_write_leb Let_def)
  qed
qed

section \<open>ZigZag\<close>

lemma bit_push_bit_1:
  "n < LENGTH('a) \<Longrightarrow> bit (push_bit 1 x) n \<longleftrightarrow> 0 < n \<and> bit x (n - 1)" for x :: "'a::len word"
  unfolding bit_push_bit_iff by auto

lemma bit_as_zigzag:
  fixes x :: "'a::len word"
  assumes "n < LENGTH('a)"
  shows "bit (as_zigzag x) n \<longleftrightarrow> ((0 < n \<and> bit x (n - 1)) \<noteq> bit x (LENGTH('a) - 1))"
proof -
  have "bit (signed_drop_bit (LENGTH('a) - 1) x) n = bit x (LENGTH('a) - 1)"
    using assms by (cases n) (auto simp: bit_signed_drop_bit_iff)
  moreover have "bit (push_bit 1 x) n \<longleftrightarrow> 0 < n \<and> bit x (n - 1)"
    using assms by (rule bit_push_bit_1)
  ultimately show ?thesis by (simp only: as_zigzag_def bit_xor_iff)
qed

lemma bit_un_zigzag:
  fixes v :: "'a::len word"
  assumes n: "n < LENGTH('a)"
  shows "bit (un_zigzag v) n \<longleftrightarrow> ((Suc n < LENGTH('a) \<and> bit v (Suc n)) \<noteq> bit v 0)"
proof -
  have "bit (- (v AND 1)) n \<longleftrightarrow> bit v 0"
    using n by (cases "odd v") (auto simp: and_one_eq odd_iff_mod_2_eq_one bit_0 even_iff_mod_2_eq_zero)
  moreover have "bit (drop_bit 1 v) n \<longleftrightarrow> Suc n < LENGTH('a) \<and> bit v (Suc n)"
    using n bit_imp_le_length [of v "Suc n"] by (auto simp: bit_drop_bit_eq)
  ultimately show ?thesis by (simp only: un_zigzag_def bit_xor_iff)
qed

lemma un_zigzag_as_zigzag [simp]: "un_zigzag (as_zigzag x) = x"
proof (rule bit_word_eqI)
  fix n assume n: "n < LENGTH('a)"
  show "bit (un_zigzag (as_zigzag x)) n = bit (x :: 'a::len word) n"
  proof (cases "Suc n < LENGTH('a)")
    case True
    with n show ?thesis by (auto simp: bit_un_zigzag bit_as_zigzag)
  next
    case False
    with n have "LENGTH('a) - 1 = n" by linarith
    with n show ?thesis by (auto simp: bit_un_zigzag bit_as_zigzag)
  qed
qed

lemma as_zigzag_un_zigzag [simp]: "as_zigzag (un_zigzag v) = v"
proof (rule bit_word_eqI)
  fix n assume n: "n < LENGTH('a)"
  have "bit (un_zigzag v) (LENGTH('a) - 1) = bit v 0" by (simp add: bit_un_zigzag)
  then show "bit (as_zigzag (un_zigzag v)) n = bit (v :: 'a::len word) n"
    using n by (cases n) (auto simp: bit_un_zigzag bit_as_zigzag)
qed

text \<open>The value: \<open>0, -1, 1, -2, ...\<close> are mapped to \<open>0, 1, 2, 3, ...\<close>.\<close>

lemma as_zigzag_value:
  fixes x :: "'a::len word"
  shows "uint (as_zigzag x) = (if 0 \<le> sint x then 2 * sint x else - 2 * sint x - 1)"
proof -
  let ?i = "if 0 \<le> sint x then 2 * sint x else - 2 * sint x - 1"
  have p: "(2::int) ^ LENGTH('a) = 2 * 2 ^ (LENGTH('a) - 1)"
    by (simp flip: power_Suc)
  have neg: "bit x (LENGTH('a) - 1) \<longleftrightarrow> sint x < 0" by (simp add: bit_last_iff)
  have two: "push_bit 1 x = word_of_int (2 * sint x)" by (simp add: mult.commute)
  have "as_zigzag x = word_of_int ?i"
  proof (cases "sint x < 0")
    case True
    have "as_zigzag x = NOT (push_bit 1 x)"
      by (rule bit_word_eqI) (use neg True in \<open>simp only: bit_as_zigzag bit_not_iff bit_push_bit_1\<close>, auto)
    then show ?thesis using True by (simp add: two not_eq_complement)
  next
    case False
    have "as_zigzag x = push_bit 1 x"
      by (rule bit_word_eqI) (use neg False in \<open>simp only: bit_as_zigzag bit_push_bit_1 simp_thms\<close>)
    then show ?thesis using False by (simp only: two not_less if_True)
  qed
  moreover have "0 \<le> ?i" "?i < 2 ^ LENGTH('a)"
    using sint_lt [of x] sint_ge [of x] unfolding p by auto
  ultimately show ?thesis by (simp only: uint_word_of_int mod_pos_pos_trivial)
qed

section \<open>Varints as codecs\<close>

lemma varint_codec:
  assumes "8 dvd LENGTH('a::len)"
  shows "codec (\<lambda>x :: 'a word. Ok (varint_write x)) varint_read (\<lambda>x. Ok (varint_size x)) (\<lambda>_. True)"
proof
  show "varint_read (buf :: bytes) \<noteq> (Panic :: ('a word \<times> bytes, codec_error) result)" for buf
    unfolding varint_read_def by (rule varint_read_loop_no_panic [OF assms decoder_inv_new])
qed (use varint_read_write [OF assms] varint_read_canonical [OF assms] length_varint_write [OF assms]
     in auto)

lemma varint_signed_codec:
  assumes "8 dvd LENGTH('a::len)"
  shows "codec (\<lambda>x :: 'a word. Ok (write_signed x)) read_signed (\<lambda>x. Ok (size_signed x)) (\<lambda>_. True)"
proof
  show "read_signed (buf :: bytes) \<noteq> (Panic :: ('a word \<times> bytes, codec_error) result)" for buf
    using codec.read_no_panic [OF varint_codec [OF assms]]
    by (auto simp: read_signed_def result_simps)
qed (use varint_read_write [OF assms] varint_read_canonical [OF assms] length_varint_write [OF assms]
     in \<open>auto simp: write_signed_def read_signed_def size_signed_def result_simps\<close>)

interpretation varint_u16: codec "\<lambda>x :: u16. Ok (varint_write x)" varint_read "\<lambda>x. Ok (varint_size x)" "\<lambda>_. True"
  by (rule varint_codec) simp

interpretation varint_u32: codec "\<lambda>x :: u32. Ok (varint_write x)" varint_read "\<lambda>x. Ok (varint_size x)" "\<lambda>_. True"
  by (rule varint_codec) simp

interpretation varint_u64: codec "\<lambda>x :: u64. Ok (varint_write x)" varint_read "\<lambda>x. Ok (varint_size x)" "\<lambda>_. True"
  by (rule varint_codec) simp

interpretation varint_u128: codec "\<lambda>x :: 128 word. Ok (varint_write x)" varint_read "\<lambda>x. Ok (varint_size x)" "\<lambda>_. True"
  by (rule varint_codec) simp

section \<open>Properties\<close>

text \<open>
  C7. Decoding a varint of any width that is a whole number of bytes succeeds on exactly one byte
  string per value, the one \<open>write\<close> produces: the round trip holds, and every over-long, truncated or
  overflowing encoding, and every encoding followed by extra bytes, is rejected.
\<close>

theorem varint_decode_iff:
  fixes x :: "'a::len word"
  assumes "8 dvd LENGTH('a)"
  shows "decode_cfg varint_read bs = Ok x \<longleftrightarrow> bs = varint_write x"
  using codec.decode_iff_encode [OF varint_codec [OF assms], of bs x] length_varint_write [OF assms, of x]
  by (auto simp: encode_def)

theorem varint_decode_iff_witness:
  "decode_cfg varint_read [0xAC, 0x02] = Ok (300 :: u32)
   \<and> decode_cfg varint_read [0xAC, 0x82, 0x00] \<noteq> Ok (300 :: u32)"
proof -
  have w: "varint_write (300 :: u32) = [0xAC, 0x02]" by code_simp
  show ?thesis using varint_decode_iff [of "[0xAC, 0x02]" "300 :: u32"]
      varint_decode_iff [of "[0xAC, 0x82, 0x00]" "300 :: u32"] by (simp add: w)
qed

text \<open>
  C27. Writing takes exactly the number of bytes \<open>size\<close> announces, at most one per seven bits of the
  type, and equals the little-endian base-128 expansion of the value; reading never panics and
  consumes no more than it needs, whatever the buffer holds.
\<close>

theorem varint_size_and_total:
  fixes x :: "'a::len word"
  assumes "8 dvd LENGTH('a)"
  shows "length (varint_write x) = varint_size x
    \<and> varint_size x \<le> (LENGTH('a) + 6) div 7
    \<and> varint_write x = map word_of_nat (leb (unat x))
    \<and> varint_read (varint_write x @ rest) = Ok (x, rest)
    \<and> varint_read buf \<noteq> (Panic :: ('a word \<times> bytes, codec_error) result)"
proof -
  have s: "prim_size TYPE('a) * 8 = LENGTH('a)" using assms by (simp add: prim_size_def)
  have "varint_size x \<le> (LENGTH('a) + 6) div 7"
    using len_gt_0 [where 'a = 'a] unfolding varint_size_def s DATA_BITS_PER_BYTE_def Let_def
    by (auto intro!: div_le_mono simp: div_greater_zero_iff Suc_le_eq)
  then show ?thesis
    using length_varint_write [OF assms] varint_write_leb varint_read_write [OF assms]
      codec.read_no_panic [OF varint_codec [OF assms]] by auto
qed

theorem varint_size_and_total_witness:
  "varint_size (300 :: u32) = 2 \<and> varint_read [0xAC, 0x02, 0x07] = Ok (300 :: u32, [0x07])"
proof -
  have w: "varint_write (300 :: u32) = [0xAC, 0x02]" by code_simp
  show ?thesis using varint_size_and_total [of "300 :: u32" "[0x07]" "[]"] unfolding w by simp
qed

text \<open>
  C28. The ZigZag map is a bijection of the words of any width: a non-negative signed value \<open>n\<close> is sent
  to \<open>2n\<close> and a negative one to \<open>-2n - 1\<close>, and each direction undoes the other.
\<close>

theorem zigzag_bijection:
  fixes x v :: "'a::len word"
  shows "uint (as_zigzag x) = (if 0 \<le> sint x then 2 * sint x else - 2 * sint x - 1)
    \<and> un_zigzag (as_zigzag x) = x \<and> as_zigzag (un_zigzag v) = v"
  by (simp add: as_zigzag_value)

text \<open>
  C29. Signed varints: decoding succeeds on exactly the bytes that \<open>write\<close> gives for a value.
\<close>

theorem signed_decode_iff:
  fixes x :: "'a::len word"
  assumes "8 dvd LENGTH('a)"
  shows "decode_cfg read_signed bs = Ok x \<longleftrightarrow> bs = write_signed x"
  using codec.decode_iff_encode [OF varint_signed_codec [OF assms], of bs x]
    length_varint_write [OF assms, of "as_zigzag x"]
  by (auto simp: encode_def write_signed_def size_signed_def)

theorem signed_decode_iff_witness: "decode_cfg read_signed [0x03] = Ok (- 2 :: u32)"
proof -
  have w: "write_signed (- 2 :: u32) = [0x03]" by code_simp
  show ?thesis using signed_decode_iff [of "[0x03]" "- 2 :: u32"] by (simp add: w)
qed

end
