(* ===== verification/Journal_Item.thy ===== *)
theory Journal_Item
  imports Blob_Read Varint
begin

text \<open>
  Items of the segmented journal (\<open>storage/src/journal/segmented/variable.rs\<close>): how one item is laid out
  in the blob of its section and how it is read back, directly (\<open>read\<close>) and through the buffered reader
  during a replay (\<open>read_buffered\<close>). The checksum and the compression are third-party code and
  appear as fields of the configuration: \<open>jc_crc\<close> is \<open>crc32fast\<close> (a hasher fed in pieces hashes their
  concatenation), \<open>jc_compress\<close> and \<open>jc_decompress\<close> are \<open>zstd\<close>.
\<close>

section \<open>Errors and configuration\<close>

datatype journal_error =
    Mmr
  | JournalError
  | Runtime rt_error
  | CodecError codec_error
  | InvalidBlobName bytes
  | InvalidBlobSize nat nat
  | ChecksumMismatch u32 u32
  | ItemTooLarge nat
  | AlreadyPrunedToSection nat
  | SectionOutOfRange nat
  | UsizeTooSmall
  | JOffsetOverflow
  | UnexpectedSize nat nat
  | MissingBlob nat
  | ItemOutOfRange nat
  | ItemPruned nat
  | InvalidRewind nat
  | CompressionFailed
  | DecompressionFailed
  | Corruption string
  | InvalidConfiguration string

record 'v journal_cfg =
  jc_compression :: "nat option"
  jc_write :: "'v writer"
  jc_size :: "'v sizer"
  jc_read :: "'v reader"
  jc_write_buffer :: nat
  jc_crc :: "bytes \<Rightarrow> u32"
  jc_compress :: "bytes \<Rightarrow> nat \<Rightarrow> bytes option"
  jc_decompress :: "bytes \<Rightarrow> bytes option"

definition ITEM_ALIGNMENT :: nat where "ITEM_ALIGNMENT = 16"

definition MIN_ITEM_SIZE :: nat where "MIN_ITEM_SIZE = 5"

definition u32_max :: nat where "u32_max = 2 ^ 32 - 1"

definition checked_add :: "nat \<Rightarrow> nat \<Rightarrow> (nat, journal_error) result" where
  "checked_add a b = (if a + b \<le> u64_max then Ok (a + b) else Err JOffsetOverflow)"

definition compute_next_offset :: "nat \<Rightarrow> (nat, journal_error) result" where
  "compute_next_offset offset =
     (let overage = offset mod ITEM_ALIGNMENT in
      and_then (if overage \<noteq> 0 then u64_add offset (ITEM_ALIGNMENT - overage) else Ok offset) (\<lambda>offset.
        let aligned = offset div ITEM_ALIGNMENT
        in if aligned \<le> u32_max then Ok aligned else Err JOffsetOverflow))"

section \<open>Writing and reading an item\<close>

text \<open>The bytes an item is stored as, and back.\<close>

definition item_encode :: "'v journal_cfg \<Rightarrow> 'v \<Rightarrow> (bytes, journal_error) result" where
  "item_encode cfg item =
     and_then (map_err CodecError (encode (jc_write cfg) (jc_size cfg) item)) (\<lambda>encoded.
       case jc_compression cfg of
         None \<Rightarrow> Ok encoded
       | Some level \<Rightarrow> (case jc_compress cfg encoded level of None \<Rightarrow> Err CompressionFailed | Some c \<Rightarrow> Ok c))"

definition item_decode :: "'v journal_cfg \<Rightarrow> bytes \<Rightarrow> ('v, journal_error) result" where
  "item_decode cfg item =
     (if jc_compression cfg \<noteq> None then
        (case jc_decompress cfg item of
           None \<Rightarrow> Err DecompressionFailed
         | Some decompressed \<Rightarrow> map_err CodecError (decode_cfg (jc_read cfg) decompressed))
      else map_err CodecError (decode_cfg (jc_read cfg) item))"

definition item_len :: "bytes \<Rightarrow> (u32, journal_error) result" where
  "item_len encoded = (if length encoded \<le> u32_max then Ok (word_of_nat (length encoded)) else Err (ItemTooLarge (length encoded)))"

text \<open>The entry of an item (its length, its bytes and the checksum of both), as \<open>append\<close> builds it.\<close>

definition item_entry :: "(bytes \<Rightarrow> u32) \<Rightarrow> u32 \<Rightarrow> bytes \<Rightarrow> bytes" where
  "item_entry crc len encoded = (let body = varint_write len @ encoded in body @ to_be_bytes (crc body))"

text \<open>What \<open>read\<close> and \<open>read_buffered\<close> do with the bytes after the length: verify, then decode.\<close>

definition item_check :: "(bytes \<Rightarrow> u32) \<Rightarrow> bytes \<Rightarrow> nat \<Rightarrow> bytes \<Rightarrow> (bytes, journal_error) result" where
  "item_check crc head sz buf =
     (let item = take sz buf; checksum = crc (head @ item); stored = from_be_bytes (drop sz buf) :: u32
      in if checksum \<noteq> stored then Err (ChecksumMismatch stored checksum) else Ok item)"

definition journal_read :: "'v journal_cfg \<Rightarrow> 's read_at \<Rightarrow> nat \<Rightarrow> 's \<Rightarrow> ((nat \<times> nat \<times> 'v) \<times> 's, journal_error) result" where
  "journal_read cfg rd offset s =
     and_then (u64_mul offset ITEM_ALIGNMENT) (\<lambda>offset.
     and_then (map_err Runtime (rd MIN_ITEM_SIZE offset s)) (\<lambda>(varint_buf, s).
     and_then (map_err CodecError (varint_read varint_buf)) (\<lambda>(len :: u32, varint).
       let sz = unat len; varint_len = MIN_ITEM_SIZE - length varint in
       and_then (checked_add offset varint_len) (\<lambda>offset.
       and_then (checked_add sz 4) (\<lambda>buf_size.
       and_then (map_err Runtime (rd buf_size offset s)) (\<lambda>(buf, s).
       and_then (checked_add offset buf_size) (\<lambda>offset.
       and_then (item_check (jc_crc cfg) (take varint_len varint_buf) sz buf) (\<lambda>item.
       and_then (compute_next_offset offset) (\<lambda>aligned_offset.
       and_then (item_decode cfg item) (\<lambda>v. Ok ((aligned_offset, sz, v), s)))))))))))"

text \<open>\<open>read_buffered\<close>: position the reader on the item; read what the first five bytes do not cover.\<close>

definition positioned :: "nat \<Rightarrow> blob_reader \<Rightarrow> (blob_reader, journal_error) result" where
  "positioned file_offset r =
     and_then (map_err Runtime (reader_position r)) (\<lambda>position.
       if position \<noteq> file_offset then map_err Runtime (seek_to file_offset r) else Ok r)"

definition read_more :: "'s read_at \<Rightarrow> nat \<Rightarrow> nat \<Rightarrow> blob_reader \<Rightarrow> 's \<Rightarrow> (bytes \<times> blob_reader \<times> 's, journal_error) result" where
  "read_more rd buf_size already_read r s =
     (if buf_size > already_read then map_err Runtime (read_exact rd (buf_size - already_read) r s) else Ok ([], r, s))"

definition read_buffered :: "'v journal_cfg \<Rightarrow> 's read_at \<Rightarrow> nat \<Rightarrow> blob_reader \<Rightarrow> 's \<Rightarrow>
    ((nat \<times> nat \<times> nat \<times> 'v) \<times> blob_reader \<times> 's, journal_error) result" where
  "read_buffered cfg rd offset r s =
     and_then (u64_mul offset ITEM_ALIGNMENT) (\<lambda>file_offset.
     and_then (positioned file_offset r) (\<lambda>r.
     and_then (map_err Runtime (read_exact rd MIN_ITEM_SIZE r s)) (\<lambda>(varint_buf, r, s).
     and_then (map_err CodecError (varint_read varint_buf)) (\<lambda>(len :: u32, varint).
       let sz = unat len; varint_len = MIN_ITEM_SIZE - length varint in
       and_then (checked_add sz 4) (\<lambda>buf_size.
       let already_read = MIN_ITEM_SIZE - varint_len in
       if \<not> already_read \<le> buf_size then Panic
       else and_then (read_more rd buf_size already_read r s) (\<lambda>(more, r, s).
       and_then (item_check (jc_crc cfg) (take varint_len varint_buf) sz (drop varint_len varint_buf @ more)) (\<lambda>item.
       and_then (item_decode cfg item) (\<lambda>v.
       and_then (map_err Runtime (reader_position r)) (\<lambda>current_pos.
       and_then (compute_next_offset current_pos) (\<lambda>aligned_offset.
         Ok ((aligned_offset, current_pos, sz, v), r, s)))))))))))"

section \<open>The layout of a section\<close>

text \<open>Items whose stored form can be written and read back.\<close>

definition storable :: "'v journal_cfg \<Rightarrow> 'v \<Rightarrow> bool" where
  "storable cfg v \<longleftrightarrow> (\<exists>e. item_encode cfg v = Ok e \<and> length e \<le> u32_max \<and> item_decode cfg e = Ok v)"

definition stored :: "'v journal_cfg \<Rightarrow> 'v \<Rightarrow> bytes" where
  "stored cfg v = (case item_encode cfg v of Ok e \<Rightarrow> e | _ \<Rightarrow> [])"

definition entry_of :: "'v journal_cfg \<Rightarrow> 'v \<Rightarrow> bytes" where
  "entry_of cfg v = item_entry (jc_crc cfg) (word_of_nat (length (stored cfg v))) (stored cfg v)"

definition align :: "nat \<Rightarrow> nat" where
  "align n = (n + 15) div 16 * 16"

fun layout :: "'v journal_cfg \<Rightarrow> bytes \<Rightarrow> 'v list \<Rightarrow> bytes" where
  "layout cfg l [] = l"
| "layout cfg l (v # vs) = layout cfg (l @ replicate (align (length l) - length l) 0 @ entry_of cfg v) vs"

text \<open>
  Bytes that are no complete item: too short for the length or for what the length announces, or with
  a checksum that does not match.
\<close>

definition torn_item :: "'v journal_cfg \<Rightarrow> bytes \<Rightarrow> bool" where
  "torn_item cfg t \<longleftrightarrow> length t < 5 \<or>
     (case varint_read (take 5 t) of
        Ok (len :: u32, rest) \<Rightarrow>
          let n = 5 - length rest + unat len
          in length t < n + 4 \<or> jc_crc cfg (take n t) \<noteq> from_be_bytes (slice n 4 t)
      | _ \<Rightarrow> False)"

lemma align_bounds: "n \<le> align n" "align n < n + 16" "16 dvd align n"
  unfolding align_def by (simp_all add: algebra_simps)

lemma align_mono: "m \<le> n \<Longrightarrow> align m \<le> align n"
  unfolding align_def by (intro mult_le_mono1 div_le_mono) simp

lemma compute_next_offset_ok:
  assumes "align n div 16 \<le> u32_max"
  shows "compute_next_offset n = Ok (align n div 16)"
proof (cases "n mod 16 = 0")
  case True
  then have "align n = n" unfolding align_def by presburger
  then show ?thesis using True assms by (simp add: compute_next_offset_def ITEM_ALIGNMENT_def)
next
  case False
  have lt: "n mod 16 < 16" by simp
  then have "(n mod 16 + 15) div 16 = 1" using False by (intro div_nat_eqI) simp_all
  moreover have "n + 15 = (n mod 16 + 15) + n div 16 * 16" using div_mult_mod_eq [of n 16] by linarith
  ultimately have "(n + 15) div 16 = n div 16 + 1" by (metis add.commute div_mult_self3 zero_neq_numeral)
  then have "align n = n div 16 * 16 + 16" by (simp add: align_def)
  then have e: "n + (16 - n mod 16) = align n" using div_mult_mod_eq [of n 16] mod_less_divisor [of 16 n] by linarith
  have "align n = align n div 16 * 16" by (simp add: align_def)
  moreover have "u32_max * 16 \<le> u64_max" by (simp add: u32_max_def u64_max_def)
  ultimately have "align n \<le> u64_max" using assms mult_le_mono1 [of "align n div 16" u32_max 16] by linarith
  then show ?thesis using False assms e by (simp add: compute_next_offset_def ITEM_ALIGNMENT_def Let_def)
qed


lemma align_div: "align n div 16 * 16 = align n"
  by (simp add: align_def)

text \<open>The part of an entry before the checksum's end is at least as long as the bytes read for its length.\<close>

lemma length_varint_u32: "1 \<le> length (varint_write (x :: u32))" "length (varint_write (x :: u32)) \<le> 5"
proof -
  have "length (varint_write x) = varint_size x" by (simp add: length_varint_write)
  also have "\<dots> = max 1 ((32 - leading_zeros x + 6) div 7)" by (simp add: varint_size_def prim_size_def DATA_BITS_PER_BYTE_def Let_def)
  finally have e: "length (varint_write x) = max 1 ((32 - leading_zeros x + 6) div 7)" .
  show "1 \<le> length (varint_write x)" using e by simp
  have "(32 - leading_zeros x + 6) div 7 \<le> 38 div 7" by (intro div_le_mono) simp
  then show "length (varint_write x) \<le> 5" using e by simp
qed

lemma length_entry:
  "length (item_entry crc len e) = length (varint_write len) + length e + 4" "5 \<le> length (item_entry crc len e)"
  using length_varint_u32(1) [of len] by (simp_all add: item_entry_def Let_def)

lemma unat_stored: "length e \<le> u32_max \<Longrightarrow> unat (word_of_nat (length e) :: u32) = length e"
  by (simp add: u32_max_def unat_of_nat_less)

lemma storableD:
  assumes "storable cfg v"
  shows "item_encode cfg v = Ok (stored cfg v)" "length (stored cfg v) \<le> u32_max" "item_decode cfg (stored cfg v) = Ok v"
  using assms by (auto simp: storable_def stored_def)

definition head_of :: "'v journal_cfg \<Rightarrow> 'v \<Rightarrow> bytes" where
  "head_of cfg v = varint_write (word_of_nat (length (stored cfg v)) :: u32)"

lemma entry_split:
  "entry_of cfg v = head_of cfg v @ stored cfg v @ to_be_bytes (jc_crc cfg (head_of cfg v @ stored cfg v))"
  by (simp add: entry_of_def head_of_def item_entry_def Let_def)

lemma length_head: "1 \<le> length (head_of cfg v)" "length (head_of cfg v) \<le> 5"
  using length_varint_u32 by (auto simp: head_of_def)

lemma length_entry_of: "length (entry_of cfg v) = length (head_of cfg v) + (length (stored cfg v) + 4)" "5 \<le> length (entry_of cfg v)"
  using length_head(1) [of cfg v] by (simp_all add: entry_split)

text \<open>The first bytes of an entry give its length, and the rest passes the check.\<close>

lemma entry_head:
  "take 5 (entry_of cfg v) = head_of cfg v @ drop (length (head_of cfg v)) (take 5 (entry_of cfg v))"
  "varint_read (take 5 (entry_of cfg v)) = Ok (word_of_nat (length (stored cfg v)) :: u32, drop (length (head_of cfg v)) (take 5 (entry_of cfg v)))"
proof -
  show t: "take 5 (entry_of cfg v) = head_of cfg v @ drop (length (head_of cfg v)) (take 5 (entry_of cfg v))"
    using length_head(2) [of cfg v] by (simp add: entry_split)
  show "varint_read (take 5 (entry_of cfg v)) = Ok (word_of_nat (length (stored cfg v)) :: u32, drop (length (head_of cfg v)) (take 5 (entry_of cfg v)))"
    by (subst t) (simp add: head_of_def varint_read_write)
qed

lemma entry_check:
  "item_check (jc_crc cfg) (head_of cfg v) (length (stored cfg v)) (drop (length (head_of cfg v)) (entry_of cfg v)) = Ok (stored cfg v)"
  by (simp add: entry_split item_check_def from_to_be_bytes)

lemma varint_u32_rest:
  assumes "varint_read (take 5 t) = Ok (len :: u32, rest)" "5 \<le> length t"
  shows "length rest \<le> 4" "unat len + 4 \<le> u64_max"
proof -
  have "take 5 t = varint_write len @ rest" by (rule varint_read_canonical [OF _ assms(1)]) simp
  then have "5 = length (varint_write len) + length rest" using assms(2) by (metis length_append length_take min_absorb2)
  then show "length rest \<le> 4" using length_varint_u32(1) [of len] by linarith
  have "unat len < 2 ^ 32" using unsigned_less [of len] by simp
  then show "unat len + 4 \<le> u64_max" by (simp add: u64_max_def)
qed

text \<open>The bytes the check sees.\<close>

lemma torn_check:
  assumes "5 \<le> length t" "1 \<le> k" "k \<le> 5" "k + sz + 4 \<le> length t"
  shows "item_check crc (take k (take 5 t)) sz (drop k (take 5 t) @ slice 5 (sz + 4 - (5 - k)) t)
    = (if crc (take (k + sz) t) \<noteq> from_be_bytes (slice (k + sz) 4 t) then Err (ChecksumMismatch (from_be_bytes (slice (k + sz) 4 t)) (crc (take (k + sz) t)))
       else Ok (take sz (drop k t)))"
proof -
  have "drop k (take 5 t) @ slice 5 (sz + 4 - (5 - k)) t = take (sz + 4) (drop k t)"
  proof -
    have "take (sz + 4) (drop k t) = take (5 - k) (drop k t) @ take (sz + 4 - (5 - k)) (drop (5 - k) (drop k t))"
      using take_add [of "5 - k" "sz + 4 - (5 - k)" "drop k t"] assms(2) by simp
    then show ?thesis using assms(3) by (simp add: slice_def drop_take)
  qed
  moreover have "take k (take 5 t) @ take sz (take (sz + 4) (drop k t)) = take (k + sz) t"
    using assms(3,4) by (simp add: min_absorb1 take_add)
  moreover have "drop sz (take (sz + 4) (drop k t)) = slice (k + sz) 4 t" by (simp add: slice_def drop_take add.commute)
  ultimately show ?thesis by (simp add: item_check_def Let_def)
qed

section \<open>Reading an item\<close>

lemma slice_take: "off + n \<le> k \<Longrightarrow> slice off n (take k xs) = slice off n xs"
  by (simp add: slice_def drop_take min_def)

lemma slice_entry:
  assumes "l = pre @ entry_of cfg v @ post" "i + n \<le> length (entry_of cfg v)"
  shows "slice (length pre + i) n l = slice i n (entry_of cfg v)"
  using assms by (simp add: slice_def)

lemma journal_read_eq:
  assumes "rd 5 (off * 16) s = Ok (vb, s1)" "varint_read vb = Ok (len :: u32, rest)"
    and "rd (unat len + 4) (off * 16 + (5 - length rest)) s1 = Ok (buf, s2)"
    and "off * 16 + (5 - length rest) + (unat len + 4) \<le> u64_max"
    and "item_check (jc_crc cfg) (take (5 - length rest) vb) (unat len) buf = Ok item"
    and "compute_next_offset (off * 16 + (5 - length rest) + (unat len + 4)) = Ok nxt" "item_decode cfg item = Ok v"
  shows "journal_read cfg rd off s = Ok ((nxt, unat len, v), s2)"
proof -
  have "off * 16 \<le> u64_max" "off * 16 + (5 - length rest) \<le> u64_max" "unat len + 4 \<le> u64_max" using assms(4) by linarith+
  then show ?thesis using assms
    by (simp add: journal_read_def ITEM_ALIGNMENT_def MIN_ITEM_SIZE_def checked_add_def Let_def)
qed

text \<open>How far into the first five bytes the length reaches.\<close>

lemma entry_rest:
  "5 - length (drop (length (head_of cfg v)) (take 5 (entry_of cfg v))) = length (head_of cfg v)"
  "take (length (head_of cfg v)) (take 5 (entry_of cfg v)) = head_of cfg v"
proof -
  show "5 - length (drop (length (head_of cfg v)) (take 5 (entry_of cfg v))) = length (head_of cfg v)"
    using length_entry_of(2) [of cfg v] length_head [of cfg v] by simp
  show "take (length (head_of cfg v)) (take 5 (entry_of cfg v)) = head_of cfg v"
    using entry_head(1) [of cfg v] by (metis append_eq_conv_conj)
qed

lemma positioned_ok:
  assumes "reader_inv l r" "length l \<le> u64_max" "p \<le> length l"
  shows "\<exists>r'. positioned p r = Ok r' \<and> reader_inv l r' \<and> at_position r' = p"
  using assms seek_to_ok [OF assms] reader_position_ok [OF assms(1,2)] by (auto simp: positioned_def)

lemma read_buffered_eq:
  assumes "off * 16 \<le> u64_max" "positioned (off * 16) r = Ok r0" "read_exact rd 5 r0 s = Ok (vb, r1, s1)"
    and "varint_read vb = Ok (len :: u32, rest)" "unat len + 4 \<le> u64_max" "5 - (5 - length rest) \<le> unat len + 4"
  shows "read_buffered cfg rd off r s =
     and_then (read_more rd (unat len + 4) (5 - (5 - length rest)) r1 s1) (\<lambda>(more, r, s).
     and_then (item_check (jc_crc cfg) (take (5 - length rest) vb) (unat len) (drop (5 - length rest) vb @ more)) (\<lambda>item.
     and_then (item_decode cfg item) (\<lambda>v.
     and_then (map_err Runtime (reader_position r)) (\<lambda>current_pos.
     and_then (compute_next_offset current_pos) (\<lambda>aligned_offset.
       Ok ((aligned_offset, current_pos, unat len, v), r, s))))))"
  using assms by (simp add: read_buffered_def ITEM_ALIGNMENT_def MIN_ITEM_SIZE_def checked_add_def Let_def)

lemma entry_sizes:
  defines "h \<equiv> \<lambda>cfg v. length (head_of cfg v)"
  shows "5 - (5 - h cfg v) = h cfg v" "5 - h cfg v \<le> length (stored cfg v) + 4"
    "length (stored cfg v) + 4 - (5 - h cfg v) = length (entry_of cfg v) - 5"
    "drop (h cfg v) (take 5 (entry_of cfg v)) @ drop 5 (entry_of cfg v) = drop (h cfg v) (entry_of cfg v)"
proof -
  note hd = length_head [of cfg v] and en = length_entry_of [of cfg v]
  show "5 - (5 - h cfg v) = h cfg v" "5 - h cfg v \<le> length (stored cfg v) + 4"
    "length (stored cfg v) + 4 - (5 - h cfg v) = length (entry_of cfg v) - 5"
    unfolding h_def using hd en by linarith+
  have "drop (h cfg v) (take 5 (entry_of cfg v) @ drop 5 (entry_of cfg v)) = drop (h cfg v) (take 5 (entry_of cfg v)) @ drop 5 (entry_of cfg v)"
    unfolding h_def drop_append using hd en by simp
  then show "drop (h cfg v) (take 5 (entry_of cfg v)) @ drop 5 (entry_of cfg v) = drop (h cfg v) (entry_of cfg v)" by simp
qed

context readable
begin

lemma journal_read_ok:
  assumes s: "view s = Some l" and l: "l = pre @ entry_of cfg v @ post" "length pre = off * 16" and v: "storable cfg v"
    and m: "align (off * 16 + length (entry_of cfg v)) div 16 \<le> u32_max"
  shows "\<exists>s'. journal_read cfg rd off s =
      Ok ((align (off * 16 + length (entry_of cfg v)) div 16, length (stored cfg v), v), s') \<and> view s' = Some l \<and> frame s s'"
proof -
  let ?en = "entry_of cfg v" and ?h = "head_of cfg v"
  note en = length_entry_of [of cfg v] and sv = storableD [OF v]
  note u = unat_stored [OF sv(2)]
  have bnd: "length l \<le> u64_max" using view_bound [OF s] .
  obtain s1 where s1: "rd 5 (off * 16) s = Ok (take 5 ?en, s1)" "view s1 = Some l" "frame s s1"
    using rd_ok [OF s, of "off * 16" 5] slice_entry [OF l(1), of 0 5] en l by (auto simp: slice_def)
  have "slice (off * 16 + length ?h) (length (stored cfg v) + 4) l = drop (length ?h) ?en"
    using slice_entry [OF l(1), of "length ?h" "length (stored cfg v) + 4"] en l(2) by (simp add: slice_def)
  then obtain s2 where s2: "rd (length (stored cfg v) + 4) (off * 16 + length ?h) s1 = Ok (drop (length ?h) ?en, s2)" "view s2 = Some l" "frame s1 s2"
    using rd_ok [OF s1(2), of "off * 16 + length ?h" "length (stored cfg v) + 4"] en l by auto
  have e: "off * 16 + length ?h + (length (stored cfg v) + 4) = off * 16 + length ?en" using en(1) by simp
  have "journal_read cfg rd off s = Ok ((align (off * 16 + length ?en) div 16, unat (word_of_nat (length (stored cfg v)) :: u32), v), s2)"
  proof (rule journal_read_eq [of rd off s "take 5 ?en" s1 _ _ _ s2, OF s1(1) entry_head(2)], unfold entry_rest u e)
    show "rd (length (stored cfg v) + 4) (off * 16 + length ?h) s1 = Ok (drop (length ?h) ?en, s2)" by (fact s2(1))
    show "off * 16 + length ?en \<le> u64_max" using bnd l by simp
    show "item_check (jc_crc cfg) ?h (length (stored cfg v)) (drop (length ?h) ?en) = Ok (stored cfg v)" by (rule entry_check)
    show "compute_next_offset (off * 16 + length ?en) = Ok (align (off * 16 + length ?en) div 16)" by (rule compute_next_offset_ok [OF m])
    show "item_decode cfg (stored cfg v) = Ok v" by (fact sv(3))
  qed
  then show ?thesis using s2 frame_trans [OF s1(3) s2(3)] u by auto
qed

text \<open>The reader stands on the item and has read the bytes that give its length.\<close>

lemma read_buffered_head:
  assumes s: "view s = Some l" "reader_inv l r" and l: "length pre = off * 16" "l = pre @ take j (entry_of cfg v) @ post" and v: "storable cfg v"
    and m: "2 * length l \<le> u64_max" and j: "5 \<le> j" "length (stored cfg v) + 4 \<le> u64_max"
  shows "\<exists>r1 s1. reader_inv l r1 \<and> at_position r1 = off * 16 + 5 \<and> view s1 = Some l \<and> frame s s1 \<and> read_buffered cfg rd off r s =
     and_then (read_more rd (length (stored cfg v) + 4) (5 - length (head_of cfg v)) r1 s1) (\<lambda>(more, r, s).
     and_then (item_check (jc_crc cfg) (head_of cfg v) (length (stored cfg v)) (drop (length (head_of cfg v)) (take 5 (entry_of cfg v)) @ more)) (\<lambda>item.
     and_then (item_decode cfg item) (\<lambda>v'.
     and_then (map_err Runtime (reader_position r)) (\<lambda>current_pos.
     and_then (compute_next_offset current_pos) (\<lambda>aligned_offset.
       Ok ((aligned_offset, current_pos, length (stored cfg v), v'), r, s))))))"
proof -
  let ?en = "entry_of cfg v" and ?p = "off * 16"
  note en = length_entry_of [of cfg v] and u = unat_stored [OF storableD(2) [OF v]]
  have bnd: "length l \<le> u64_max" "?p + 5 \<le> length l" using m l j en by simp_all
  obtain r0 where r0: "positioned ?p r = Ok r0" "reader_inv l r0" "at_position r0 = ?p"
    using positioned_ok [OF s(2) bnd(1), of ?p] bnd(2) by auto
  have "slice ?p 5 l = take 5 ?en" using l j en(2) by (simp add: slice_def min_def)
  then obtain r1 s1 where r1: "read_exact rd 5 r0 s = Ok (take 5 ?en, r1, s1)" "reader_inv l r1" "at_position r1 = ?p + 5" "view s1 = Some l" "frame s s1"
    using read_exact_ok [OF r0(2) s(1) _ m, of 5] r0(3) bnd(2) by auto
  have "?p \<le> u64_max" using bnd by simp
  note eq = read_buffered_eq [of off r r0 rd s "take 5 ?en" r1 s1 _ _ cfg, OF this r0(1) r1(1) entry_head(2), unfolded u entry_rest entry_sizes,
    OF j(2) entry_sizes(2)]
  show ?thesis by (intro exI [of _ r1] exI [of _ s1] conjI r1(2-5) eq)
qed

lemma read_buffered_ok:
  assumes s: "view s = Some l" "reader_inv l r" and l: "length pre = off * 16" "l = pre @ entry_of cfg v @ post" and v: "storable cfg v"
    and m: "align (off * 16 + length (entry_of cfg v)) div 16 \<le> u32_max" "2 * length l \<le> u64_max"
  shows "\<exists>r' s'. read_buffered cfg rd off r s =
      Ok ((align (off * 16 + length (entry_of cfg v)) div 16, off * 16 + length (entry_of cfg v), length (stored cfg v), v), r', s')
    \<and> reader_inv l r' \<and> view s' = Some l \<and> frame s s'"
proof -
  let ?en = "entry_of cfg v" and ?k = "length (head_of cfg v)" and ?p = "off * 16"
  note en = length_entry_of [of cfg v] and hd = length_head [of cfg v]
  have bnd: "length l \<le> u64_max" "?p + length ?en \<le> length l" "length (stored cfg v) + 4 \<le> u64_max" using m(2) l en(1) by simp_all
  have l': "l = pre @ take (length ?en) ?en @ post" using l(2) by simp
  obtain r1 s1 where r1: "reader_inv l r1" "at_position r1 = ?p + 5" "view s1 = Some l" "frame s s1"
    and eq: "read_buffered cfg rd off r s =
     and_then (read_more rd (length (stored cfg v) + 4) (5 - ?k) r1 s1) (\<lambda>(more, r, s).
     and_then (item_check (jc_crc cfg) (head_of cfg v) (length (stored cfg v)) (drop ?k (take 5 ?en) @ more)) (\<lambda>item.
     and_then (item_decode cfg item) (\<lambda>v'.
     and_then (map_err Runtime (reader_position r)) (\<lambda>current_pos.
     and_then (compute_next_offset current_pos) (\<lambda>aligned_offset.
       Ok ((aligned_offset, current_pos, length (stored cfg v), v'), r, s))))))"
    using read_buffered_head [OF s l(1) l' v m(2) en(2) bnd(3)] by blast
  have "slice (?p + 5) (length ?en - 5) l = drop 5 ?en" using l en(2) by (simp add: slice_def)
  then obtain r2 s2 where r2: "read_exact rd (length ?en - 5) r1 s1 = Ok (drop 5 ?en, r2, s2)" "reader_inv l r2" "at_position r2 = ?p + length ?en"
      "view s2 = Some l" "frame s1 s2"
    using read_exact_ok [OF r1(1,3) _ m(2), of "length ?en - 5"] r1(2) bnd(2) en(2) by auto
  obtain r3 s3 where r3: "read_more rd (length (stored cfg v) + 4) (5 - ?k) r1 s1 = Ok (drop 5 ?en, r3, s3)"
      "reader_inv l r3" "at_position r3 = ?p + length ?en" "view s3 = Some l" "frame s s3"
  proof (cases "length (stored cfg v) + 4 > 5 - ?k")
    case True
    then show ?thesis using that [of r2 s2] r2 frame_trans [OF r1(4) r2(5)] entry_sizes(3) [of cfg v] by (simp add: read_more_def)
  next
    case False
    then have "length ?en = 5" using en hd by linarith
    then show ?thesis using that [of r1 s1] False r1 by (simp add: read_more_def)
  qed
  have "read_buffered cfg rd off r s = Ok ((align (?p + length ?en) div 16, ?p + length ?en, length (stored cfg v), v), r3, s3)"
    unfolding eq r3(1) and_then.simps case_prod_conv entry_sizes(4) entry_check storableD(3) [OF v] reader_position_ok [OF r3(2) bnd(1)] map_err.simps
      r3(3) compute_next_offset_ok [OF m(1)] by (rule refl)
  then show ?thesis using r3 by blast
qed

lemma read_buffered_short:
  assumes s: "view s = Some l" "reader_inv l r" and l: "length pre = off * 16" "l = pre @ take j (entry_of cfg v)" "j < length (entry_of cfg v)"
    and v: "storable cfg v" and m: "2 * length l \<le> u64_max" "length (stored cfg v) + 4 \<le> u64_max"
  shows "read_buffered cfg rd off r s = Err (Runtime BlobInsufficientLength)"
proof (cases "j < 5")
  case True
  have bnd: "length l \<le> u64_max" "off * 16 \<le> length l" using m l by simp_all
  obtain r0 where r0: "positioned (off * 16) r = Ok r0" "reader_inv l r0" "at_position r0 = off * 16"
    using positioned_ok [OF s(2) bnd] by blast
  have "read_exact rd 5 r0 s = Err BlobInsufficientLength"
    using read_exact_short [OF r0(2) s(1) _ m(1), of 5] r0(3) l True by simp
  then show ?thesis using r0(1) bnd by (simp add: read_buffered_def ITEM_ALIGNMENT_def MIN_ITEM_SIZE_def)
next
  case False
  let ?en = "entry_of cfg v" and ?k = "length (head_of cfg v)"
  have l': "l = pre @ take j ?en @ []" and "5 \<le> j" using l(2) False by simp_all
  then obtain r1 s1 where r1: "reader_inv l r1" "at_position r1 = off * 16 + 5" "view s1 = Some l"
    and eq: "read_buffered cfg rd off r s =
     and_then (read_more rd (length (stored cfg v) + 4) (5 - ?k) r1 s1) (\<lambda>(more, r, s).
     and_then (item_check (jc_crc cfg) (head_of cfg v) (length (stored cfg v)) (drop ?k (take 5 ?en) @ more)) (\<lambda>item.
     and_then (item_decode cfg item) (\<lambda>v'.
     and_then (map_err Runtime (reader_position r)) (\<lambda>current_pos.
     and_then (compute_next_offset current_pos) (\<lambda>aligned_offset.
       Ok ((aligned_offset, current_pos, length (stored cfg v), v'), r, s))))))"
    using read_buffered_head [OF s l(1) l' v m(1) _ m(2)] by blast
  have "length l < at_position r1 + (length ?en - 5)" using l r1(2) False by simp
  then have "read_exact rd (length ?en - 5) r1 s1 = Err BlobInsufficientLength" by (rule read_exact_short [OF r1(1,3) _ m(1)])
  moreover have "5 - ?k < length (stored cfg v) + 4" using l(3) False length_entry_of [of cfg v] length_head [of cfg v] by linarith
  ultimately have "read_more rd (length (stored cfg v) + 4) (5 - ?k) r1 s1 = Err (Runtime BlobInsufficientLength)"
    using entry_sizes(3) [of cfg v] by (simp add: read_more_def)
  then show ?thesis unfolding eq by simp
qed

text \<open>Torn items make the read fail in one of the two ways that a replay repairs.\<close>

lemma read_buffered_torn:
  assumes s: "view s = Some l" "reader_inv l r" and l: "length pre = off * 16" "l = pre @ t"
    and t: "torn_item cfg t" and m: "2 * length l \<le> u64_max"
  shows "read_buffered cfg rd off r s = Err (Runtime BlobInsufficientLength) \<or> (\<exists>a b. read_buffered cfg rd off r s = Err (ChecksumMismatch a b))"
proof -
  let ?p = "off * 16"
  have bnd: "length l \<le> u64_max" "?p \<le> length l" using m l by simp_all
  obtain r0 where r0: "positioned ?p r = Ok r0" "reader_inv l r0" "at_position r0 = ?p"
    using positioned_ok [OF s(2) bnd] by blast
  show ?thesis
  proof (cases "length t < 5")
    case True
    have "read_exact rd 5 r0 s = Err BlobInsufficientLength"
      using read_exact_short [OF r0(2) s(1) _ m, of 5] r0(3) l True by simp
    then show ?thesis using r0(1) bnd by (simp add: read_buffered_def ITEM_ALIGNMENT_def MIN_ITEM_SIZE_def)
  next
    case False
    then have l5: "5 \<le> length t" by simp
    obtain len :: u32 and rest where v: "varint_read (take 5 t) = Ok (len, rest)"
      and bad: "length t < 5 - length rest + unat len + 4
        \<or> jc_crc cfg (take (5 - length rest + unat len) t) \<noteq> from_be_bytes (slice (5 - length rest + unat len) 4 t)"
      using t False by (auto simp: torn_item_def Let_def split: result.splits)
    note rest = varint_u32_rest [OF v l5]
    let ?k = "5 - length rest" and ?sz = "unat len"
    have "slice ?p 5 l = take 5 t" using l by (simp add: slice_def)
    then obtain r1 s1 where r1: "read_exact rd 5 r0 s = Ok (take 5 t, r1, s1)" "reader_inv l r1" "at_position r1 = ?p + 5" "view s1 = Some l"
      using read_exact_ok [OF r0(2) s(1) _ m, of 5] r0(3) l l5 by auto
    have "?p \<le> u64_max" "5 - (5 - length rest) \<le> ?sz + 4" using bnd rest(1) by simp_all
    note eq = read_buffered_eq [OF this(1) r0(1) r1(1) v rest(2) this(2), of cfg]
    show ?thesis
    proof (cases "length t < ?k + ?sz + 4")
      case True
      then have "5 - ?k < ?sz + 4" "length l < at_position r1 + (?sz + 4 - (5 - ?k))" using rest(1) l r1(3) l5 by simp_all
      then have "read_more rd (?sz + 4) (5 - ?k) r1 s1 = Err (Runtime BlobInsufficientLength)"
        using read_exact_short [OF r1(2,4) _ m] by (simp add: read_more_def)
      then show ?thesis unfolding eq by simp
    next
      case full: False
      have "\<exists>r2 s2. read_more rd (?sz + 4) (5 - ?k) r1 s1 = Ok (slice 5 (?sz + 4 - (5 - ?k)) t, r2, s2)"
      proof (cases "?sz + 4 > 5 - ?k")
        case True
        have "at_position r1 + (?sz + 4 - (5 - ?k)) \<le> length l" using full r1(3) l rest(1) True by simp
        then obtain r2 s2 where "read_exact rd (?sz + 4 - (5 - ?k)) r1 s1 = Ok (slice (?p + 5) (?sz + 4 - (5 - ?k)) l, r2, s2)"
          using read_exact_ok [OF r1(2,4) _ m] r1(3) by fastforce
        moreover have "slice (?p + 5) (?sz + 4 - (5 - ?k)) l = slice 5 (?sz + 4 - (5 - ?k)) t" using l by (simp add: slice_def)
        ultimately show ?thesis using True by (simp add: read_more_def)
      qed (simp add: read_more_def slice_def)
      then obtain r2 s2 where more: "read_more rd (?sz + 4) (5 - ?k) r1 s1 = Ok (slice 5 (?sz + 4 - (5 - ?k)) t, r2, s2)" by blast
      have "jc_crc cfg (take (?k + ?sz) t) \<noteq> from_be_bytes (slice (?k + ?sz) 4 t)" using bad full by simp
      then have "\<exists>a b. item_check (jc_crc cfg) (take ?k (take 5 t)) ?sz (drop ?k (take 5 t) @ slice 5 (?sz + 4 - (5 - ?k)) t) = Err (ChecksumMismatch a b)"
        using torn_check [of t ?k ?sz "jc_crc cfg"] l5 rest(1) full by simp
      then show ?thesis unfolding eq more by auto
    qed
  qed
qed

text \<open>A length that cannot be read is not a torn item: it ends the replay with an error.\<close>

lemma read_buffered_unreadable:
  assumes s: "view s = Some l" "reader_inv l r" and l: "length pre = off * 16" "l = pre @ t" "5 \<le> length t"
    and t: "varint_read (take 5 t) = (Err err :: (u32 \<times> bytes, codec_error) result)" and m: "2 * length l \<le> u64_max"
  shows "read_buffered cfg rd off r s = Err (CodecError err)"
proof -
  have bnd: "length l \<le> u64_max" "off * 16 \<le> length l" using m l by simp_all
  obtain r0 where r0: "positioned (off * 16) r = Ok r0" "reader_inv l r0" "at_position r0 = off * 16"
    using positioned_ok [OF s(2) bnd] by blast
  have "slice (off * 16) 5 l = take 5 t" using l by (simp add: slice_def)
  then obtain r1 s1 where "read_exact rd 5 r0 s = Ok (take 5 t, r1, s1)"
    using read_exact_ok [OF r0(2) s(1) _ m, of 5] r0(3) l by auto
  then show ?thesis using r0(1) bnd t by (simp add: read_buffered_def ITEM_ALIGNMENT_def MIN_ITEM_SIZE_def)
qed

end

end
