(* ===== verification/Journal_Section.thy ===== *)
theory Journal_Section
  imports Journal_Item
begin

text \<open>
  The replay of one section of the segmented journal: the stream that \<open>replay\<close> unfolds over the blob
  of a section. \<open>section_repr\<close> says which bytes hold a given list of items; the main results are that
  a section cut off at any length replays to a prefix of its items, and that what the replay leaves
  in the blob holds exactly that prefix.
\<close>

section \<open>Replaying the items of a section\<close>

text \<open>How the stream of a section ends: at its end, by truncating it to a valid size, or with an error.\<close>

datatype replay_end = Done | Truncate nat | Failed journal_error

text \<open>
  Every item advances the offset (\<open>replay_section_ok\<close> shows that \<open>max_offset\<close> rounds are enough). The
  pages that a read fetched before it failed are not recorded in the pool, where they would only
  save a later fetch.
\<close>

fun replay_section :: "nat \<Rightarrow> 'v journal_cfg \<Rightarrow> 's read_at \<Rightarrow> nat \<Rightarrow> nat \<Rightarrow> nat \<Rightarrow> blob_reader \<Rightarrow> 's \<Rightarrow>
    ((nat \<times> nat \<times> 'v) list \<times> replay_end \<times> 's, journal_error) result" where
  "replay_section fuel cfg rd max_offset offset valid_size r s =
     (if offset \<ge> max_offset then Ok ([], Done, s)
      else case fuel of
        0 \<Rightarrow> Panic
      | Suc fuel \<Rightarrow>
          (case read_buffered cfg rd offset r s of
             Ok ((next_offset, next_valid_size, sz, item), r, s) \<Rightarrow>
               and_then (replay_section fuel cfg rd max_offset next_offset next_valid_size r s) (\<lambda>(items, e, s).
                 Ok ((offset, sz, item) # items, e, s))
           | Err (ChecksumMismatch _ _) \<Rightarrow> Ok ([], Truncate valid_size, s)
           | Err (Runtime BlobInsufficientLength) \<Rightarrow> Ok ([], Truncate valid_size, s)
           | Err err \<Rightarrow> Ok ([], Failed err, s)
           | Panic \<Rightarrow> Panic))"

declare replay_section.simps [simp del]

section \<open>The bytes of a section\<close>

definition padded :: "bytes \<Rightarrow> bytes" where
  "padded l = l @ replicate (align (length l) - length l) 0"

definition section_repr :: "'v journal_cfg \<Rightarrow> 'v list \<Rightarrow> bytes \<Rightarrow> bool" where
  "section_repr cfg vs l \<longleftrightarrow> (\<exists>z. l = layout cfg [] vs @ replicate z 0 \<and> length l \<le> align (length (layout cfg [] vs)))"

text \<open>Where the items are: offset, size and value, as a replay reports them.\<close>

fun places :: "'v journal_cfg \<Rightarrow> bytes \<Rightarrow> 'v list \<Rightarrow> (nat \<times> nat \<times> 'v) list" where
  "places cfg l [] = []"
| "places cfg l (v # vs) = (align (length l) div 16, length (stored cfg v), v) # places cfg (padded l @ entry_of cfg v) vs"

lemma layout_Cons: "layout cfg l (v # vs) = layout cfg (padded l @ entry_of cfg v) vs"
  by (simp add: padded_def)

declare layout.simps(2) [simp del]

lemma length_padded [simp]: "length (padded l) = align (length l)"
  using align_bounds(1) [of "length l"] by (simp add: padded_def)

lemma padded_offset: "length (padded l) = align (length l) div 16 * 16"
  by (simp add: align_def)

lemma layout_append: "layout cfg l (vs @ ws) = layout cfg (layout cfg l vs) ws"
  by (induction vs arbitrary: l) (simp_all add: layout_Cons)

lemma layout_prefix: "\<exists>post. layout cfg l vs = l @ post"
proof (induction vs arbitrary: l)
  case (Cons v vs)
  then show ?case by (metis (no_types, lifting) append.assoc layout_Cons padded_def)
qed simp

lemma layout_length: "length l \<le> length (layout cfg l vs)"
  using layout_prefix [of cfg l vs] by (metis length_append le_add1)

lemma places_values: "map (\<lambda>(_, _, v). v) (places cfg l vs) = vs"
  by (induction vs arbitrary: l) simp_all

lemma layout_mono: "i \<le> j \<Longrightarrow> length (layout cfg l (take i vs)) \<le> length (layout cfg l (take j vs))"
proof -
  assume "i \<le> j"
  then have "take j vs = take i vs @ take (j - i) (drop i vs)" by (metis le_add_diff_inverse take_add)
  then show ?thesis using layout_length by (simp add: layout_append)
qed

text \<open>Appending to a section's bytes: pad, then the entry.\<close>

lemma section_repr_append:
  assumes "section_repr cfg vs l"
  shows "section_repr cfg (vs @ [v]) (padded l @ entry_of cfg v)" "align (length l) = align (length (layout cfg [] vs))"
proof -
  let ?l = "layout cfg [] vs"
  obtain z where z: "l = ?l @ replicate z 0" "length l \<le> align (length ?l)" using assms by (auto simp: section_repr_def)
  have "align (align (length ?l)) = align (length ?l)" by (simp add: align_def)
  then have le: "align (length l) \<le> align (length ?l)" using align_mono [OF z(2)] by simp
  moreover have "align (length ?l) \<le> align (length l)" using z(1) by (intro align_mono) simp
  ultimately show e: "align (length l) = align (length ?l)" by simp
  have "padded l = ?l @ replicate (z + (align (length ?l) - length l)) 0" using e by (subst z(1)) (simp add: padded_def replicate_add z(1))
  moreover have "z + (align (length ?l) - length l) = align (length ?l) - length ?l" using z by simp
  ultimately have "padded l = padded ?l" by (simp add: padded_def)
  then show "section_repr cfg (vs @ [v]) (padded l @ entry_of cfg v)"
    using align_bounds(1) by (auto simp: section_repr_def layout_append layout_Cons intro!: exI [of _ 0])
qed

lemma section_repr_Nil: "section_repr cfg [] []"
  by (simp add: section_repr_def)

lemma section_repr_layout: "section_repr cfg vs (layout cfg [] vs)"
  using align_bounds(1) by (auto simp: section_repr_def)

section \<open>A section cut off anywhere\<close>

text \<open>How the replay of bytes \<open>l\<close> ends when they start with the items \<open>ws\<close> laid out after \<open>l0\<close>.\<close>

definition replay_ends :: "'v journal_cfg \<Rightarrow> bytes \<Rightarrow> 'v list \<Rightarrow> bytes \<Rightarrow> replay_end \<Rightarrow> bool" where
  "replay_ends cfg l0 ws l e \<longleftrightarrow>
     e = Done \<and> (\<exists>z. l = layout cfg l0 ws @ replicate z 0 \<and> length l \<le> align (length (layout cfg l0 ws)))
   \<or> e = Truncate (length (layout cfg l0 ws)) \<and> take (length (layout cfg l0 ws)) l = layout cfg l0 ws"

lemma prefix_short: "a @ b = l @ rest \<Longrightarrow> length l \<le> length a \<Longrightarrow> l = take (length l) a"
  by (metis append_eq_append_conv_if append_eq_conv_conj)

lemma prefix_long: "a @ b = l @ rest \<Longrightarrow> length a \<le> length l \<Longrightarrow> \<exists>c. l = a @ c"
  by (metis append_eq_append_conv_if append_take_drop_id)

lemma align_align [simp]: "align (align n) = align n"
  by (simp add: align_def)

lemma take_padded: "length l0 \<le> n \<Longrightarrow> n \<le> align (length l0) \<Longrightarrow> take n (padded l0) = l0 @ replicate (n - length l0) 0"
  by (simp add: padded_def min_def)

context readable
begin

text \<open>The replay stops before an item that starts at or after the end of the bytes.\<close>

lemma replay_section_stop:
  assumes "length l0 \<le> length l" "length l \<le> align (length l0)" "padded l0 @ tail = l @ rest"
  shows "replay_section fuel cfg rd (align (length l) div 16) (align (length l0) div 16) n r s = Ok ([], Done, s)"
    "replay_ends cfg l0 [] l Done"
proof -
  have "align (length l) \<le> align (length l0)" using align_mono [OF assms(2)] by simp
  then show "replay_section fuel cfg rd (align (length l) div 16) (align (length l0) div 16) n r s = Ok ([], Done, s)"
    by (simp add: replay_section.simps div_le_mono)
  have "l = take (length l) (padded l0)" using prefix_short [OF assms(3)] assms(2) by simp
  also have "\<dots> = l0 @ replicate (length l - length l0) 0" using assms(1,2) by (rule take_padded)
  finally show "replay_ends cfg l0 [] l Done" using assms(2) by (auto simp: replay_ends_def)
qed

text \<open>An item of which only a part is there ends the replay with a truncation.\<close>

lemma replay_section_cut:
  assumes s: "view s = Some l" "reader_inv l r" and v: "storable cfg v"
    and l: "padded l0 @ entry_of cfg v @ tail = l @ rest" "align (length l0) < length l" "length l < align (length l0) + length (entry_of cfg v)"
    and m: "2 * length l \<le> u64_max" and fuel: "0 < fuel"
  shows "replay_section fuel cfg rd (align (length l) div 16) (align (length l0) div 16) n r s = Ok ([], Truncate n, s)"
    "take (length l0) l = l0"
proof -
  let ?off = "align (length l0) div 16" and ?j = "length l - align (length l0)"
  have off: "length (padded l0) = ?off * 16" by (rule padded_offset)
  have e: "l = padded l0 @ take ?j (entry_of cfg v)"
    using prefix_short [of "padded l0 @ entry_of cfg v" tail l rest] l by simp
  have st: "length (stored cfg v) + 4 \<le> u64_max" using storableD(2) [OF v] by (simp add: u32_max_def u64_max_def)
  have "?j < length (entry_of cfg v)" using l(2,3) by simp
  from read_buffered_short [OF s off e this v m st] have "read_buffered cfg rd ?off r s = Err (Runtime BlobInsufficientLength)" .
  moreover have "?off < align (length l) div 16"
  proof -
    have "align (length l0) < align (length l)" using l(2) align_bounds(1) [of "length l"] by linarith
    then have "?off * 16 < align (length l) div 16 * 16" by (simp add: align_def)
    then show ?thesis by simp
  qed
  ultimately show "replay_section fuel cfg rd (align (length l) div 16) ?off n r s = Ok ([], Truncate n, s)"
    using fuel by (cases fuel) (simp_all add: replay_section.simps)
  show "take (length l0) l = l0" by (subst e) (simp add: padded_def)
qed

text \<open>A complete item is returned, and the replay goes on after it.\<close>

lemma replay_section_item:
  assumes s: "view s = Some l" "reader_inv l r" and v: "storable cfg v" and l: "l = padded l0 @ entry_of cfg v @ tail"
    and m: "align (length l) div 16 \<le> u32_max" "2 * length l \<le> u64_max"
  shows "\<exists>r' s'. replay_section (Suc fuel) cfg rd (align (length l) div 16) (align (length l0) div 16) n r s =
      and_then (replay_section fuel cfg rd (align (length l) div 16) (align (length (padded l0 @ entry_of cfg v)) div 16)
          (length (padded l0 @ entry_of cfg v)) r' s') (\<lambda>(items, e, s).
        Ok ((align (length l0) div 16, length (stored cfg v), v) # items, e, s))
    \<and> reader_inv l r' \<and> view s' = Some l \<and> frame s s'"
    "align (length l0) div 16 < align (length (padded l0 @ entry_of cfg v)) div 16"
proof -
  let ?off = "align (length l0) div 16" and ?l1 = "padded l0 @ entry_of cfg v"
  have off: "length (padded l0) = ?off * 16" by (rule padded_offset)
  then have l1: "length ?l1 = ?off * 16 + length (entry_of cfg v)" by simp
  have le: "align (length ?l1) \<le> align (length l)" using l by (intro align_mono) simp
  then have "align (?off * 16 + length (entry_of cfg v)) div 16 \<le> u32_max" using m(1) l1 div_le_mono [OF le, of 16] by simp
  from read_buffered_ok [OF s off l v this m(2)] obtain r' s' where
    rb: "read_buffered cfg rd ?off r s = Ok ((align (length ?l1) div 16, length ?l1, length (stored cfg v), v), r', s')"
      "reader_inv l r'" "view s' = Some l" "frame s s'" using l1 by auto
  have "?off * 16 < align (length ?l1)" using align_bounds(1) [of "length ?l1"] l1 length_entry_of(2) [of cfg v] by linarith
  then have "?off * 16 < align (length ?l1) div 16 * 16" by (simp add: align_def)
  then show lt: "?off < align (length ?l1) div 16" by simp
  then have "\<not> align (length l) div 16 \<le> ?off" using div_le_mono [OF le, of 16] by linarith
  then show "\<exists>r' s'. replay_section (Suc fuel) cfg rd (align (length l) div 16) ?off n r s =
      and_then (replay_section fuel cfg rd (align (length l) div 16) (align (length ?l1) div 16) (length ?l1) r' s') (\<lambda>(items, e, s).
        Ok ((?off, length (stored cfg v), v) # items, e, s))
    \<and> reader_inv l r' \<and> view s' = Some l \<and> frame s s'"
    using rb by (subst replay_section.simps) auto
qed

lemma replay_section_ok:
  assumes "layout cfg l0 vs @ replicate z 0 = l @ rest" "length (layout cfg l0 vs) + z \<le> align (length (layout cfg l0 vs))"
    and "length l0 \<le> length l" "view s = Some l" "reader_inv l r"
    and "\<forall>v \<in> set vs. storable cfg v" "align (length l) div 16 \<le> u32_max" "2 * length l \<le> u64_max"
    and "align (length l) div 16 - align (length l0) div 16 \<le> fuel"
  shows "\<exists>j e s'. replay_section fuel cfg rd (align (length l) div 16) (align (length l0) div 16) (length l0) r s
      = Ok (places cfg l0 (take j vs), e, s')
    \<and> (\<forall>i \<le> length vs. i \<le> j \<longleftrightarrow> length (layout cfg l0 (take i vs)) \<le> length l) \<and> j \<le> length vs
    \<and> replay_ends cfg l0 (take j vs) l e \<and> view s' = Some l \<and> frame s s'"
  using assms
proof (induction vs arbitrary: l0 r s fuel)
  case Nil
  have "padded l0 = (l0 @ replicate z 0) @ replicate (align (length l0) - length l0 - z) 0"
    using Nil.prems(2) by (simp add: padded_def flip: replicate_add)
  then have "padded l0 @ [] = l @ (rest @ replicate (align (length l0) - length l0 - z) 0)" using Nil.prems(1) by simp
  moreover have "length l \<le> align (length l0)" using arg_cong [OF Nil.prems(1), of length] Nil.prems(2) by simp
  ultimately show ?case using replay_section_stop [OF Nil.prems(3), where cfg = cfg] Nil.prems(3,4) frame_refl by fastforce
next
  case (Cons v vs)
  let ?l1 = "padded l0 @ entry_of cfg v"
  obtain post where post: "layout cfg l0 (v # vs) = ?l1 @ post" using layout_prefix [of cfg ?l1 vs] by (auto simp: layout_Cons)
  have l: "padded l0 @ entry_of cfg v @ post @ replicate z 0 = l @ rest" using Cons.prems(1) post by simp
  have far: "length l < length (layout cfg l0 (take i (v # vs)))" if "length l < length ?l1" "0 < i" for i
    using that layout_length [of ?l1 cfg "take (i - 1) vs"] by (cases i) (simp_all add: layout_Cons)
  have first: "\<forall>i \<le> length (v # vs). i \<le> 0 \<longleftrightarrow> length (layout cfg l0 (take i (v # vs))) \<le> length l" if "length l < length ?l1"
    using far [OF that] Cons.prems(3) by (metis bot_nat_0.not_eq_extremum le_zero_eq layout.simps(1) leD take_0)
  consider (before) "length l \<le> align (length l0)" | (inside) "align (length l0) < length l" "length l < length ?l1" | (after) "length ?l1 \<le> length l"
    by linarith
  then show ?case
  proof cases
    case before
    then have "length l < length ?l1" using length_entry_of(2) [of cfg v] by simp
    from first [OF this] replay_section_stop [OF Cons.prems(3) before l, where cfg = cfg] show ?thesis
      using Cons.prems(4) frame_refl by (intro exI [of _ 0] exI [of _ Done] exI [of _ s]) simp
  next
    case inside
    have "0 < fuel"
    proof -
      have "align (length l0) < align (length l)" using inside(1) align_bounds(1) [of "length l"] by linarith
      then have "align (length l0) div 16 * 16 < align (length l) div 16 * 16" by (simp add: align_def)
      then show ?thesis using Cons.prems(9) by simp
    qed
    note cut = replay_section_cut(1) [OF Cons.prems(4,5) _ l inside(1) _ Cons.prems(8) this, of "length l0"]
      replay_section_cut(2) [OF Cons.prems(4,5) _ l inside(1) _ Cons.prems(8) this]
    show ?thesis using first [OF inside(2)] cut inside(2) Cons.prems(4,6) frame_refl
      by (intro exI [of _ 0] exI [of _ "Truncate (length l0)"] exI [of _ s]) (simp add: replay_ends_def)
  next
    case after
    have "(padded l0 @ entry_of cfg v) @ post @ replicate z 0 = l @ rest" using l by simp
    from prefix_long [OF this after] obtain tail where tail: "l = padded l0 @ entry_of cfg v @ tail" by auto
    have "storable cfg v" using Cons.prems(6) by simp
    note item = replay_section_item [OF Cons.prems(4,5) this tail Cons.prems(7,8)]
    have "align (length ?l1) \<le> align (length l)" by (rule align_mono [OF after])
    then have dle: "align (length ?l1) div 16 \<le> align (length l) div 16" by (rule div_le_mono)
    have "0 < fuel" "align (length l) div 16 - align (length ?l1) div 16 \<le> fuel - 1" using Cons.prems(9) item(2) dle by linarith+
    then obtain fuel' where fuel': "fuel = Suc fuel'" "align (length l) div 16 - align (length ?l1) div 16 \<le> fuel'"
      by (cases fuel) auto
    obtain r' s' where r': "replay_section fuel cfg rd (align (length l) div 16) (align (length l0) div 16) (length l0) r s =
        and_then (replay_section fuel' cfg rd (align (length l) div 16) (align (length ?l1) div 16) (length ?l1) r' s') (\<lambda>(items, e, s).
          Ok ((align (length l0) div 16, length (stored cfg v), v) # items, e, s))"
      "reader_inv l r'" "view s' = Some l" "frame s s'"
      using item(1) [of fuel' "length l0"] fuel'(1) by blast
    obtain j e s'' where IH: "replay_section fuel' cfg rd (align (length l) div 16) (align (length ?l1) div 16) (length ?l1) r' s' = Ok (places cfg ?l1 (take j vs), e, s'')"
        "\<forall>i \<le> length vs. i \<le> j \<longleftrightarrow> length (layout cfg ?l1 (take i vs)) \<le> length l" "j \<le> length vs"
        "replay_ends cfg ?l1 (take j vs) l e" "view s'' = Some l" "frame s' s''"
      using Cons.IH [of ?l1 s' r' fuel'] Cons.prems(1,2,6-8) after r'(2,3) fuel'(2) unfolding layout_Cons by auto
    have "\<forall>i \<le> length (v # vs). i \<le> Suc j \<longleftrightarrow> length (layout cfg l0 (take i (v # vs))) \<le> length l"
    proof (intro allI impI)
      fix i assume "i \<le> length (v # vs)"
      then show "i \<le> Suc j \<longleftrightarrow> length (layout cfg l0 (take i (v # vs))) \<le> length l"
        using IH(2) Cons.prems(3) by (cases i) (simp_all add: layout_Cons)
    qed
    moreover have "replay_ends cfg l0 (take (Suc j) (v # vs)) l e" using IH(4) by (simp add: replay_ends_def layout_Cons)
    ultimately show ?thesis using r'(1) IH(1,3,5) frame_trans [OF r'(4) IH(6)]
      by (intro exI [of _ "Suc j"] exI [of _ e] exI [of _ s'']) simp
  qed
qed

text \<open>
  Complete items followed by bytes at which the replay stops: the replay returns the items and ends
  as it does there.
\<close>

lemma replay_section_until:
  assumes "l = layout cfg l0 ws @ tail" "align (length (layout cfg l0 ws)) < length l"
    and "\<And>fuel r s. view s = Some l \<Longrightarrow> reader_inv l r \<Longrightarrow>
      replay_section (Suc fuel) cfg rd (align (length l) div 16) (align (length (layout cfg l0 ws)) div 16) (length (layout cfg l0 ws)) r s = Ok ([], e, s)"
    and "view s = Some l" "reader_inv l r" "\<forall>v \<in> set ws. storable cfg v" "align (length l) div 16 \<le> u32_max" "2 * length l \<le> u64_max"
    and "align (length l) div 16 - align (length l0) div 16 \<le> fuel"
  shows "\<exists>s'. replay_section fuel cfg rd (align (length l) div 16) (align (length l0) div 16) (length l0) r s
      = Ok (places cfg l0 ws, e, s') \<and> view s' = Some l \<and> frame s s'"
  using assms
proof (induction ws arbitrary: l0 r s fuel)
  case Nil
  have "align (length l0) < align (length l)" using Nil.prems(2) align_bounds(1) [of "length l"] by simp
  then have "align (length l0) div 16 * 16 < align (length l) div 16 * 16" by (simp add: align_def)
  then obtain fuel' where "fuel = Suc fuel'" using Nil.prems(9) by (cases fuel) simp_all
  then show ?case using Nil.prems(3) [OF Nil.prems(4,5)] Nil.prems(4) frame_refl by simp
next
  case (Cons v ws)
  let ?l1 = "padded l0 @ entry_of cfg v"
  obtain post where post: "layout cfg l0 (v # ws) = ?l1 @ post" using layout_prefix [of cfg ?l1 ws] by (auto simp: layout_Cons)
  then have l: "l = padded l0 @ entry_of cfg v @ post @ tail" using Cons.prems(1) by simp
  have "storable cfg v" using Cons.prems(6) by simp
  note item = replay_section_item [OF Cons.prems(4,5) this l Cons.prems(7,8)]
  have "align (length ?l1) \<le> align (length l)" by (intro align_mono) (simp add: l)
  then have "align (length ?l1) div 16 \<le> align (length l) div 16" by (rule div_le_mono)
  then have "0 < fuel" "align (length l) div 16 - align (length ?l1) div 16 \<le> fuel - 1" using Cons.prems(9) item(2) by linarith+
  then obtain fuel' where fuel': "fuel = Suc fuel'" "align (length l) div 16 - align (length ?l1) div 16 \<le> fuel'"
    by (cases fuel) auto
  obtain r' s' where r': "replay_section fuel cfg rd (align (length l) div 16) (align (length l0) div 16) (length l0) r s =
      and_then (replay_section fuel' cfg rd (align (length l) div 16) (align (length ?l1) div 16) (length ?l1) r' s') (\<lambda>(items, e, s).
        Ok ((align (length l0) div 16, length (stored cfg v), v) # items, e, s))"
    "reader_inv l r'" "view s' = Some l" "frame s s'"
    using item(1) [of fuel' "length l0"] fuel'(1) by blast
  obtain s'' where IH: "replay_section fuel' cfg rd (align (length l) div 16) (align (length ?l1) div 16) (length ?l1) r' s'
        = Ok (places cfg ?l1 ws, e, s'')" "view s'' = Some l" "frame s' s''"
    using Cons.IH [of ?l1 s' r' fuel'] Cons.prems(1-3,6-8) r'(2,3) fuel'(2) unfolding layout_Cons by auto
  then show ?case using r'(1) frame_trans [OF r'(4) IH(3)] by (simp add: layout_Cons)
qed

lemma replay_section_bad:
  assumes l: "l = layout cfg [] ws @ q @ t" "length (layout cfg [] ws @ q) = align (length (layout cfg [] ws))" "t \<noteq> []"
    and s: "view s = Some l" "reader_inv l r" and ws: "\<forall>v \<in> set ws. storable cfg v"
    and m: "align (length l) div 16 \<le> u32_max" "2 * length l \<le> u64_max"
  shows "torn_item cfg t \<Longrightarrow> \<exists>s'. replay_section (align (length l) div 16) cfg rd (align (length l) div 16) 0 0 r s
      = Ok (places cfg [] ws, Truncate (length (layout cfg [] ws)), s') \<and> view s' = Some l \<and> frame s s'"
    and "5 \<le> length t \<Longrightarrow> varint_read (take 5 t) = (Err err :: (u32 \<times> bytes, codec_error) result) \<Longrightarrow>
      \<exists>s'. replay_section (align (length l) div 16) cfg rd (align (length l) div 16) 0 0 r s
        = Ok (places cfg [] ws, Failed (CodecError err), s') \<and> view s' = Some l \<and> frame s s'"
proof -
  let ?L = "layout cfg [] ws" and ?M = "align (length l) div 16"
  let ?off = "align (length ?L) div 16"
  have pre: "length (?L @ q) = ?off * 16" "l = (?L @ q) @ t" using l(1,2) align_div [of "length ?L"] by simp_all
  have "length l = align (length ?L) + length t" using l(1,2) by simp
  then have lt: "align (length ?L) < length l" using l(3) by (cases t) simp_all
  then have "align (length ?L) < align (length l)" using align_bounds(1) [of "length l"] by linarith
  then have "?off * 16 < ?M * 16" by (simp add: align_def)
  then have less: "?off < ?M" by simp
  have a0: "align (length ([] :: bytes)) div 16 = 0" by (simp add: align_def)
  note until = replay_section_until [where ?l0.0 = "[]" and fuel = ?M, OF l(1) lt _ s ws m, unfolded a0, simplified]
  show "\<exists>s'. replay_section ?M cfg rd ?M 0 0 r s = Ok (places cfg [] ws, Truncate (length ?L), s') \<and> view s' = Some l \<and> frame s s'"
    if "torn_item cfg t"
    by (rule until, subst replay_section.simps) (use read_buffered_torn [OF _ _ pre that m(2)] less in fastforce)
  show "\<exists>s'. replay_section ?M cfg rd ?M 0 0 r s = Ok (places cfg [] ws, Failed (CodecError err), s') \<and> view s' = Some l \<and> frame s s'"
    if "5 \<le> length t" "varint_read (take 5 t) = (Err err :: (u32 \<times> bytes, codec_error) result)"
    by (rule until, subst replay_section.simps) (use read_buffered_unreadable [where cfg = cfg, OF _ _ pre that m(2)] less in simp)
qed

end

end
