(* ===== verification/Journal_Variable.thy ===== *)
theory Journal_Variable
  imports Journal_Section
begin

text \<open>
  The segmented journal (\<open>storage/src/journal/segmented/variable.rs\<close>): one append-only blob per section,
  named by the section's number. \<open>journal\<close> holds what the code's \<open>Journal\<close> holds, together with the
  page pool of its configuration and the store of its context. Metrics are not modelled.
\<close>

section \<open>Operations\<close>

record ('w, 'h) journal =
  jr_blobs :: "(nat, 'h append_blob) btree"
  jr_oldest_retained_section :: nat
  jr_pool :: pool_ref
  jr_store :: 'w

definition section_name :: "nat \<Rightarrow> bytes" where
  "section_name sec = to_be_bytes (word_of_nat sec :: u64)"

fun init_blobs :: "('w, 'h) store_ops \<Rightarrow> 'v journal_cfg \<Rightarrow> bytes list \<Rightarrow> (nat, 'h append_blob) btree \<Rightarrow> pool_ref \<Rightarrow> 'w \<Rightarrow>
    ((nat, 'h append_blob) btree \<times> pool_ref \<times> 'w, journal_error) result" where
  "init_blobs ops cfg [] blobs pr w = Ok (blobs, pr, w)"
| "init_blobs ops cfg (name # names) blobs pr w =
     and_then (map_err Runtime (st_open ops name w)) (\<lambda>(blob, sz, w).
       if length name \<noteq> 8 then Err (InvalidBlobName name)
       else let sec = unat (from_be_bytes name :: u64) in
         and_then (map_err Runtime (append_new ops blob sz (jc_write_buffer cfg) pr w)) (\<lambda>(ab, pr).
           init_blobs ops cfg names (bt_insert sec ab blobs) pr w))"

definition journal_init :: "('w, 'h) store_ops \<Rightarrow> 'v journal_cfg \<Rightarrow> pool_ref \<Rightarrow> 'w \<Rightarrow> (('w, 'h) journal, journal_error) result" where
  "journal_init ops cfg pr w =
     and_then (case st_scan ops w of
         Ok names \<Rightarrow> Ok names
       | Err (PartitionMissing _) \<Rightarrow> Ok []
       | Err e \<Rightarrow> Err (Runtime e)
       | Panic \<Rightarrow> Panic) (\<lambda>stored_blobs.
     and_then (init_blobs ops cfg stored_blobs [] pr w) (\<lambda>(blobs, pr, w).
       Ok \<lparr>jr_blobs = blobs, jr_oldest_retained_section = 0, jr_pool = pr, jr_store = w\<rparr>))"

definition journal_prune_guard :: "nat \<Rightarrow> ('w, 'h) journal \<Rightarrow> (unit, journal_error) result" where
  "journal_prune_guard sec j =
     (if sec < jr_oldest_retained_section j then Err (AlreadyPrunedToSection (jr_oldest_retained_section j)) else Ok ())"

text \<open>Replacing the blob of a section after an operation on it.\<close>

definition set_section :: "nat \<Rightarrow> 'h append_blob \<Rightarrow> pool_ref \<Rightarrow> 'w \<Rightarrow> ('w, 'h) journal \<Rightarrow> ('w, 'h) journal" where
  "set_section sec ab pr w j = j\<lparr>jr_blobs := bt_insert sec ab (jr_blobs j), jr_pool := pr, jr_store := w\<rparr>"

text \<open>\<open>Read::resize\<close> on an append-only blob: resize, then sync.\<close>

definition reader_resize :: "('w, 'h) store_ops \<Rightarrow> nat \<Rightarrow> 'h append_blob \<Rightarrow> pool_ref \<Rightarrow> 'w \<Rightarrow> ('h append_blob \<times> pool_ref \<times> 'w, rt_error) result" where
  "reader_resize ops len ab pr w =
     and_then (append_resize ops len ab pr w) (\<lambda>(ab, pr, w). append_sync ops ab pr w)"

text \<open>
  \<open>replay\<close> first collects the sections with the offset at which each of them ends, then streams
  their items. The stream is followed up to its first error, where the journal's clients stop.
\<close>

fun replay_plan :: "(nat \<times> 'h append_blob) list \<Rightarrow> ((nat \<times> nat \<times> nat) list, journal_error) result" where
  "replay_plan [] = Ok []"
| "replay_plan ((sec, ab) # blobs) =
     and_then (map_err Runtime (append_size ab)) (\<lambda>blob_size.
     and_then (compute_next_offset blob_size) (\<lambda>max_offset.
     and_then (replay_plan blobs) (\<lambda>plan. Ok ((sec, max_offset, blob_size) # plan))))"

definition replay_blob :: "('w, 'h) store_ops \<Rightarrow> 'v journal_cfg \<Rightarrow> nat \<Rightarrow> nat \<Rightarrow> nat \<Rightarrow> nat \<Rightarrow> nat \<Rightarrow> nat \<Rightarrow> ('w, 'h) journal \<Rightarrow>
    ((nat \<times> nat \<times> 'v) list \<times> journal_error option \<times> ('w, 'h) journal, journal_error) result" where
  "replay_blob ops cfg start_section offset buffer sec max_offset blob_size j =
     (case bt_get (jr_blobs j) sec of
        None \<Rightarrow> Panic
      | Some ab \<Rightarrow>
          and_then (u64_mul offset ITEM_ALIGNMENT) (\<lambda>start.
            let r = reader_new blob_size buffer in
            case (if sec = start_section \<and> offset \<noteq> 0 then and_then (seek_to start r) (\<lambda>r. Ok (offset, r)) else Ok (0, r)) of
              Panic \<Rightarrow> Panic
            | Err e \<Rightarrow> Ok ([], Some (Runtime e), j)
            | Ok (offset, r) \<Rightarrow>
                and_then (replay_section max_offset cfg (append_rd ops) max_offset offset 0 r (ab, jr_pool j, jr_store j)) (\<lambda>(items, e, ab, pr, w).
                  case e of
                    Done \<Rightarrow> Ok (items, None, set_section sec ab pr w j)
                  | Failed err \<Rightarrow> Ok (items, Some err, set_section sec ab pr w j)
                  | Truncate valid_size \<Rightarrow>
                      (case reader_resize ops valid_size ab pr w of
                         Ok (ab, pr, w) \<Rightarrow> Ok (items, None, set_section sec ab pr w j)
                       | Err _ \<Rightarrow> Ok (items, None, set_section sec ab pr w j)
                       | Panic \<Rightarrow> Panic))))"

fun replay_sections :: "('w, 'h) store_ops \<Rightarrow> 'v journal_cfg \<Rightarrow> nat \<Rightarrow> nat \<Rightarrow> nat \<Rightarrow> (nat \<times> nat \<times> nat) list \<Rightarrow> ('w, 'h) journal \<Rightarrow>
    ((nat \<times> nat \<times> nat \<times> 'v) list \<times> journal_error option \<times> ('w, 'h) journal, journal_error) result" where
  "replay_sections ops cfg start offset buffer [] j = Ok ([], None, j)"
| "replay_sections ops cfg start offset buffer ((sec, max_offset, blob_size) # plan) j =
     and_then (replay_blob ops cfg start offset buffer sec max_offset blob_size j) (\<lambda>(items, err, j).
       let out = map (\<lambda>(offset, sz, v). (sec, offset, sz, v)) items in
       if err \<noteq> None then Ok (out, err, j)
       else and_then (replay_sections ops cfg start offset buffer plan j) (\<lambda>(rest, err, j). Ok (out @ rest, err, j)))"

definition journal_replay :: "('w, 'h) store_ops \<Rightarrow> 'v journal_cfg \<Rightarrow> nat \<Rightarrow> nat \<Rightarrow> nat \<Rightarrow> ('w, 'h) journal \<Rightarrow>
    ((nat \<times> nat \<times> nat \<times> 'v) list \<times> journal_error option \<times> ('w, 'h) journal, journal_error) result" where
  "journal_replay ops cfg start offset buffer j =
     and_then (replay_plan (filter (\<lambda>(sec, _). start \<le> sec) (jr_blobs j))) (\<lambda>plan.
       replay_sections ops cfg start offset buffer plan j)"

text \<open>The blob of a section, opened if the journal does not have it yet.\<close>

definition section_blob :: "('w, 'h) store_ops \<Rightarrow> 'v journal_cfg \<Rightarrow> nat \<Rightarrow> ('w, 'h) journal \<Rightarrow> ('h append_blob \<times> ('w, 'h) journal, journal_error) result" where
  "section_blob ops cfg sec j =
     (case bt_get (jr_blobs j) sec of
        Some ab \<Rightarrow> Ok (ab, j)
      | None \<Rightarrow>
          and_then (map_err Runtime (st_open ops (section_name sec) (jr_store j))) (\<lambda>(blob, sz, w).
          and_then (map_err Runtime (append_new ops blob sz (jc_write_buffer cfg) (jr_pool j) w)) (\<lambda>(ab, pr).
            Ok (ab, set_section sec ab pr w j))))"

definition journal_append :: "('w, 'h) store_ops \<Rightarrow> 'v journal_cfg \<Rightarrow> nat \<Rightarrow> 'v \<Rightarrow> ('w, 'h) journal \<Rightarrow>
    ((nat \<times> nat) \<times> ('w, 'h) journal, journal_error) result" where
  "journal_append ops cfg sec item j =
     and_then (journal_prune_guard sec j) (\<lambda>_.
     and_then (item_encode cfg item) (\<lambda>encoded.
     and_then (item_len encoded) (\<lambda>len.
     and_then (section_blob ops cfg sec j) (\<lambda>(ab, j).
     and_then (map_err Runtime (append_size ab)) (\<lambda>cursor.
     and_then (compute_next_offset cursor) (\<lambda>offset.
     and_then (u64_mul offset ITEM_ALIGNMENT) (\<lambda>aligned_cursor.
     and_then (u64_sub aligned_cursor cursor) (\<lambda>padding.
       let buf = replicate padding 0 @ item_entry (jc_crc cfg) len encoded in
       and_then (map_err Runtime (append_append ops buf ab (jr_pool j) (jr_store j))) (\<lambda>(ab, pr, w).
         Ok ((offset, unat len), set_section sec ab pr w j))))))))))"

definition journal_get :: "('w, 'h) store_ops \<Rightarrow> 'v journal_cfg \<Rightarrow> nat \<Rightarrow> nat \<Rightarrow> ('w, 'h) journal \<Rightarrow> ('v \<times> ('w, 'h) journal, journal_error) result" where
  "journal_get ops cfg sec offset j =
     and_then (journal_prune_guard sec j) (\<lambda>_.
       case bt_get (jr_blobs j) sec of
         None \<Rightarrow> Err (SectionOutOfRange sec)
       | Some ab \<Rightarrow>
           and_then (journal_read cfg (append_rd ops) offset (ab, jr_pool j, jr_store j)) (\<lambda>((_, _, item), ab, pr, w).
             Ok (item, set_section sec ab pr w j)))"

definition journal_size :: "nat \<Rightarrow> ('w, 'h) journal \<Rightarrow> (nat, journal_error) result" where
  "journal_size sec j =
     and_then (journal_prune_guard sec j) (\<lambda>_.
       case bt_get (jr_blobs j) sec of
         Some ab \<Rightarrow> map_err Runtime (append_size ab)
       | None \<Rightarrow> Ok 0)"

fun remove_sections :: "('w, 'h) store_ops \<Rightarrow> nat list \<Rightarrow> ('w, 'h) journal \<Rightarrow> (('w, 'h) journal, journal_error) result" where
  "remove_sections ops [] j = Ok j"
| "remove_sections ops (sec # secs) j =
     and_then (map_err Runtime (st_remove ops (Some (section_name sec)) (jr_store j))) (\<lambda>w.
       remove_sections ops secs (j\<lparr>jr_blobs := bt_remove sec (jr_blobs j), jr_store := w\<rparr>))"

definition truncate_section :: "('w, 'h) store_ops \<Rightarrow> nat \<Rightarrow> nat \<Rightarrow> ('w, 'h) journal \<Rightarrow> (('w, 'h) journal, journal_error) result" where
  "truncate_section ops sec sz j =
     (case bt_get (jr_blobs j) sec of
        None \<Rightarrow> Ok j
      | Some ab \<Rightarrow>
          and_then (map_err Runtime (append_size ab)) (\<lambda>current.
            if sz \<ge> current then Ok j
            else and_then (map_err Runtime (append_resize ops sz ab (jr_pool j) (jr_store j))) (\<lambda>(ab, pr, w).
              Ok (set_section sec ab pr w j))))"

definition journal_rewind :: "('w, 'h) store_ops \<Rightarrow> nat \<Rightarrow> nat \<Rightarrow> ('w, 'h) journal \<Rightarrow> (('w, 'h) journal, journal_error) result" where
  "journal_rewind ops sec sz j =
     and_then (journal_prune_guard sec j) (\<lambda>_.
       let trailing = filter (\<lambda>s. sec < s) (map fst (jr_blobs j))
       in and_then (remove_sections ops (rev trailing) j) (truncate_section ops sec sz))"

definition journal_rewind_to_offset :: "('w, 'h) store_ops \<Rightarrow> nat \<Rightarrow> nat \<Rightarrow> ('w, 'h) journal \<Rightarrow> (('w, 'h) journal, journal_error) result" where
  "journal_rewind_to_offset ops sec offset j = and_then (u64_mul offset ITEM_ALIGNMENT) (\<lambda>sz. journal_rewind ops sec sz j)"

definition journal_rewind_section :: "('w, 'h) store_ops \<Rightarrow> nat \<Rightarrow> nat \<Rightarrow> ('w, 'h) journal \<Rightarrow> (('w, 'h) journal, journal_error) result" where
  "journal_rewind_section ops sec sz j = and_then (journal_prune_guard sec j) (\<lambda>_. truncate_section ops sec sz j)"

definition journal_sync :: "('w, 'h) store_ops \<Rightarrow> nat \<Rightarrow> ('w, 'h) journal \<Rightarrow> (('w, 'h) journal, journal_error) result" where
  "journal_sync ops sec j =
     and_then (journal_prune_guard sec j) (\<lambda>_.
       case bt_get (jr_blobs j) sec of
         None \<Rightarrow> Ok j
       | Some ab \<Rightarrow>
           and_then (map_err Runtime (append_sync ops ab (jr_pool j) (jr_store j))) (\<lambda>(ab, pr, w).
             Ok (set_section sec ab pr w j)))"

text \<open>The loop of \<open>prune\<close> removes the first section as long as it is below \<open>min\<close>.\<close>

fun prune_loop :: "('w, 'h) store_ops \<Rightarrow> nat \<Rightarrow> (nat, 'h append_blob) btree \<Rightarrow> bool \<Rightarrow> 'w \<Rightarrow> ((nat, 'h append_blob) btree \<times> bool \<times> 'w, journal_error) result" where
  "prune_loop ops mn [] pruned w = Ok ([], pruned, w)"
| "prune_loop ops mn ((sec, ab) # blobs) pruned w =
     (if sec \<ge> mn then Ok ((sec, ab) # blobs, pruned, w)
      else and_then (map_err Runtime (append_size ab)) (\<lambda>_.
           and_then (map_err Runtime (st_remove ops (Some (section_name sec)) w)) (\<lambda>w.
             prune_loop ops mn blobs True w)))"

definition journal_prune :: "('w, 'h) store_ops \<Rightarrow> nat \<Rightarrow> ('w, 'h) journal \<Rightarrow> (bool \<times> ('w, 'h) journal, journal_error) result" where
  "journal_prune ops mn j =
     and_then (prune_loop ops mn (jr_blobs j) False (jr_store j)) (\<lambda>(blobs, pruned, w).
       let j = j\<lparr>jr_blobs := blobs, jr_store := w\<rparr>
       in Ok (pruned, if pruned then j\<lparr>jr_oldest_retained_section := mn\<rparr> else j))"

fun close_blobs :: "('w, 'h) store_ops \<Rightarrow> (nat, 'h append_blob) btree \<Rightarrow> pool_ref \<Rightarrow> 'w \<Rightarrow> (pool_ref \<times> 'w, journal_error) result" where
  "close_blobs ops [] pr w = Ok (pr, w)"
| "close_blobs ops ((sec, ab) # blobs) pr w =
     and_then (map_err Runtime (append_size ab)) (\<lambda>_.
     and_then (map_err Runtime (append_sync ops ab pr w)) (\<lambda>(_, pr, w). close_blobs ops blobs pr w))"

definition journal_close :: "('w, 'h) store_ops \<Rightarrow> ('w, 'h) journal \<Rightarrow> (pool_ref \<times> 'w, journal_error) result" where
  "journal_close ops j = close_blobs ops (jr_blobs j) (jr_pool j) (jr_store j)"

definition journal_oldest_section :: "('w, 'h) journal \<Rightarrow> nat option" where
  "journal_oldest_section j = map_option fst (bt_first (jr_blobs j))"

fun destroy_blobs :: "('w, 'h) store_ops \<Rightarrow> (nat, 'h append_blob) btree \<Rightarrow> 'w \<Rightarrow> ('w, journal_error) result" where
  "destroy_blobs ops [] w = Ok w"
| "destroy_blobs ops ((sec, ab) # blobs) w =
     and_then (map_err Runtime (append_size ab)) (\<lambda>_.
     and_then (map_err Runtime (st_remove ops (Some (section_name sec)) w)) (destroy_blobs ops blobs))"

definition journal_destroy :: "('w, 'h) store_ops \<Rightarrow> ('w, 'h) journal \<Rightarrow> ('w, journal_error) result" where
  "journal_destroy ops j =
     and_then (destroy_blobs ops (jr_blobs j) (jr_store j)) (\<lambda>w.
       case st_remove ops None w of
         Ok w \<Rightarrow> Ok w
       | Err (PartitionMissing _) \<Rightarrow> Ok w
       | Err e \<Rightarrow> Err (Runtime e)
       | Panic \<Rightarrow> Panic)"

end
