(* ===== verification/Journal_Contract.thy ===== *)
theory Journal_Contract
  imports Journal_Variable
begin

text \<open>
  What the segmented journal promises. A journal stands for a list of items per section, of which a
  known number is durable (\<open>journal_rel\<close>); appending, syncing, pruning and reading act on those lists, and
  after a crash that cuts every section off somewhere after its durable part, opening and replaying
  the journal returns a prefix of every section that contains its durable items.
\<close>

section \<open>The abstraction\<close>

type_synonym 'v sections = "nat \<rightharpoonup> 'v list \<times> nat"

definition fits :: "bytes \<Rightarrow> bool" where
  "fits l \<longleftrightarrow> align (length l) div 16 \<le> u32_max"

lemma fits_bound: "fits l \<Longrightarrow> 2 * length l \<le> u64_max" "fits l \<Longrightarrow> length l \<le> u64_max"
proof -
  assume "fits l"
  then have "align (length l) div 16 * 16 \<le> u32_max * 16" by (simp add: fits_def)
  then have "length l \<le> u32_max * 16" using align_bounds(1) [of "length l"] by (simp add: align_def)
  moreover have "u32_max * 16 * 2 \<le> u64_max" by (simp add: u32_max_def u64_max_def)
  ultimately show "2 * length l \<le> u64_max" "length l \<le> u64_max" by linarith+
qed

lemma fits_prefix: "fits (l @ m) \<Longrightarrow> fits l"
  unfolding fits_def using div_le_mono [OF align_mono [of "length l" "length (l @ m)"], of 16] by simp

lemma section_of_name: "n \<le> u64_max \<Longrightarrow> unat (from_be_bytes (section_name n) :: u64) = n"
  by (simp add: section_name_def from_to_be_bytes u64_max_def unat_of_nat_less)

lemma section_name_inj: "s \<le> u64_max \<Longrightarrow> t \<le> u64_max \<Longrightarrow> section_name s = section_name t \<longleftrightarrow> s = t"
  using section_of_name by metis

lemma length_section_name [simp]: "length (section_name n) = 8"
  by (simp add: section_name_def)

text \<open>Bytes \<open>l\<close> that hold the items \<open>vs\<close>, of which the durable part \<open>d\<close> holds the first \<open>n\<close>.\<close>

definition holds :: "'v journal_cfg \<Rightarrow> 'v list \<Rightarrow> nat \<Rightarrow> bytes \<Rightarrow> bytes \<Rightarrow> bool" where
  "holds cfg vs n l d \<longleftrightarrow> (\<forall>v \<in> set vs. storable cfg v) \<and> n \<le> length vs \<and> section_repr cfg vs l
     \<and> take (length d) l = d \<and> length (layout cfg [] (take n vs)) \<le> length d"

definition items_of :: "'v sections \<Rightarrow> nat \<Rightarrow> 'v list" where
  "items_of m sec = (case m sec of None \<Rightarrow> [] | Some (vs, _) \<Rightarrow> vs)"

definition synced_of :: "'v sections \<Rightarrow> nat \<Rightarrow> nat" where
  "synced_of m sec = (case m sec of None \<Rightarrow> 0 | Some (_, n) \<Rightarrow> n)"

lemma section_repr_padded:
  assumes "section_repr cfg vs l"
  shows "padded l @ entry_of cfg v = layout cfg [] (vs @ [v])" "length (layout cfg [] vs) \<le> length l"
proof -
  obtain z where z: "l = layout cfg [] vs @ replicate z 0" "length l \<le> align (length (layout cfg [] vs))"
    using assms by (auto simp: section_repr_def)
  have "padded l = padded (layout cfg [] vs)"
    using section_repr_append(2) [OF assms] z by (simp add: padded_def flip: replicate_add)
  then show "padded l @ entry_of cfg v = layout cfg [] (vs @ [v])" by (simp add: layout_append layout_Cons)
  show "length (layout cfg [] vs) \<le> length l" using z(1) by simp
qed

lemma layout_item:
  assumes "i < length vs"
  shows "\<exists>post. layout cfg [] vs = padded (layout cfg [] (take i vs)) @ entry_of cfg (vs ! i) @ post"
proof -
  have "layout cfg [] vs = layout cfg (layout cfg [] (take i vs)) (vs ! i # drop (Suc i) vs)"
    using assms by (metis id_take_nth_drop layout_append)
  then show ?thesis using layout_prefix [of cfg "padded (layout cfg [] (take i vs)) @ entry_of cfg (vs ! i)" "drop (Suc i) vs"]
    by (auto simp: layout_Cons)
qed

lemma holds_sync: "holds cfg vs n l d \<Longrightarrow> holds cfg vs (length vs) l l"
  using section_repr_padded(2) by (auto simp: holds_def)

lemma holds_Nil [simp]: "holds cfg [] 0 [] []"
  by (simp add: holds_def section_repr_Nil)

lemma take_extend: "take (length d) l = d \<Longrightarrow> take (length d) (l @ m) = d"
  by (metis length_take min.absorb_iff2 take_append diff_is_0_eq take_0 append_Nil2)

lemma holds_append:
  assumes h: "holds cfg vs n l d" and v: "storable cfg v"
  shows "holds cfg (vs @ [v]) n (padded l @ entry_of cfg v) d"
proof -
  have "take (length d) (l @ (replicate (align (length l) - length l) 0 @ entry_of cfg v)) = d"
    using h by (intro take_extend) (simp add: holds_def)
  then have "take (length d) (padded l @ entry_of cfg v) = d" by (simp only: padded_def append_assoc)
  moreover have "take n (vs @ [v]) = take n vs" using h by (simp add: holds_def)
  moreover have "section_repr cfg (vs @ [v]) (padded l @ entry_of cfg v)" using h by (intro section_repr_append) (simp add: holds_def)
  ultimately show ?thesis using h v by (simp add: holds_def)
qed

context blob_store
begin

text \<open>
  A section with its blob: the blob's bytes \<open>l\<close> and the durable bytes \<open>d\<close> are related by \<open>P\<close>. A journal
  all of whose sections are such, with distinct blobs and ids.
\<close>

definition section_slot :: "(bytes \<Rightarrow> bytes \<Rightarrow> bool) \<Rightarrow> nat \<Rightarrow> 'h append_blob \<Rightarrow> pool_ref \<Rightarrow> 'w \<Rightarrow> bool" where
  "section_slot P sec ab pr w \<longleftrightarrow> sec \<le> u64_max \<and> ab_id ab < pr_next_id pr \<and> named w (ab_blob ab) = section_name sec
     \<and> (\<exists>c l d. content w (ab_blob ab) = Some c \<and> append_inv c l ab pr \<and> fits l
        \<and> files w (section_name sec) = Some d \<and> P l d)"

definition page_pool_ok :: "pool_ref \<Rightarrow> bool" where
  "page_pool_ok pr \<longleftrightarrow> 0 < pr_page_size pr \<and> 2 * pr_page_size pr \<le> u64_max \<and> pool_inv (pr_page_size pr) (pr_pool pr) \<and> fresh_ids pr"

definition apart :: "(nat \<rightharpoonup> 'h append_blob) \<Rightarrow> bool" where
  "apart b \<longleftrightarrow> (\<forall>s t x y. b s = Some x \<longrightarrow> b t = Some y \<longrightarrow> s \<noteq> t \<longrightarrow> ab_id x \<noteq> ab_id y \<and> ab_blob x \<noteq> ab_blob y)"

definition sections_ok :: "(nat \<Rightarrow> bytes \<Rightarrow> bytes \<Rightarrow> bool) \<Rightarrow> (nat, 'h append_blob) btree \<Rightarrow> pool_ref \<Rightarrow> 'w \<Rightarrow> bool" where
  "sections_ok P blobs pr w \<longleftrightarrow> bt_inv blobs \<and> inv w \<and> page_pool_ok pr \<and> apart (bt_get blobs)
     \<and> (\<forall>sec ab. bt_get blobs sec = Some ab \<longrightarrow> section_slot (P sec) sec ab pr w)"

definition files_covered :: "(nat, 'h append_blob) btree \<Rightarrow> 'w \<Rightarrow> bool" where
  "files_covered blobs w \<longleftrightarrow> (\<forall>name. files w name \<noteq> None \<longrightarrow> (\<exists>sec \<in> dom (bt_get blobs). name = section_name sec))"

definition journal_rel :: "'v journal_cfg \<Rightarrow> 'v sections \<Rightarrow> ('w, 'h) journal \<Rightarrow> bool" where
  "journal_rel cfg m j \<longleftrightarrow> sections_ok (\<lambda>sec l d. \<exists>vs n. m sec = Some (vs, n) \<and> holds cfg vs n l d) (jr_blobs j) (jr_pool j) (jr_store j)
     \<and> files_covered (jr_blobs j) (jr_store j) \<and> dom m = dom (bt_get (jr_blobs j))"

lemma sections_okD:
  assumes "sections_ok P blobs pr w" "bt_get blobs sec = Some ab"
  shows "section_slot (P sec) sec ab pr w" "sec \<le> u64_max" "ab_id ab < pr_next_id pr" "files w (section_name sec) \<noteq> None" "content w (ab_blob ab) \<noteq> None"
  using assms by (auto simp: sections_ok_def section_slot_def)

lemma section_slot_mono: "section_slot P sec ab pr w \<Longrightarrow> (\<And>l d. P l d \<Longrightarrow> Q l d) \<Longrightarrow> section_slot Q sec ab pr w"
  unfolding section_slot_def by blast

lemma sections_ok_mono:
  assumes "sections_ok P blobs pr w" "\<And>sec ab l d. bt_get blobs sec = Some ab \<Longrightarrow> P sec l d \<Longrightarrow> Q sec l d"
  shows "sections_ok Q blobs pr w"
  using assms section_slot_mono unfolding sections_ok_def by metis

lemma section_slot_other:
  assumes "section_slot P sec ab pr w" "same_pool i pr pr'" "ab_id ab \<noteq> i"
    and "content w' (ab_blob ab) = content w (ab_blob ab)" "named w' (ab_blob ab) = named w (ab_blob ab)"
    and "files w' (section_name sec) = files w (section_name sec)"
  shows "section_slot P sec ab pr' w'"
  using assms append_inv_other [OF _ assms(2,3)] unfolding section_slot_def same_pool_def by auto

lemma page_pool_ok_same: "page_pool_ok pr \<Longrightarrow> same_pool i pr pr' \<Longrightarrow> i < pr_next_id pr \<Longrightarrow> page_pool_ok pr'"
  using same_pool_fresh by (auto simp: page_pool_ok_def same_pool_def)

lemma apart_insert:
  assumes "apart b" "\<And>u y. b u = Some y \<Longrightarrow> u \<noteq> s \<Longrightarrow> ab_id y \<noteq> ab_id x \<and> ab_blob y \<noteq> ab_blob x"
  shows "apart (b(s \<mapsto> x))"
  using assms unfolding apart_def fun_upd_apply by (metis option.inject)

text \<open>An operation on one section that keeps its blob and id, and touches no other name.\<close>

lemma sections_ok_set:
  assumes j: "sections_ok P blobs pr w" and ab: "bt_get blobs sec = Some ab"
    and ab': "ab_blob ab' = ab_blob ab" "ab_id ab' = ab_id ab" "same_pool (ab_id ab) pr pr'"
    and w': "inv w'" "\<And>h. h \<noteq> ab_blob ab \<Longrightarrow> content w' h = content w h" "named w' = named w"
      "\<And>name. name \<noteq> section_name sec \<Longrightarrow> files w' name = files w name"
    and s: "section_slot Q sec ab' pr' w'"
  shows "sections_ok (P(sec := Q)) (bt_insert sec ab' blobs) pr' w'"
proof -
  note get = bt_get_insert [of sec ab' blobs]
  have a: "apart (bt_get blobs)" using j by (simp add: sections_ok_def)
  have other: "section_slot (P t) t b pr' w'" if b: "bt_get blobs t = Some b" "t \<noteq> sec" for t b
  proof -
    have "section_name t \<noteq> section_name sec" using section_name_inj sections_okD(2) [OF j] b ab by metis
    moreover have "ab_id b \<noteq> ab_id ab" "ab_blob b \<noteq> ab_blob ab" using a b ab unfolding apart_def by metis+
    ultimately show ?thesis using sections_okD(1) [OF j b(1)] section_slot_other [OF _ ab'(3)] w' by metis
  qed
  have "apart (bt_get (bt_insert sec ab' blobs))"
    unfolding get using a ab ab'(1,2) by (intro apart_insert) (auto simp: apart_def)
  moreover have "page_pool_ok pr'" using page_pool_ok_same [OF _ ab'(3)] sections_okD(3) [OF j ab] j by (simp add: sections_ok_def)
  ultimately show ?thesis using j w'(1) s other unfolding sections_ok_def get by (auto simp: bt_inv_insert)
qed

text \<open>Opening a section that the journal does not have.\<close>

lemma sections_ok_new:
  assumes j: "sections_ok P blobs pr w" and sec: "bt_get blobs sec = None" "sec \<le> u64_max"
    and o: "st_open ops (section_name sec) w = Ok (h, length c, w')" "content w h = None" "content w' = (content w)(h \<mapsto> c)"
      "named w' h = section_name sec" "\<forall>k. content w k \<noteq> None \<longrightarrow> named w' k = named w k" "files w' = (files w)(section_name sec \<mapsto> c)" "inv w'"
    and c: "fits c" "Q c c" and n: "pr_next_id pr < u64_max"
  shows "\<exists>ab pr'. append_new ops h (length c) bs pr w' = Ok (ab, pr') \<and> sections_ok (P(sec := Q)) (bt_insert sec ab blobs) pr' w'
    \<and> pr_next_id pr' = pr_next_id pr + 1"
proof -
  have p: "page_pool_ok pr" "apart (bt_get blobs)" using j by (simp_all add: sections_ok_def)
  have "content w' h = Some c" using o(3) by simp
  then obtain ab where ab: "append_new ops h (length c) bs pr w' = Ok (ab, pr\<lparr>pr_next_id := pr_next_id pr + 1\<rparr>)" "ab_blob ab = h" "ab_id ab = pr_next_id pr"
      "append_inv c c ab (pr\<lparr>pr_next_id := pr_next_id pr + 1\<rparr>)"
    using append_new_ok [of w' h c pr bs] o(7) fits_bound(2) [OF c(1)] p(1) n by (auto simp: page_pool_ok_def)
  let ?pr = "pr\<lparr>pr_next_id := pr_next_id pr + 1\<rparr>"
  note get = bt_get_insert [of sec ab blobs]
  have "section_slot Q sec ab ?pr w'" using ab o c sec(2) by (auto simp: section_slot_def)
  moreover have "section_slot (P t) t b ?pr w'" if b: "bt_get blobs t = Some b" for t b
  proof -
    have "section_name t \<noteq> section_name sec" using section_name_inj sections_okD(2) [OF j b] sec b by auto
    moreover have "ab_blob b \<noteq> h" "named w' (ab_blob b) = named w (ab_blob b)" using sections_okD(5) [OF j b] o(2,5) by auto
    ultimately show ?thesis using sections_okD(1) [OF j b] o(3,6) by (auto simp: section_slot_def append_inv_def)
  qed
  moreover have "apart (bt_get (bt_insert sec ab blobs))"
    unfolding get
  proof (rule apart_insert [OF p(2)])
    fix u b assume "bt_get blobs u = Some b" "u \<noteq> sec"
    then show "ab_id b \<noteq> ab_id ab \<and> ab_blob b \<noteq> ab_blob ab"
      using sections_okD(3,5) [OF j] ab(2,3) o(2) by fastforce
  qed
  moreover have "page_pool_ok ?pr" using p(1) by (simp add: page_pool_ok_def fresh_ids_def)
  ultimately have "sections_ok (P(sec := Q)) (bt_insert sec ab blobs) ?pr w'"
    using j o(7) sec(1) unfolding sections_ok_def get by (auto simp: bt_inv_insert)
  then show ?thesis using ab(1) by auto
qed

section \<open>Appending\<close>

lemma section_blob_ok:
  assumes j: "journal_rel cfg m j" and sec: "sec \<le> u64_max" and n: "pr_next_id (jr_pool j) < u64_max"
  shows "\<exists>ab j'. section_blob ops cfg sec j = Ok (ab, j') \<and> journal_rel cfg (m(sec \<mapsto> (items_of m sec, synced_of m sec))) j'
    \<and> bt_get (jr_blobs j') sec = Some ab \<and> jr_oldest_retained_section j' = jr_oldest_retained_section j
    \<and> pr_next_id (jr_pool j') \<le> pr_next_id (jr_pool j) + 1"
proof (cases "bt_get (jr_blobs j) sec")
  case (Some ab)
  then obtain vs k where m: "m sec = Some (vs, k)" using j unfolding journal_rel_def by (metis domD domI surj_pair)
  then have "m(sec \<mapsto> (items_of m sec, synced_of m sec)) = m" by (auto simp: items_of_def synced_of_def)
  then show ?thesis using Some j by (simp add: section_blob_def)
next
  case None
  have ok: "sections_ok (\<lambda>sec l d. \<exists>vs n. m sec = Some (vs, n) \<and> holds cfg vs n l d) (jr_blobs j) (jr_pool j) (jr_store j)"
    and cov: "files_covered (jr_blobs j) (jr_store j)" and dm: "dom m = dom (bt_get (jr_blobs j))" using j by (simp_all add: journal_rel_def)
  have "files (jr_store j) (section_name sec) = None"
  proof (rule ccontr)
    assume "files (jr_store j) (section_name sec) \<noteq> None"
    then obtain t where "t \<in> dom (bt_get (jr_blobs j))" "section_name sec = section_name t" using cov unfolding files_covered_def by blast
    then show False using None section_name_inj sec sections_okD(2) [OF ok] by auto
  qed
  moreover have "inv (jr_store j)" using ok by (simp add: sections_ok_def)
  ultimately obtain h w' where o: "st_open ops (section_name sec) (jr_store j) = Ok (h, length ([] :: bytes), w')" "content (jr_store j) h = None"
      "content w' = (content (jr_store j))(h \<mapsto> [])" "named w' h = section_name sec"
      "\<forall>k. content (jr_store j) k \<noteq> None \<longrightarrow> named w' k = named (jr_store j) k" "files w' = (files (jr_store j))(section_name sec \<mapsto> [])" "inv w'"
    using open_ok [of "jr_store j" "section_name sec"] by auto
  obtain ab pr' where ab: "append_new ops h (length ([] :: bytes)) (jc_write_buffer cfg) (jr_pool j) w' = Ok (ab, pr')"
      "sections_ok ((\<lambda>sec l d. \<exists>vs n. m sec = Some (vs, n) \<and> holds cfg vs n l d)(sec := holds cfg [] 0)) (bt_insert sec ab (jr_blobs j)) pr' w'" "pr_next_id pr' = pr_next_id (jr_pool j) + 1"
    using sections_ok_new [OF ok None sec o _ _ n, where Q = "holds cfg [] 0" and bs = "jc_write_buffer cfg"] by (auto simp: fits_def align_def)
  let ?j = "set_section sec ab pr' w' j"
  have "m sec = None" using None dm by auto
  then have e: "m(sec \<mapsto> (items_of m sec, synced_of m sec)) = m(sec \<mapsto> ([], 0))" by (simp add: items_of_def synced_of_def)
  have "sections_ok (\<lambda>sec' l d. \<exists>vs n. (m(sec \<mapsto> ([], 0))) sec' = Some (vs, n) \<and> holds cfg vs n l d) (bt_insert sec ab (jr_blobs j)) pr' w'"
    by (rule sections_ok_mono [OF ab(2)]) (auto split: if_splits)
  moreover have "files_covered (bt_insert sec ab (jr_blobs j)) w'" using cov o(6) by (auto simp: files_covered_def bt_get_insert)
  ultimately have "journal_rel cfg (m(sec \<mapsto> ([], 0))) ?j" using dm by (simp add: journal_rel_def set_section_def bt_get_insert)
  then show ?thesis using None o(1) ab(1,3) e by (auto simp: section_blob_def set_section_def bt_get_insert)
qed

text \<open>A section of a journal, with its bytes.\<close>

lemma journal_relD:
  assumes "journal_rel cfg m j" "bt_get (jr_blobs j) sec = Some ab"
  obtains vs n c l d where "m sec = Some (vs, n)" "holds cfg vs n l d" "inv (jr_store j)" "content (jr_store j) (ab_blob ab) = Some c"
    "append_inv c l ab (jr_pool j)" "fits l" "files (jr_store j) (section_name sec) = Some d" "named (jr_store j) (ab_blob ab) = section_name sec"
    "sec \<le> u64_max" "ab_id ab < pr_next_id (jr_pool j)"
  using assms sections_okD(1) [of _ "jr_blobs j" "jr_pool j" "jr_store j" sec ab] unfolding journal_rel_def section_slot_def sections_ok_def by fastforce

text \<open>An operation on one section, with its effect on the bytes.\<close>

lemma journal_rel_set:
  assumes j: "journal_rel cfg m j" and ab: "bt_get (jr_blobs j) sec = Some ab"
    and ab': "ab_blob ab' = ab_blob ab" "ab_id ab' = ab_id ab" "same_pool (ab_id ab) (jr_pool j) pr'" "append_inv c' l' ab' pr'"
    and w': "inv w'" "content w' = (content (jr_store j))(ab_blob ab \<mapsto> c')" "named w' = named (jr_store j)"
      "files w' = (files (jr_store j))(section_name sec \<mapsto> d')"
    and h: "holds cfg vs' n' l' d'" "fits l'"
  shows "journal_rel cfg (m(sec \<mapsto> (vs', n'))) (set_section sec ab' pr' w' j)"
proof -
  have ok: "sections_ok (\<lambda>sec l d. \<exists>vs n. m sec = Some (vs, n) \<and> holds cfg vs n l d) (jr_blobs j) (jr_pool j) (jr_store j)"
    using j by (simp add: journal_rel_def)
  have s: "section_slot (holds cfg vs' n') sec ab' pr' w'"
    using sections_okD(1-3) [OF ok ab] ab' w' h by (auto simp: section_slot_def same_pool_def)
  have "sections_ok ((\<lambda>sec l d. \<exists>vs n. m sec = Some (vs, n) \<and> holds cfg vs n l d)(sec := holds cfg vs' n')) (bt_insert sec ab' (jr_blobs j)) pr' w'"
    using w' by (intro sections_ok_set [OF ok ab ab'(1-3) w'(1) _ w'(3) _ s]) auto
  then have "sections_ok (\<lambda>sec' l d. \<exists>vs n. (m(sec \<mapsto> (vs', n'))) sec' = Some (vs, n) \<and> holds cfg vs n l d) (bt_insert sec ab' (jr_blobs j)) pr' w'"
    by (rule sections_ok_mono) (auto split: if_splits)
  moreover have "files_covered (bt_insert sec ab' (jr_blobs j)) w'"
    using j w'(4) by (auto simp: journal_rel_def files_covered_def bt_get_insert)
  ultimately show ?thesis using j by (simp add: journal_rel_def set_section_def bt_get_insert)
qed

lemma item_entry_stored:
  assumes "storable cfg v"
  shows "item_len (stored cfg v) = Ok (word_of_nat (length (stored cfg v)))"
    "item_entry (jc_crc cfg) (word_of_nat (length (stored cfg v))) (stored cfg v) = entry_of cfg v"
  using storableD(2) [OF assms] by (simp_all add: item_len_def entry_of_def)

lemma journal_append_ok:
  assumes j: "journal_rel cfg m j" and sec: "sec \<le> u64_max" "jr_oldest_retained_section j \<le> sec" and n: "pr_next_id (jr_pool j) < u64_max"
    and v: "storable cfg v" and f: "fits (layout cfg [] (items_of m sec @ [v]))"
  shows "\<exists>j'. journal_append ops cfg sec v j = Ok ((align (length (layout cfg [] (items_of m sec))) div 16, length (stored cfg v)), j')
    \<and> journal_rel cfg (m(sec \<mapsto> (items_of m sec @ [v], synced_of m sec))) j' \<and> jr_oldest_retained_section j' = jr_oldest_retained_section j
    \<and> pr_next_id (jr_pool j') \<le> pr_next_id (jr_pool j) + 1"
proof -
  obtain ab j1 where j1: "section_blob ops cfg sec j = Ok (ab, j1)" "journal_rel cfg (m(sec \<mapsto> (items_of m sec, synced_of m sec))) j1"
      "bt_get (jr_blobs j1) sec = Some ab" "jr_oldest_retained_section j1 = jr_oldest_retained_section j"
      "pr_next_id (jr_pool j1) \<le> pr_next_id (jr_pool j) + 1"
    using section_blob_ok [OF j sec(1) n] by blast
  obtain c l d where l: "holds cfg (items_of m sec) (synced_of m sec) l d" "inv (jr_store j1)" "content (jr_store j1) (ab_blob ab) = Some c"
      "append_inv c l ab (jr_pool j1)" "fits l" "files (jr_store j1) (section_name sec) = Some d"
    using j1(2,3) by (rule journal_relD) simp
  have rep: "section_repr cfg (items_of m sec) l" using l(1) by (simp add: holds_def)
  let ?pad = "replicate (align (length l) - length l) 0 :: bytes" and ?off = "align (length l) div 16"
  have l': "l @ ?pad @ entry_of cfg v = padded l @ entry_of cfg v" by (simp add: padded_def)
  have fit: "fits (padded l @ entry_of cfg v)" using f section_repr_padded(1) [OF rep] by simp
  have "length l + length (?pad @ entry_of cfg v) \<le> u64_max" using fits_bound(2) [OF fit] arg_cong [OF l', of length] by simp
  then obtain c' where ap: "appends c' (padded l @ entry_of cfg v) ab (jr_pool j1) (jr_store j1) (append_append ops (?pad @ entry_of cfg v) ab (jr_pool j1) (jr_store j1))"
    using append_append_ok [OF l(2,3,4), of "?pad @ entry_of cfg v"] l' by auto
  then obtain ab' pr' w' where a: "append_append ops (?pad @ entry_of cfg v) ab (jr_pool j1) (jr_store j1) = Ok (ab', pr', w')" "ab_blob ab' = ab_blob ab"
      "ab_id ab' = ab_id ab" "same_pool (ab_id ab) (jr_pool j1) pr'" "append_inv c' (padded l @ entry_of cfg v) ab' pr'" "inv w'"
      "content w' = (content (jr_store j1))(ab_blob ab \<mapsto> c')" "named w' = named (jr_store j1)" "files w' = files (jr_store j1)"
    by (auto simp: appends_def)
  have "files w' = (files (jr_store j1))(section_name sec \<mapsto> d)" using a(9) l(6) by auto
  from journal_rel_set [OF j1(2,3) a(2-8) this holds_append [OF l(1) v] fit]
  have rel: "journal_rel cfg (m(sec \<mapsto> (items_of m sec @ [v], synced_of m sec))) (set_section sec ab' pr' w' j1)" by simp
  have off: "?off * 16 = align (length l)" by (simp add: align_def)
  have "align (length l) \<le> u64_max" using fits_bound(2) [OF fit] by simp
  then have "journal_append ops cfg sec v j = Ok ((?off, length (stored cfg v)), set_section sec ab' pr' w' j1)"
    using sec(2) storableD(1) [OF v] item_entry_stored [OF v] j1(1) append_size_ok [OF l(4) fits_bound(2) [OF l(5)]]
      compute_next_offset_ok [of "length l"] l(5) off a(1) align_bounds(1) [of "length l"] unat_stored [OF storableD(2) [OF v]]
    by (simp add: journal_append_def journal_prune_guard_def ITEM_ALIGNMENT_def fits_def Let_def)
  then show ?thesis using rel j1(4,5) a(4) section_repr_append(2) [OF rep] by (simp add: set_section_def same_pool_def)
qed

section \<open>Syncing and reading\<close>

lemma journal_sync_ok:
  assumes j: "journal_rel cfg m j" and sec: "jr_oldest_retained_section j \<le> sec" "m sec = Some (vs, n)"
  shows "\<exists>j'. journal_sync ops sec j = Ok j' \<and> journal_rel cfg (m(sec \<mapsto> (vs, length vs))) j'
    \<and> jr_oldest_retained_section j' = jr_oldest_retained_section j
    \<and> pr_next_id (jr_pool j') = pr_next_id (jr_pool j)"
proof -
  obtain ab where ab: "bt_get (jr_blobs j) sec = Some ab" using j sec(2) unfolding journal_rel_def by blast
  obtain c l d where l: "holds cfg vs n l d" "inv (jr_store j)" "content (jr_store j) (ab_blob ab) = Some c"
      "append_inv c l ab (jr_pool j)" "fits l" "files (jr_store j) (section_name sec) = Some d" "named (jr_store j) (ab_blob ab) = section_name sec"
    using j ab by (rule journal_relD) (use sec(2) in simp)
  obtain ab' pr' w' where a: "append_sync ops ab (jr_pool j) (jr_store j) = Ok (ab', pr', w')" "ab_blob ab' = ab_blob ab" "ab_id ab' = ab_id ab"
      "same_pool (ab_id ab) (jr_pool j) pr'" "append_inv l l ab' pr'" "inv w'" "content w' = (content (jr_store j))(ab_blob ab \<mapsto> l)"
      "named w' = named (jr_store j)" "files w' = (files (jr_store j))(section_name sec \<mapsto> l)"
    using append_sync_ok [OF l(2-4) fits_bound(2) [OF l(5)]] l(6,7) by auto
  from journal_rel_set [OF j ab a(2-9) holds_sync [OF l(1)] l(5)] show ?thesis
    using a(1,4) ab sec(1) by (simp add: journal_sync_def journal_prune_guard_def set_section_def same_pool_def)
qed

lemma journal_sync_missing:
  assumes "journal_rel cfg m j" "jr_oldest_retained_section j \<le> sec" "m sec = None"
  shows "journal_sync ops sec j = Ok j"
proof -
  have "bt_get (jr_blobs j) sec = None" using assms unfolding journal_rel_def by blast
  then show ?thesis using assms(2) by (simp add: journal_sync_def journal_prune_guard_def)
qed

lemma journal_get_ok:
  assumes j: "journal_rel cfg m j" and sec: "jr_oldest_retained_section j \<le> sec" "m sec = Some (vs, n)" and i: "i < length vs"
  shows "\<exists>j'. journal_get ops cfg sec (align (length (layout cfg [] (take i vs))) div 16) j = Ok (vs ! i, j') \<and> journal_rel cfg m j'
    \<and> jr_oldest_retained_section j' = jr_oldest_retained_section j
    \<and> pr_next_id (jr_pool j') = pr_next_id (jr_pool j)"
proof -
  obtain ab where ab: "bt_get (jr_blobs j) sec = Some ab" using j sec(2) unfolding journal_rel_def by blast
  obtain c l d where l: "holds cfg vs n l d" "inv (jr_store j)" "content (jr_store j) (ab_blob ab) = Some c"
      "append_inv c l ab (jr_pool j)" "fits l" "files (jr_store j) (section_name sec) = Some d"
    using j ab by (rule journal_relD) (use sec(2) in simp)
  let ?pre = "padded (layout cfg [] (take i vs))" and ?off = "align (length (layout cfg [] (take i vs))) div 16"
  obtain post where post: "l = ?pre @ entry_of cfg (vs ! i) @ post"
    using layout_item [OF i, of cfg] l(1) by (auto simp: holds_def section_repr_def)
  have "append_view content inv (ab, jr_pool j, jr_store j) = Some l"
    using l fits_bound(2) [OF l(5)] by (auto simp: append_view_Some)
  moreover have "storable cfg (vs ! i)" using l(1) i by (simp add: holds_def)
  moreover have "fits (?pre @ entry_of cfg (vs ! i))" using l(5) post fits_prefix [of "?pre @ entry_of cfg (vs ! i)" post] by simp
  then have "align (?off * 16 + length (entry_of cfg (vs ! i))) div 16 \<le> u32_max" by (simp add: fits_def align_div)
  ultimately obtain s' where r: "journal_read cfg (append_rd ops) ?off (ab, jr_pool j, jr_store j) =
      Ok ((align (?off * 16 + length (entry_of cfg (vs ! i))) div 16, length (stored cfg (vs ! i)), vs ! i), s')"
      "append_view content inv s' = Some l" "append_frame (ab, jr_pool j, jr_store j) s'"
    using append.journal_read_ok [OF _ post padded_offset] by blast
  obtain pr' where s': "s' = (ab, pr', jr_store j)" "same_pool (ab_id ab) (jr_pool j) pr'" "append_inv c l ab pr'"
    using r(2,3) l(3) by (cases s') (auto simp: append_frame_def append_view_Some)
  have "content (jr_store j) = (content (jr_store j))(ab_blob ab \<mapsto> c)" "files (jr_store j) = (files (jr_store j))(section_name sec \<mapsto> d)"
    "m(sec \<mapsto> (vs, n)) = m" using l(3,6) sec(2) by auto
  with journal_rel_set [OF j ab refl refl s'(2,3) l(2) _ refl _ l(1,5)]
  have "journal_rel cfg m (set_section sec ab pr' (jr_store j) j)" by simp
  then show ?thesis using r(1) s'(1,2) ab sec(1) by (simp add: journal_get_def journal_prune_guard_def set_section_def same_pool_def)
qed

section \<open>Pruning\<close>

lemma prune_loop_ok:
  assumes "bt_inv blobs" "inv w" "\<forall>sec ab. bt_get blobs sec = Some ab \<longrightarrow> sec \<le> u64_max \<and> files w (section_name sec) \<noteq> None \<and> (\<exists>s. append_size ab = Ok s)"
  shows "\<exists>w'. prune_loop ops mn blobs b w = Ok (filter (\<lambda>(s, _). mn \<le> s) blobs, b \<or> (\<exists>s \<in> dom (bt_get blobs). s < mn), w')
    \<and> inv w' \<and> content w' = content w \<and> named w' = named w
    \<and> files w' = (\<lambda>name. if \<exists>s \<in> dom (bt_get blobs). s < mn \<and> name = section_name s then None else files w name)"
  using assms
proof (induction blobs arbitrary: b w)
  case Nil
  then show ?case by (simp add: bt_get_def)
next
  case (Cons x blobs)
  obtain sec ab where x: "x = (sec, ab)" by (cases x)
  have gt: "\<forall>t \<in> dom (bt_get blobs). sec < t" and i: "bt_inv blobs"
    using Cons.prems(1) x by (auto simp: bt_dom)
  have get: "bt_get (x # blobs) = (bt_get blobs)(sec \<mapsto> ab)" using x by (auto simp: bt_get_def fun_eq_iff)
  show ?case
  proof (cases "mn \<le> sec")
    case True
    then have "filter (\<lambda>(s, _). mn \<le> s) blobs = blobs"
      using gt by (intro filter_True) (force simp: bt_dom)
    moreover have "mn \<le> s" if "s \<in> dom (bt_get (x # blobs))" for s
      using that True gt unfolding get by (metis domIff fun_upd_apply le_trans less_imp_le)
    then have "\<not> (\<exists>s \<in> dom (bt_get (x # blobs)). s < mn)" by (simp add: not_less)
    ultimately show ?thesis using True x Cons.prems(2) by auto
  next
    case False
    have h: "sec \<le> u64_max" "files w (section_name sec) \<noteq> None" "\<exists>s. append_size ab = Ok s"
      using Cons.prems(3) unfolding get by (metis fun_upd_same)+
    obtain w1 where w1: "st_remove ops (Some (section_name sec)) w = Ok w1" "content w1 = content w" "named w1 = named w"
        "files w1 = (files w)(section_name sec := None)" "inv w1"
      using remove_ok [OF Cons.prems(2) h(2)] by blast
    have "\<forall>t ab. bt_get blobs t = Some ab \<longrightarrow> t \<le> u64_max \<and> files w1 (section_name t) \<noteq> None \<and> (\<exists>s. append_size ab = Ok s)"
    proof (intro allI impI)
      fix t c assume t: "bt_get blobs t = Some c"
      then have "t \<noteq> sec" using gt by auto
      then have p: "t \<le> u64_max \<and> files w (section_name t) \<noteq> None \<and> (\<exists>s. append_size c = Ok s)"
        using Cons.prems(3) t unfolding get by (metis fun_upd_other)
      then have "section_name t \<noteq> section_name sec" using section_name_inj h(1) \<open>t \<noteq> sec\<close> by auto
      then show "t \<le> u64_max \<and> files w1 (section_name t) \<noteq> None \<and> (\<exists>s. append_size c = Ok s)" using p w1(4) by simp
    qed
    from Cons.IH [OF i w1(5) this, of True] obtain w' where
      w': "prune_loop ops mn blobs True w1 = Ok (filter (\<lambda>(s, _). mn \<le> s) blobs, True, w')" "inv w'" "content w' = content w" "named w' = named w"
        "files w' = (\<lambda>name. if \<exists>s \<in> dom (bt_get blobs). s < mn \<and> name = section_name s then None else files w1 name)"
      using w1(2,3) by auto
    have "files w' = (\<lambda>name. if \<exists>s \<in> dom (bt_get (x # blobs)). s < mn \<and> name = section_name s then None else files w name)"
      using False w1(4) unfolding w'(5) get by (auto simp: fun_eq_iff)
    moreover have "sec \<in> dom (bt_get (x # blobs))" unfolding get by simp
    then have "(b \<or> (\<exists>s \<in> dom (bt_get (x # blobs)). s < mn)) = True" using False by (auto simp: not_le)
    moreover have "prune_loop ops mn (x # blobs) b w = Ok (filter (\<lambda>(s, _). mn \<le> s) (x # blobs), True, w')"
      using w'(1) w1(1) h(3) False x by auto
    ultimately show ?thesis using w'(2-4) by (intro exI [of _ w']) (simp only: simp_thms)
  qed
qed

lemma journal_prune_ok:
  assumes j: "journal_rel cfg m j"
  shows "\<exists>j'. journal_prune ops mn j = Ok (\<exists>s \<in> dom m. s < mn, j') \<and> journal_rel cfg (m |` {mn..}) j'
    \<and> jr_oldest_retained_section j' = (if \<exists>s \<in> dom m. s < mn then mn else jr_oldest_retained_section j)
    \<and> pr_next_id (jr_pool j') = pr_next_id (jr_pool j)"
proof -
  let ?P = "\<lambda>sec l d. \<exists>vs n. m sec = Some (vs, n) \<and> holds cfg vs n l d"
  let ?b = "filter (\<lambda>(s, _). mn \<le> s) (jr_blobs j)"
  have ok: "sections_ok ?P (jr_blobs j) (jr_pool j) (jr_store j)" and cov: "files_covered (jr_blobs j) (jr_store j)"
    and dm: "dom m = dom (bt_get (jr_blobs j))" using j by (simp_all add: journal_rel_def)
  have inv: "bt_inv (jr_blobs j)" "inv (jr_store j)" using ok by (simp_all add: sections_ok_def)
  have "sec \<le> u64_max \<and> files (jr_store j) (section_name sec) \<noteq> None \<and> (\<exists>s. append_size ab = Ok s)" if "bt_get (jr_blobs j) sec = Some ab" for sec ab
    using sections_okD(1,2,4) [OF ok that] append_size_ok fits_bound(2) unfolding section_slot_def by metis
  then obtain w' where w': "prune_loop ops mn (jr_blobs j) False (jr_store j) = Ok (?b, \<exists>s \<in> dom m. s < mn, w')" "inv w'"
      "content w' = content (jr_store j)" "named w' = named (jr_store j)"
      "files w' = (\<lambda>name. if \<exists>s \<in> dom m. s < mn \<and> name = section_name s then None else files (jr_store j) name)"
    using prune_loop_ok [OF inv, of mn False] dm by auto
  have get: "bt_get ?b sec = (if mn \<le> sec then bt_get (jr_blobs j) sec else None)" for sec
    using bt_get_filter [of "\<lambda>s. mn \<le> s" "jr_blobs j" sec] by simp
  have keep: "files w' (section_name sec) = files (jr_store j) (section_name sec)" if "mn \<le> sec" "bt_get (jr_blobs j) sec = Some ab" for sec ab
  proof -
    have "\<not> (\<exists>s \<in> dom m. s < mn \<and> section_name sec = section_name s)"
    proof
      assume "\<exists>s \<in> dom m. s < mn \<and> section_name sec = section_name s"
      then obtain s b where "s < mn" "section_name sec = section_name s" "bt_get (jr_blobs j) s = Some b" using dm by auto
      then show False using section_name_inj sections_okD(2) [OF ok] that by (metis leD)
    qed
    then show ?thesis unfolding w'(5) by (rule if_not_P)
  qed
  have "section_slot ((\<lambda>sec l d. \<exists>vs n. (m |` {mn..}) sec = Some (vs, n) \<and> holds cfg vs n l d) sec) sec ab (jr_pool j) w'" if "bt_get ?b sec = Some ab" for sec ab
  proof -
    have g: "mn \<le> sec" "bt_get (jr_blobs j) sec = Some ab" using that get [of sec] by (auto split: if_splits)
    then show ?thesis using sections_okD(1) [OF ok g(2)] keep [OF g] w'(3,4) by (auto simp: section_slot_def restrict_map_def)
  qed
  moreover have "apart (bt_get ?b)" using ok unfolding sections_ok_def apart_def get by (auto split: if_splits)
  ultimately have "sections_ok (\<lambda>sec l d. \<exists>vs n. (m |` {mn..}) sec = Some (vs, n) \<and> holds cfg vs n l d) ?b (jr_pool j) w'"
    using ok w'(2) bt_inv_filter unfolding sections_ok_def by blast
  moreover have "files_covered ?b w'"
    unfolding files_covered_def
  proof (intro allI impI)
    fix name assume "files w' name \<noteq> None"
    then have "files (jr_store j) name \<noteq> None" "\<not> (\<exists>s \<in> dom m. s < mn \<and> name = section_name s)" unfolding w'(5) by (auto split: if_splits)
    then obtain s where "s \<in> dom (bt_get (jr_blobs j))" "name = section_name s" "mn \<le> s"
      using cov dm unfolding files_covered_def by (metis not_less)
    then show "\<exists>sec \<in> dom (bt_get ?b). name = section_name sec" using get by (auto intro!: bexI [of _ s])
  qed
  moreover have "dom (m |` {mn..}) = dom (bt_get ?b)" using dm get by (auto split: if_splits)
  ultimately show ?thesis using w'(1) by (auto simp: journal_prune_def journal_rel_def)
qed

end

end
