(* ===== verification/Journal_Recovery.thy ===== *)
theory Journal_Recovery
  imports Journal_Contract
begin

text \<open>
  Opening and replaying a segmented journal after a crash. What survives of a section is the bytes of
  its synced items, followed by a part of the later ones that is cut off anywhere or runs into bytes which
  are no complete item; \<open>journal_recovers\<close> shows that \<open>init\<close> followed by a
  \<open>replay\<close> from the start returns, section by section, a prefix of the items that contains the synced
  ones, and leaves a journal that holds exactly those.
\<close>

text \<open>
  The files of a journal with the sections \<open>m\<close>: one for every section and no other,
  with the bytes of its synced items and a prefix of the bytes after them.
\<close>

definition survivor :: "'v journal_cfg \<Rightarrow> 'v sections \<Rightarrow> (bytes \<rightharpoonup> bytes) \<Rightarrow> bool" where
  "survivor cfg m F \<longleftrightarrow> (\<forall>name. F name \<noteq> None \<longrightarrow> (\<exists>sec \<in> dom m. name = section_name sec))
     \<and> (\<forall>sec vs n. m sec = Some (vs, n) \<longrightarrow> sec \<le> u64_max \<and> (\<exists>l d. F (section_name sec) = Some d \<and> holds cfg vs n l d \<and> fits l))"

text \<open>
  The files a crash can leave of such a journal. A section is a prefix of its bytes that has the synced items, or
  some of its items with all the synced ones, then anything up to the next offset and a tail whose first item is torn.
  A tail that looks like an item with a correct checksum is not a possible rest, and neither is one in which the length of the
  first item cannot be decoded: \<open>replay_section_bad\<close> shows that the replay ends with an error there.
\<close>

definition section_rest :: "'v journal_cfg \<Rightarrow> 'v list \<Rightarrow> nat \<Rightarrow> bytes \<Rightarrow> bool" where
  "section_rest cfg vs n d \<longleftrightarrow> (\<exists>l. holds cfg vs n l d \<and> fits l)
     \<or> fits d \<and> (\<forall>v \<in> set vs. storable cfg v)
       \<and> (\<exists>i q t. n \<le> i \<and> i \<le> length vs \<and> d = layout cfg [] (take i vs) @ q @ t
           \<and> length (layout cfg [] (take i vs) @ q) = align (length (layout cfg [] (take i vs))) \<and> t \<noteq> [] \<and> torn_item cfg t)"

definition crash_rest :: "'v journal_cfg \<Rightarrow> 'v sections \<Rightarrow> (bytes \<rightharpoonup> bytes) \<Rightarrow> bool" where
  "crash_rest cfg m F \<longleftrightarrow> (\<forall>name. F name \<noteq> None \<longrightarrow> (\<exists>sec \<in> dom m. name = section_name sec))
     \<and> (\<forall>sec vs n. m sec = Some (vs, n) \<longrightarrow> sec \<le> u64_max \<and> (\<exists>d. F (section_name sec) = Some d \<and> section_rest cfg vs n d))"

lemma survivor_crash_rest: "survivor cfg m F \<Longrightarrow> crash_rest cfg m F"
  unfolding survivor_def crash_rest_def section_rest_def by blast

text \<open>The items a replay returns of a section.\<close>

definition replay_items :: "'v journal_cfg \<Rightarrow> 'v sections \<Rightarrow> nat \<Rightarrow> (nat \<times> nat \<times> nat \<times> 'v) list" where
  "replay_items cfg m sec = map (\<lambda>(offset, sz, v). (sec, offset, sz, v)) (places cfg [] (items_of m sec))"

text \<open>A prefix of the items of every section, with the synced ones, all of it durable.\<close>

definition keeps_synced :: "'v sections \<Rightarrow> 'v sections \<Rightarrow> bool" where
  "keeps_synced m m' \<longleftrightarrow> dom m' = dom m \<and> (\<forall>sec vs n. m sec = Some (vs, n) \<longrightarrow> (\<exists>k. n \<le> k \<and> k \<le> length vs \<and> m' sec = Some (take k vs, k)))"

lemma holds_prefix: "holds cfg vs n l d \<Longrightarrow> fits l \<Longrightarrow> fits d"
  using fits_prefix [of d "drop (length d) l"] by (metis append_take_drop_id holds_def)

lemma section_rest_fits: "section_rest cfg vs n d \<Longrightarrow> fits d"
  using holds_prefix unfolding section_rest_def by blast

context blob_store
begin

definition recoverable :: "'v journal_cfg \<Rightarrow> 'v sections \<Rightarrow> 'w \<Rightarrow> bool" where
  "recoverable cfg m w \<longleftrightarrow> inv w \<and> crash_rest cfg m (files w)"

text \<open>All that \<open>init\<close> needs: a file for every section of \<open>D\<close> and no other.\<close>

definition openable :: "nat set \<Rightarrow> 'w \<Rightarrow> bool" where
  "openable D w \<longleftrightarrow> inv w \<and> (\<forall>name. files w name \<noteq> None \<longrightarrow> (\<exists>sec \<in> D. name = section_name sec))
     \<and> (\<forall>sec \<in> D. sec \<le> u64_max \<and> (\<exists>d. files w (section_name sec) = Some d \<and> fits d))"

lemma recoverable_openable:
  assumes "recoverable cfg m w"
  shows "openable (dom m) w"
  unfolding openable_def
proof (intro conjI ballI allI impI)
  fix sec assume "sec \<in> dom m"
  then obtain vs n where m: "m sec = Some (vs, n)" by auto
  then obtain d where "sec \<le> u64_max" "files w (section_name sec) = Some d" "section_rest cfg vs n d"
    using assms unfolding recoverable_def crash_rest_def by blast
  then show "sec \<le> u64_max" "\<exists>d. files w (section_name sec) = Some d \<and> fits d" using section_rest_fits by blast+
qed (use assms in \<open>simp_all add: recoverable_def crash_rest_def\<close>)

lemma journal_rel_survivor:
  assumes j: "journal_rel cfg m j"
  shows "inv (jr_store j) \<and> survivor cfg m (files (jr_store j))"
  unfolding survivor_def
proof (intro conjI allI impI)
  have ok: "sections_ok (\<lambda>sec l d. \<exists>vs n. m sec = Some (vs, n) \<and> holds cfg vs n l d) (jr_blobs j) (jr_pool j) (jr_store j)"
    using j by (simp add: journal_rel_def)
  show "inv (jr_store j)" using ok by (simp add: sections_ok_def)
  show "\<exists>sec \<in> dom m. name = section_name sec" if "files (jr_store j) name \<noteq> None" for name
    using that j unfolding journal_rel_def files_covered_def by metis
  fix sec vs n assume m: "m sec = Some (vs, n)"
  then obtain ab where ab: "bt_get (jr_blobs j) sec = Some ab" using j unfolding journal_rel_def by blast
  show "sec \<le> u64_max" by (rule sections_okD(2) [OF ok ab])
  show "\<exists>l d. files (jr_store j) (section_name sec) = Some d \<and> holds cfg vs n l d \<and> fits l"
    using sections_okD(1) [OF ok ab] m by (auto simp: section_slot_def)
qed

section \<open>Opening the sections\<close>

text \<open>A section as \<open>init\<close> opens it: its bytes are the durable ones, \<open>F sec\<close>.\<close>

abbreviation opened :: "(nat \<rightharpoonup> bytes) \<Rightarrow> nat \<Rightarrow> bytes \<Rightarrow> bytes \<Rightarrow> bool" where
  "opened F sec l d \<equiv> l = d \<and> F sec = Some d"

lemma init_blobs_ok:
  assumes "sections_ok (opened F) blobs pr w" "distinct names" "pr_next_id pr + length names \<le> u64_max"
    and "\<forall>name \<in> set names. \<exists>sec d. sec \<le> u64_max \<and> name = section_name sec \<and> bt_get blobs sec = None \<and> files w name = Some d \<and> fits d \<and> F sec = Some d"
  shows "\<exists>blobs' pr' w'. init_blobs ops cfg names blobs pr w = Ok (blobs', pr', w') \<and> sections_ok (opened F) blobs' pr' w' \<and> files w' = files w
    \<and> dom (bt_get blobs') = dom (bt_get blobs) \<union> {sec. sec \<le> u64_max \<and> section_name sec \<in> set names}
    \<and> pr_next_id pr' = pr_next_id pr + length names"
  using assms
proof (induction names arbitrary: blobs pr w)
  case Nil
  then show ?case by simp
next
  case (Cons name names)
  obtain sec d where sec: "sec \<le> u64_max" "name = section_name sec" "bt_get blobs sec = None" "files w name = Some d" "fits d" "F sec = Some d"
    using Cons.prems(4) by auto
  have "inv w" using Cons.prems(1) by (simp add: sections_ok_def)
  then obtain h w' where o: "st_open ops (section_name sec) w = Ok (h, length d, w')" "content w h = None" "content w' = (content w)(h \<mapsto> d)"
      "named w' h = section_name sec" "\<forall>k. content w k \<noteq> None \<longrightarrow> named w' k = named w k" "files w' = (files w)(section_name sec \<mapsto> d)" "inv w'"
    using open_ok [of w "section_name sec"] sec(2,4) by auto
  have fw: "files w' = files w" using o(6) sec(2,4) by auto
  obtain ab pr' where ab: "append_new ops h (length d) (jc_write_buffer cfg) pr w' = Ok (ab, pr')" "pr_next_id pr' = pr_next_id pr + 1"
      "sections_ok ((opened F)(sec := opened F sec)) (bt_insert sec ab blobs) pr' w'"
    using sections_ok_new [OF Cons.prems(1) sec(3,1) o sec(5), where Q = "opened F sec" and bs = "jc_write_buffer cfg"] sec(6) Cons.prems(3) by auto
  have ok: "sections_ok (opened F) (bt_insert sec ab blobs) pr' w'" using ab(3) by (rule sections_ok_mono) (auto split: if_splits)
  have rest: "\<forall>nm \<in> set names. \<exists>t e. t \<le> u64_max \<and> nm = section_name t \<and> bt_get (bt_insert sec ab blobs) t = None \<and> files w' nm = Some e \<and> fits e \<and> F t = Some e"
  proof
    fix nm assume nm: "nm \<in> set names"
    then obtain t e where t: "t \<le> u64_max" "nm = section_name t" "bt_get blobs t = None" "files w nm = Some e" "fits e" "F t = Some e"
      using Cons.prems(4) by auto
    moreover have "t \<noteq> sec" using nm t(2) sec(2) Cons.prems(2) by auto
    ultimately show "\<exists>t e. t \<le> u64_max \<and> nm = section_name t \<and> bt_get (bt_insert sec ab blobs) t = None \<and> files w' nm = Some e \<and> fits e \<and> F t = Some e"
      using fw by (auto simp: bt_get_insert)
  qed
  have "pr_next_id pr' + length names \<le> u64_max" "distinct names" using Cons.prems(2,3) ab(2) by simp_all
  from Cons.IH [OF ok this(2,1) rest] obtain blobs' pr'' w'' where IH: "init_blobs ops cfg names (bt_insert sec ab blobs) pr' w' = Ok (blobs', pr'', w'')"
      "sections_ok (opened F) blobs' pr'' w''" "files w'' = files w'"
      "dom (bt_get blobs') = dom (bt_get (bt_insert sec ab blobs)) \<union> {s. s \<le> u64_max \<and> section_name s \<in> set names}"
      "pr_next_id pr'' = pr_next_id pr' + length names" by blast
  have "init_blobs ops cfg (name # names) blobs pr w = Ok (blobs', pr'', w'')"
    using IH(1) o(1) ab(1) sec(1,2) section_of_name [OF sec(1)] by (simp add: Let_def)
  moreover have "dom (bt_get blobs') = dom (bt_get blobs) \<union> {s. s \<le> u64_max \<and> section_name s \<in> set (name # names)}"
    unfolding IH(4) using sec(1,2) section_name_inj by (auto simp: bt_get_insert)
  moreover have "files w'' = files w" using IH(3) fw by simp
  moreover have "pr_next_id pr'' = pr_next_id pr + length (name # names)" using IH(5) ab(2) by simp
  ultimately show ?case using IH(2) by (intro exI [of _ blobs'] exI [of _ pr''] exI [of _ w''] conjI)
qed

lemma journal_init_ok:
  assumes D: "openable D w" and pr: "page_pool_ok pr" "pr_next_id pr + card (D) \<le> u64_max"
  shows "\<exists>j. journal_init ops cfg pr w = Ok j \<and> jr_oldest_retained_section j = 0 \<and> files_covered (jr_blobs j) (jr_store j) \<and> dom (bt_get (jr_blobs j)) = D
    \<and> sections_ok (opened (\<lambda>sec. files w (section_name sec))) (jr_blobs j) (jr_pool j) (jr_store j)
    \<and> pr_next_id (jr_pool j) \<le> pr_next_id pr + card (D)"
proof -
  let ?F = "\<lambda>sec. files w (section_name sec)"
  have w: "inv w" using D by (simp add: openable_def)
  have nil: "sections_ok (opened ?F) [] pr w" using w pr(1) by (simp add: sections_ok_def bt_get_def apart_def)
  have sub: "sec \<le> u64_max" "files w (section_name sec) \<noteq> None" if "sec \<in> D" for sec
    using that D unfolding openable_def by blast+
  then have fin: "finite D" by (meson finite_atMost finite_subset subsetI atMost_iff)
  have names: "files w name \<noteq> None \<longleftrightarrow> (\<exists>sec \<in> D. name = section_name sec)" for name
    using D sub(2) unfolding openable_def by metis
  obtain ns where ns: "(case st_scan ops w of Ok names \<Rightarrow> Ok names | Err (PartitionMissing _) \<Rightarrow> Ok [] | Err e \<Rightarrow> Err (Runtime e) | Panic \<Rightarrow> Panic)
      = (Ok ns :: (bytes list, journal_error) result)" "distinct ns" "set ns = dom (files w)"
  proof (cases "\<forall>name. files w name = None")
    case True
    then have "dom (files w) = {}" by auto
    then show ?thesis using that [of "[]"] scan_none [OF w] True by fastforce
  next
    case False
    then show ?thesis using that scan_ok [OF w] by force
  qed
  have img: "set ns = section_name ` D" using ns(3) names by (auto simp: dom_def)
  have card: "length ns \<le> card (D)" using ns(2) img card_image_le [OF fin, of section_name] by (simp flip: distinct_card)
  have len: "pr_next_id pr + length ns \<le> u64_max" using pr(2) card by simp
  have "\<forall>name \<in> set ns. \<exists>sec d. sec \<le> u64_max \<and> name = section_name sec \<and> bt_get ([] :: (nat, 'h append_blob) btree) sec = None
      \<and> files w name = Some d \<and> fits d \<and> ?F sec = Some d"
  proof
    fix name assume "name \<in> set ns"
    then obtain sec where "sec \<in> D" "name = section_name sec" using img by auto
    moreover from this obtain d where "sec \<le> u64_max" "files w (section_name sec) = Some d" "fits d"
      using D unfolding openable_def by blast
    ultimately show "\<exists>sec d. sec \<le> u64_max \<and> name = section_name sec \<and> bt_get ([] :: (nat, 'h append_blob) btree) sec = None
        \<and> files w name = Some d \<and> fits d \<and> ?F sec = Some d"
      by (auto simp: bt_get_def intro!: exI [of _ sec])
  qed
  from init_blobs_ok [OF nil ns(2) len this] obtain blobs pr' w' where
    i: "init_blobs ops cfg ns [] pr w = Ok (blobs, pr', w')" "sections_ok (opened ?F) blobs pr' w'" "files w' = files w"
      "dom (bt_get blobs) = dom (bt_get ([] :: (nat, 'h append_blob) btree)) \<union> {sec. sec \<le> u64_max \<and> section_name sec \<in> set ns}"
      "pr_next_id pr' = pr_next_id pr + length ns" by blast
  have dom: "dom (bt_get blobs) = D"
    unfolding i(4) img using sub(1) section_name_inj by (auto simp: bt_get_def)
  moreover have "files_covered blobs w'" unfolding files_covered_def dom i(3) using names by blast
  ultimately show ?thesis using ns(1) i(1,2,5) card by (simp add: journal_init_def)
qed

section \<open>Replaying a section\<close>

text \<open>What is left of a section after its replay.\<close>

lemma replay_ends_holds:
  assumes "replay_ends cfg [] ws l e" "\<forall>v \<in> set ws. storable cfg v"
  shows "e = Done \<and> holds cfg ws (length ws) l l
    \<or> e = Truncate (length (layout cfg [] ws)) \<and> take (length (layout cfg [] ws)) l = layout cfg [] ws
      \<and> holds cfg ws (length ws) (layout cfg [] ws) (layout cfg [] ws)"
  using assms section_repr_layout [of cfg ws] by (auto simp: replay_ends_def holds_def section_repr_def)

lemma reader_resize_ok:
  assumes w: "inv w" "content w (ab_blob ab) = Some c" "append_inv c l ab pr" "length l \<le> u64_max" "n \<le> length l"
    and f: "files w (named w (ab_blob ab)) \<noteq> None"
  shows "\<exists>ab' pr' w'. reader_resize ops n ab pr w = Ok (ab', pr', w') \<and> ab_blob ab' = ab_blob ab \<and> ab_id ab' = ab_id ab
    \<and> same_pool (ab_id ab) pr pr' \<and> append_inv (take n l) (take n l) ab' pr' \<and> inv w' \<and> content w' = (content w)(ab_blob ab \<mapsto> take n l)
    \<and> named w' = named w \<and> files w' = (files w)(named w (ab_blob ab) \<mapsto> take n l)"
proof -
  obtain ab1 pr1 w1 where r: "append_resize ops n ab pr w = Ok (ab1, pr1, w1)" "ab_blob ab1 = ab_blob ab" "ab_id ab1 = ab_id ab"
      "same_pool (ab_id ab) pr pr1" "append_inv (take n l) (take n l) ab1 pr1" "inv w1" "content w1 = (content w)(ab_blob ab \<mapsto> take n l)"
      "named w1 = named w" "files w1 = files w"
    using append_resize_ok [OF w(1-5)] by (auto simp: appends_def)
  have "length (take n l) \<le> u64_max" using w(4) by simp
  then obtain ab' pr' w' where "append_sync ops ab1 pr1 w1 = Ok (ab', pr', w')" "ab_blob ab' = ab_blob ab1" "ab_id ab' = ab_id ab1"
      "same_pool (ab_id ab) pr1 pr'" "append_inv (take n l) (take n l) ab' pr'" "inv w'" "content w' = (content w1)(ab_blob ab1 \<mapsto> take n l)"
      "named w' = named w1" "files w' = (files w1)(named w1 (ab_blob ab1) \<mapsto> take n l)"
    using append_sync_ok [of w1 ab1 "take n l" "take n l" pr1] r f by auto
  then show ?thesis using r same_pool_trans [OF r(4)] by (auto simp: reader_resize_def)
qed

text \<open>The replay of a prefix \<open>d\<close> of the bytes of a section: how far it gets and how it ends.\<close>

lemma replay_cut:
  assumes d: "holds cfg vs n l d" "fits l" and b: "0 < buffer" and view: "append_view content inv (ab, pr, w) = Some d"
  shows "\<exists>k e pr'. replay_section (align (length d) div 16) cfg (append_rd ops) (align (length d) div 16) 0 0 (reader_new (length d) buffer) (ab, pr, w)
      = Ok (places cfg [] (take k vs), e, ab, pr', w) \<and> n \<le> k \<and> k \<le> length vs \<and> length (layout cfg [] (take k vs)) \<le> length d
    \<and> same_pool (ab_id ab) pr pr' \<and> append_view content inv (ab, pr', w) = Some d
    \<and> (e = Done \<and> holds cfg (take k vs) k d d
      \<or> e = Truncate (length (layout cfg [] (take k vs))) \<and> take (length (layout cfg [] (take k vs))) d = layout cfg [] (take k vs)
        \<and> holds cfg (take k vs) k (layout cfg [] (take k vs)) (layout cfg [] (take k vs)))"
proof -
  have fd: "fits d" by (rule holds_prefix [OF d])
  then have fit: "align (length d) div 16 \<le> u32_max" by (simp add: fits_def)
  have h: "\<forall>v \<in> set vs. storable cfg v" "n \<le> length vs" "section_repr cfg vs l" "take (length d) l = d" "length (layout cfg [] (take n vs)) \<le> length d"
    using d(1) by (simp_all add: holds_def)
  obtain z where z: "l = layout cfg [] vs @ replicate z 0" "length l \<le> align (length (layout cfg [] vs))" using h(3) by (auto simp: section_repr_def)
  have pre: "layout cfg [] vs @ replicate z 0 = d @ drop (length d) l" by (metis append_take_drop_id h(4) z(1))
  have len: "length (layout cfg [] vs) + z \<le> align (length (layout cfg [] vs))" using z by simp
  have a0: "align 0 div 16 = 0" by (simp add: align_def)
  obtain k e s' where r: "replay_section (align (length d) div 16) cfg (append_rd ops) (align (length d) div 16) 0 0
        (reader_new (length d) buffer) (ab, pr, w) = Ok (places cfg [] (take k vs), e, s')"
      "\<forall>i \<le> length vs. i \<le> k \<longleftrightarrow> length (layout cfg [] (take i vs)) \<le> length d" "k \<le> length vs" "replay_ends cfg [] (take k vs) d e"
      "append_view content inv s' = Some d" "append_frame (ab, pr, w) s'"
    using append.replay_section_ok [OF pre len _ view reader_new_ok [OF b] h(1) fit fits_bound(1) [OF fd], of "align (length d) div 16"] a0 by auto
  have "n \<le> k" "length (layout cfg [] (take k vs)) \<le> length d" using r(2,3) h(2,5) by blast+
  moreover have "length (take k vs) = k" "\<forall>v \<in> set (take k vs). storable cfg v" using r(3) h(1) by (auto dest: in_set_takeD)
  moreover obtain pr' where "s' = (ab, pr', w)" "same_pool (ab_id ab) pr pr'" using r(6) by (cases s') (auto simp: append_frame_def)
  ultimately show ?thesis using r(1,3,5) replay_ends_holds [OF r(4)] by (intro exI [of _ k] exI [of _ e] exI [of _ pr']) simp
qed

text \<open>Items followed by a torn one.\<close>

lemma replay_torn:
  assumes fd: "fits d" and vs: "\<forall>v \<in> set vs. storable cfg v"
    and d: "n \<le> i" "i \<le> length vs" "d = layout cfg [] (take i vs) @ q @ t"
      "length (layout cfg [] (take i vs) @ q) = align (length (layout cfg [] (take i vs)))" "t \<noteq> []" "torn_item cfg t"
    and b: "0 < buffer" and view: "append_view content inv (ab, pr, w) = Some d"
  shows "\<exists>pr'. replay_section (align (length d) div 16) cfg (append_rd ops) (align (length d) div 16) 0 0 (reader_new (length d) buffer) (ab, pr, w)
      = Ok (places cfg [] (take i vs), Truncate (length (layout cfg [] (take i vs))), ab, pr', w) \<and> length (layout cfg [] (take i vs)) \<le> length d
    \<and> same_pool (ab_id ab) pr pr' \<and> append_view content inv (ab, pr', w) = Some d
    \<and> take (length (layout cfg [] (take i vs))) d = layout cfg [] (take i vs)
    \<and> holds cfg (take i vs) i (layout cfg [] (take i vs)) (layout cfg [] (take i vs))"
proof -
  have ws: "\<forall>v \<in> set (take i vs). storable cfg v" using vs by (auto dest: in_set_takeD)
  have fit: "align (length d) div 16 \<le> u32_max" using fd by (simp add: fits_def)
  obtain s' where r: "replay_section (align (length d) div 16) cfg (append_rd ops) (align (length d) div 16) 0 0 (reader_new (length d) buffer) (ab, pr, w)
        = Ok (places cfg [] (take i vs), Truncate (length (layout cfg [] (take i vs))), s')"
      "append_view content inv s' = Some d" "append_frame (ab, pr, w) s'"
    using append.replay_section_bad(1) [OF d(3-5) view reader_new_ok [OF b] ws fit fits_bound(1) [OF fd] d(6)] by blast
  moreover obtain pr' where "s' = (ab, pr', w)" "same_pool (ab_id ab) pr pr'" using r(3) by (cases s') (auto simp: append_frame_def)
  moreover have "holds cfg (take i vs) i (layout cfg [] (take i vs)) (layout cfg [] (take i vs))"
    using ws d(2) section_repr_layout [of cfg "take i vs"] by (simp add: holds_def)
  ultimately show ?thesis using d(3) by auto
qed

lemma replay_rest:
  assumes d: "section_rest cfg vs n d" and b: "0 < buffer" and view: "append_view content inv (ab, pr, w) = Some d"
  shows "\<exists>k e pr'. replay_section (align (length d) div 16) cfg (append_rd ops) (align (length d) div 16) 0 0 (reader_new (length d) buffer) (ab, pr, w)
      = Ok (places cfg [] (take k vs), e, ab, pr', w) \<and> n \<le> k \<and> k \<le> length vs \<and> length (layout cfg [] (take k vs)) \<le> length d
    \<and> same_pool (ab_id ab) pr pr' \<and> append_view content inv (ab, pr', w) = Some d
    \<and> (e = Done \<and> holds cfg (take k vs) k d d
      \<or> e = Truncate (length (layout cfg [] (take k vs))) \<and> take (length (layout cfg [] (take k vs))) d = layout cfg [] (take k vs)
        \<and> holds cfg (take k vs) k (layout cfg [] (take k vs)) (layout cfg [] (take k vs)))"
proof (cases "\<exists>l. holds cfg vs n l d \<and> fits l")
  case True
  then show ?thesis using replay_cut [OF _ _ b view] by blast
next
  case False
  then obtain i q t where "fits d" "\<forall>v \<in> set vs. storable cfg v" and i: "n \<le> i" "i \<le> length vs" "d = layout cfg [] (take i vs) @ q @ t"
      "length (layout cfg [] (take i vs) @ q) = align (length (layout cfg [] (take i vs)))" "t \<noteq> []" "torn_item cfg t"
    using d unfolding section_rest_def by blast
  from replay_torn [OF this b view] i(1,2) show ?thesis by blast
qed

text \<open>Replacing an opened section by what its replay leaves.\<close>

lemma sections_ok_replayed:
  assumes ok: "sections_ok P (jr_blobs j) (jr_pool j) (jr_store j)" and ab: "bt_get (jr_blobs j) sec = Some ab"
    and ab': "ab_blob ab' = ab_blob ab" "ab_id ab' = ab_id ab" "same_pool (ab_id ab) (jr_pool j) pr'" "append_inv c' l' ab' pr'"
    and w': "inv w'" "content w' = (content (jr_store j))(ab_blob ab \<mapsto> c')" "named w' = named (jr_store j)"
      "files w' = (files (jr_store j))(section_name sec \<mapsto> d')"
    and h: "Q l' d'" "fits l'"
  shows "sections_ok (P(sec := Q)) (bt_insert sec ab' (jr_blobs j)) pr' w'"
proof (rule sections_ok_set [OF ok ab ab'(1-3) w'(1) _ w'(3)])
  show "section_slot Q sec ab' pr' w'" using sections_okD(1-3) [OF ok ab] ab' w' h by (auto simp: section_slot_def same_pool_def)
qed (use w' in auto)

lemma replay_blob_ok:
  assumes ok: "sections_ok P (jr_blobs j) (jr_pool j) (jr_store j)" and sec: "bt_get (jr_blobs j) sec = Some ab" "P sec = opened F sec"
    and d: "F sec = Some d" "section_rest cfg vs n d" and b: "0 < buffer"
  shows "\<exists>k ab' pr' w'. replay_blob ops cfg start 0 buffer sec (align (length d) div 16) (length d) j
      = Ok (places cfg [] (take k vs), None, set_section sec ab' pr' w' j) \<and> n \<le> k \<and> k \<le> length vs
    \<and> sections_ok (P(sec := holds cfg (take k vs) k)) (bt_insert sec ab' (jr_blobs j)) pr' w'
    \<and> (\<forall>name. name \<noteq> section_name sec \<longrightarrow> files w' name = files (jr_store j) name) \<and> pr_next_id pr' = pr_next_id (jr_pool j)"
proof -
  let ?w = "jr_store j" and ?pr = "jr_pool j"
  obtain c where c: "content ?w (ab_blob ab) = Some c" "append_inv c d ab ?pr" "files ?w (section_name sec) = Some d" "named ?w (ab_blob ab) = section_name sec" "fits d"
    using sections_okD(1) [OF ok sec(1)] d(1) sec(2) by (auto simp: section_slot_def)
  have w: "inv ?w" using ok by (simp add: sections_ok_def)
  note bnd = fits_bound(2) [OF c(5)]
  have "append_view content inv (ab, ?pr, ?w) = Some d" using c w bnd by (auto simp: append_view_Some)
  from replay_rest [OF d(2) b this] obtain k e pr' where
    r: "replay_section (align (length d) div 16) cfg (append_rd ops) (align (length d) div 16) 0 0 (reader_new (length d) buffer) (ab, ?pr, ?w)
      = Ok (places cfg [] (take k vs), e, ab, pr', ?w)" "n \<le> k" "k \<le> length vs" "length (layout cfg [] (take k vs)) \<le> length d"
      "same_pool (ab_id ab) ?pr pr'" "append_inv c d ab pr'"
    and e: "e = Done \<and> holds cfg (take k vs) k d d
      \<or> e = Truncate (length (layout cfg [] (take k vs))) \<and> take (length (layout cfg [] (take k vs))) d = layout cfg [] (take k vs)
        \<and> holds cfg (take k vs) k (layout cfg [] (take k vs)) (layout cfg [] (take k vs))"
    using c(1) by (auto simp: append_view_Some)
  from e show ?thesis
  proof
    assume e: "e = Done \<and> holds cfg (take k vs) k d d"
    have same: "?w = ?w" "content ?w = (content ?w)(ab_blob ab \<mapsto> c)" "files ?w = (files ?w)(section_name sec \<mapsto> d)" using c by auto
    have "sections_ok (P(sec := holds cfg (take k vs) k)) (bt_insert sec ab (jr_blobs j)) pr' ?w"
      using e c(5) by (intro sections_ok_replayed [OF ok sec(1) refl refl r(5,6) w same(2) refl same(3)]) auto
    moreover have "replay_blob ops cfg start 0 buffer sec (align (length d) div 16) (length d) j = Ok (places cfg [] (take k vs), None, set_section sec ab pr' ?w j)"
      using r(1) sec(1) e by (simp add: replay_blob_def Let_def)
    moreover have "pr_next_id pr' = pr_next_id ?pr" using r(5) by (simp add: same_pool_def)
    ultimately show ?thesis using r(2,3) by blast
  next
    let ?t = "layout cfg [] (take k vs)"
    assume e: "e = Truncate (length ?t) \<and> take (length ?t) d = ?t \<and> holds cfg (take k vs) k ?t ?t"
    have "files ?w (named ?w (ab_blob ab)) \<noteq> None" using c(3,4) by simp
    from reader_resize_ok [OF w c(1) r(6) bnd r(4) this] obtain ab' pr'' w' where
      q: "reader_resize ops (length ?t) ab pr' ?w = Ok (ab', pr'', w')" "ab_blob ab' = ab_blob ab" "ab_id ab' = ab_id ab"
        "same_pool (ab_id ab) pr' pr''" "append_inv ?t ?t ab' pr''" "inv w'" "content w' = (content ?w)(ab_blob ab \<mapsto> ?t)"
        "named w' = named ?w" "files w' = (files ?w)(section_name sec \<mapsto> ?t)" using e c(4) by auto
    have "fits ?t" using c(5) e fits_prefix [of ?t "drop (length ?t) d"] append_take_drop_id [of "length ?t" d] by simp
    then have "sections_ok (P(sec := holds cfg (take k vs) k)) (bt_insert sec ab' (jr_blobs j)) pr'' w'"
      using e by (intro sections_ok_replayed [OF ok sec(1) q(2,3) same_pool_trans [OF r(5) q(4)] q(5-9)]) auto
    moreover have "replay_blob ops cfg start 0 buffer sec (align (length d) div 16) (length d) j = Ok (places cfg [] (take k vs), None, set_section sec ab' pr'' w' j)"
      using r(1) sec(1) e q(1) by (simp add: replay_blob_def Let_def)
    moreover have "\<forall>name. name \<noteq> section_name sec \<longrightarrow> files w' name = files ?w name" using q(9) by simp
    moreover have "pr_next_id pr'' = pr_next_id ?pr" using r(5) q(4) by (simp add: same_pool_def)
    ultimately show ?thesis using r(2,3) by blast
  qed
qed

section \<open>Replaying the journal\<close>

lemma opened_size:
  assumes ok: "sections_ok (opened F) blobs pr w" and ab: "bt_get blobs sec = Some ab"
  shows "\<exists>d. F sec = Some d \<and> fits d \<and> append_size ab = Ok (length d)"
proof -
  obtain c d where d: "append_inv c d ab pr" "fits d" "F sec = Some d" using sections_okD(1) [OF ok ab] by (auto simp: section_slot_def)
  show ?thesis using d(2,3) append_size_ok [OF d(1) fits_bound(2) [OF d(2)]] by simp
qed

lemma replay_plan_ok:
  assumes "\<forall>(sec, ab) \<in> set blobs. \<exists>d. F sec = Some d \<and> fits d \<and> append_size ab = Ok (length d)"
  shows "replay_plan blobs = Ok (map (\<lambda>(sec, _). (sec, align (length (the (F sec))) div 16, length (the (F sec)))) blobs)"
  using assms
proof (induction blobs)
  case (Cons x blobs)
  obtain sec ab where x: "x = (sec, ab)" by (cases x)
  then obtain d where "F sec = Some d" "fits d" "append_size ab = Ok (length d)" using Cons.prems by auto
  then show ?case using Cons x compute_next_offset_ok [of "length d"] by (simp add: fits_def)
qed simp

lemma replay_sections_ok:
  assumes "sections_ok (\<lambda>sec. if sec \<in> set secs then opened F sec else (\<lambda>l d. \<exists>vs n. m' sec = Some (vs, n) \<and> holds cfg vs n l d)) (jr_blobs j) (jr_pool j) (jr_store j)"
    and "files_covered (jr_blobs j) (jr_store j)" "distinct secs" "set secs \<subseteq> dom (bt_get (jr_blobs j))" "0 < buffer"
    and "\<forall>sec \<in> set secs. \<exists>vs n d. m sec = Some (vs, n) \<and> F sec = Some d \<and> section_rest cfg vs n d"
  shows "\<exists>m'' j'. replay_sections ops cfg start 0 buffer (map (\<lambda>sec. (sec, align (length (the (F sec))) div 16, length (the (F sec)))) secs) j
      = Ok (concat (map (replay_items cfg m'') secs), None, j')
    \<and> sections_ok (\<lambda>sec l d. \<exists>vs n. m'' sec = Some (vs, n) \<and> holds cfg vs n l d) (jr_blobs j') (jr_pool j') (jr_store j')
    \<and> files_covered (jr_blobs j') (jr_store j') \<and> dom (bt_get (jr_blobs j')) = dom (bt_get (jr_blobs j))
    \<and> jr_oldest_retained_section j' = jr_oldest_retained_section j \<and> pr_next_id (jr_pool j') = pr_next_id (jr_pool j)
    \<and> (\<forall>sec. sec \<notin> set secs \<longrightarrow> m'' sec = m' sec)
    \<and> (\<forall>sec \<in> set secs. \<forall>vs n. m sec = Some (vs, n) \<longrightarrow> (\<exists>k. n \<le> k \<and> k \<le> length vs \<and> m'' sec = Some (take k vs, k)))"
  using assms
proof (induction secs arbitrary: j m')
  case Nil
  then show ?case by auto
next
  case (Cons sec secs)
  obtain vs n d where s: "m sec = Some (vs, n)" "F sec = Some d" "section_rest cfg vs n d" using Cons.prems(6) by auto
  obtain ab where ab: "bt_get (jr_blobs j) sec = Some ab" using Cons.prems(4) by auto
  let ?P = "\<lambda>t. if t \<in> set (sec # secs) then opened F t else (\<lambda>l d. \<exists>vs n. m' t = Some (vs, n) \<and> holds cfg vs n l d)"
  obtain k ab' pr' w' where r: "replay_blob ops cfg start 0 buffer sec (align (length d) div 16) (length d) j = Ok (places cfg [] (take k vs), None, set_section sec ab' pr' w' j)"
      "n \<le> k" "k \<le> length vs" "sections_ok (?P(sec := holds cfg (take k vs) k)) (bt_insert sec ab' (jr_blobs j)) pr' w'"
      "\<forall>name. name \<noteq> section_name sec \<longrightarrow> files w' name = files (jr_store j) name" "pr_next_id pr' = pr_next_id (jr_pool j)"
    using replay_blob_ok [where P = ?P and F = F and sec = sec and j = j, OF Cons.prems(1) ab _ s(2,3) Cons.prems(5), of start] by auto
  let ?j = "set_section sec ab' pr' w' j" and ?m = "m'(sec \<mapsto> (take k vs, k))"
  have out: "sec \<notin> set secs" using Cons.prems(3) by simp
  have p1: "sections_ok (\<lambda>t. if t \<in> set secs then opened F t else (\<lambda>l d. \<exists>vs n. ?m t = Some (vs, n) \<and> holds cfg vs n l d)) (jr_blobs ?j) (jr_pool ?j) (jr_store ?j)"
    unfolding set_section_def using out by (simp, intro sections_ok_mono [OF r(4)]) (auto split: if_splits)
  have p2: "files_covered (jr_blobs ?j) (jr_store ?j)"
    unfolding files_covered_def
  proof (intro allI impI)
    fix name assume "files (jr_store ?j) name \<noteq> None"
    then have "name = section_name sec \<or> files (jr_store j) name \<noteq> None" using r(5) by (auto simp: set_section_def)
    then show "\<exists>t \<in> dom (bt_get (jr_blobs ?j)). name = section_name t"
      using Cons.prems(2) unfolding files_covered_def by (auto simp: set_section_def bt_get_insert)
  qed
  have dom: "dom (bt_get (jr_blobs ?j)) = dom (bt_get (jr_blobs j))" using ab by (auto simp: set_section_def bt_get_insert)
  have p3: "distinct secs" "set secs \<subseteq> dom (bt_get (jr_blobs ?j))" "\<forall>t \<in> set secs. \<exists>vs n d. m t = Some (vs, n) \<and> F t = Some d \<and> section_rest cfg vs n d"
    using Cons.prems(3,4,6) dom by auto
  obtain m'' j' where IH: "replay_sections ops cfg start 0 buffer (map (\<lambda>sec. (sec, align (length (the (F sec))) div 16, length (the (F sec)))) secs) ?j
      = Ok (concat (map (replay_items cfg m'') secs), None, j')"
      "sections_ok (\<lambda>sec l d. \<exists>vs n. m'' sec = Some (vs, n) \<and> holds cfg vs n l d) (jr_blobs j') (jr_pool j') (jr_store j')"
      "files_covered (jr_blobs j') (jr_store j')" "dom (bt_get (jr_blobs j')) = dom (bt_get (jr_blobs j))"
      "jr_oldest_retained_section j' = jr_oldest_retained_section ?j" "pr_next_id (jr_pool j') = pr_next_id (jr_pool ?j)" "\<forall>t. t \<notin> set secs \<longrightarrow> m'' t = ?m t"
      "\<forall>t \<in> set secs. \<forall>vs n. m t = Some (vs, n) \<longrightarrow> (\<exists>k. n \<le> k \<and> k \<le> length vs \<and> m'' t = Some (take k vs, k))"
    using Cons.IH [of ?m ?j, OF p1 p2 p3(1,2) Cons.prems(5) p3(3)] unfolding dom by (elim exE conjE) (rule that, assumption+)
  have here: "m'' sec = Some (take k vs, k)" using IH(7) out by simp
  then have "replay_sections ops cfg start 0 buffer (map (\<lambda>sec. (sec, align (length (the (F sec))) div 16, length (the (F sec)))) (sec # secs)) j
      = Ok (concat (map (replay_items cfg m'') (sec # secs)), None, j')"
    using r(1) s(2) IH(1) by (simp add: replay_items_def items_of_def)
  moreover have "\<forall>t \<in> set (sec # secs). \<forall>vs n. m t = Some (vs, n) \<longrightarrow> (\<exists>k. n \<le> k \<and> k \<le> length vs \<and> m'' t = Some (take k vs, k))"
    using IH(8) here s(1) r(2,3) by auto
  moreover have "\<forall>t. t \<notin> set (sec # secs) \<longrightarrow> m'' t = m' t" using IH(7) by auto
  moreover have "jr_oldest_retained_section j' = jr_oldest_retained_section j" "pr_next_id (jr_pool j') = pr_next_id (jr_pool j)"
    using IH(5,6) r(6) by (simp_all add: set_section_def)
  ultimately show ?case using IH(2-4) by blast
qed

lemma journal_recovers:
  assumes m: "recoverable cfg m w" and pr: "page_pool_ok pr" "pr_next_id pr + card (dom m) \<le> u64_max" and b: "0 < buffer"
  shows "\<exists>j m' j'. journal_init ops cfg pr w = Ok j
    \<and> journal_replay ops cfg 0 0 buffer j = Ok (concat (map (replay_items cfg m') (sorted_list_of_set (dom m))), None, j')
    \<and> journal_rel cfg m' j' \<and> jr_oldest_retained_section j' = 0 \<and> keeps_synced m m'
    \<and> pr_next_id (jr_pool j') \<le> pr_next_id pr + card (dom m)"
proof -
  let ?F = "\<lambda>sec. files w (section_name sec)"
  obtain j where j: "journal_init ops cfg pr w = Ok j" "jr_oldest_retained_section j = 0" "files_covered (jr_blobs j) (jr_store j)" "dom (bt_get (jr_blobs j)) = dom m"
      "sections_ok (opened ?F) (jr_blobs j) (jr_pool j) (jr_store j)" "pr_next_id (jr_pool j) \<le> pr_next_id pr + card (dom m)"
    using journal_init_ok [OF recoverable_openable [OF m] pr] by blast
  have bi: "bt_inv (jr_blobs j)" using j(5) by (simp add: sections_ok_def)
  let ?secs = "map fst (jr_blobs j)"
  have secs: "set ?secs = dom m" "distinct ?secs" "sorted ?secs"
    using j(4) bi by (auto simp: bt_dom bt_inv_def strict_sorted_iff)
  then have sl: "sorted_list_of_set (dom m) = ?secs" by (metis sorted_list_of_set.idem_if_sorted_distinct)
  have "\<forall>(sec, ab) \<in> set (jr_blobs j). \<exists>d. ?F sec = Some d \<and> fits d \<and> append_size ab = Ok (length d)"
    using opened_size [OF j(5)] bt_get_Some [OF bi] by fastforce
  from replay_plan_ok [OF this] have plan: "replay_plan (filter (\<lambda>(sec, _). 0 \<le> sec) (jr_blobs j))
      = Ok (map (\<lambda>sec. (sec, align (length (the (?F sec))) div 16, length (the (?F sec)))) ?secs)"
    by (simp add: case_prod_unfold o_def)
  have raw: "sections_ok (\<lambda>sec. if sec \<in> set ?secs then opened ?F sec else (\<lambda>l d. \<exists>vs n. Map.empty sec = Some (vs, n) \<and> holds cfg vs n l d)) (jr_blobs j) (jr_pool j) (jr_store j)"
    by (rule sections_ok_mono [OF j(5)]) (use secs(1) j(4) in auto)
  have fs: "\<forall>sec \<in> set ?secs. \<exists>vs n d. m sec = Some (vs, n) \<and> ?F sec = Some d \<and> section_rest cfg vs n d"
  proof
    fix sec assume "sec \<in> set ?secs"
    then obtain vs n where "m sec = Some (vs, n)" using secs(1) by auto
    then show "\<exists>vs n d. m sec = Some (vs, n) \<and> ?F sec = Some d \<and> section_rest cfg vs n d"
      using m unfolding recoverable_def crash_rest_def by blast
  qed
  have sub: "set ?secs \<subseteq> dom (bt_get (jr_blobs j))" using secs(1) j(4) by simp
  obtain m' j' where r: "replay_sections ops cfg 0 0 buffer (map (\<lambda>sec. (sec, align (length (the (?F sec))) div 16, length (the (?F sec)))) ?secs) j
      = Ok (concat (map (replay_items cfg m') ?secs), None, j')"
      "sections_ok (\<lambda>sec l d. \<exists>vs n. m' sec = Some (vs, n) \<and> holds cfg vs n l d) (jr_blobs j') (jr_pool j') (jr_store j')"
      "files_covered (jr_blobs j') (jr_store j')" "dom (bt_get (jr_blobs j')) = dom (bt_get (jr_blobs j))"
      "jr_oldest_retained_section j' = jr_oldest_retained_section j" "pr_next_id (jr_pool j') = pr_next_id (jr_pool j)" "\<forall>sec. sec \<notin> set ?secs \<longrightarrow> m' sec = Map.empty sec"
      "\<forall>sec \<in> set ?secs. \<forall>vs n. m sec = Some (vs, n) \<longrightarrow> (\<exists>k. n \<le> k \<and> k \<le> length vs \<and> m' sec = Some (take k vs, k))"
    using replay_sections_ok [where F = ?F and m' = Map.empty and m = m, OF raw j(3) secs(2) sub b fs, of 0] by (elim exE conjE) (rule that, assumption+)
  have dm: "dom m' = dom m"
  proof
    show "dom m' \<subseteq> dom m" using r(7) secs(1) by (auto simp del: set_map)
    show "dom m \<subseteq> dom m'"
    proof
      fix sec assume sec: "sec \<in> dom m"
      then obtain vs n where "m sec = Some (vs, n)" by auto
      then show "sec \<in> dom m'" using r(8) sec secs(1) by blast
    qed
  qed
  then have "keeps_synced m m'" using r(8) secs(1) unfolding keeps_synced_def by (metis domI)
  moreover have "journal_rel cfg m' j'" using r(2-4) j(4) dm by (simp add: journal_rel_def)
  ultimately show ?thesis using j(1,2,6) plan r(1,5,6) sl by (auto simp: journal_replay_def)
qed

end

end
