(* ===== verification/Journal_Spec.thy ===== *)
theory Journal_Spec
  imports Journal_Recovery
begin

text \<open>
  The segmented journal against its abstract description. \<open>sections_step\<close> says what \<open>append\<close>, \<open>sync\<close>, \<open>prune\<close>
  and \<open>get\<close> do to one list of items per section, and when they may be called; \<open>journal_run\<close> makes the
  same calls on the journal over the in-memory store. The properties say that the journal answers
  like the description, that it comes back from a crash, and which calls it refuses.
\<close>

section \<open>Calls\<close>

datatype 'v journal_call = JAppend nat 'v | JSync nat | JPrune nat | JGet nat nat

datatype 'v journal_answer = Appended nat nat | Synced | Pruned bool | Got 'v

fun journal_step :: "('w, 'h) store_ops \<Rightarrow> 'v journal_cfg \<Rightarrow> 'v journal_call \<Rightarrow> ('w, 'h) journal \<Rightarrow>
    ('v journal_answer \<times> ('w, 'h) journal, journal_error) result" where
  "journal_step ops cfg (JAppend sec v) j =
     and_then (journal_append ops cfg sec v j) (\<lambda>((offset, sz), j). Ok (Appended offset sz, j))"
| "journal_step ops cfg (JSync sec) j = and_then (journal_sync ops sec j) (\<lambda>j. Ok (Synced, j))"
| "journal_step ops cfg (JPrune mn) j = and_then (journal_prune ops mn j) (\<lambda>(b, j). Ok (Pruned b, j))"
| "journal_step ops cfg (JGet sec offset) j = and_then (journal_get ops cfg sec offset j) (\<lambda>(v, j). Ok (Got v, j))"

fun journal_run :: "('w, 'h) store_ops \<Rightarrow> 'v journal_cfg \<Rightarrow> 'v journal_call list \<Rightarrow> ('w, 'h) journal \<Rightarrow>
    ('v journal_answer list \<times> ('w, 'h) journal, journal_error) result" where
  "journal_run ops cfg [] j = Ok ([], j)"
| "journal_run ops cfg (c # cs) j =
     and_then (journal_step ops cfg c j) (\<lambda>(a, j). and_then (journal_run ops cfg cs j) (\<lambda>(as, j). Ok (a # as, j)))"

section \<open>The description\<close>

text \<open>Where the item with index \<open>i\<close> of a section starts, in units of sixteen bytes.\<close>

definition item_offset :: "'v journal_cfg \<Rightarrow> 'v list \<Rightarrow> nat \<Rightarrow> nat" where
  "item_offset cfg vs i = align (length (layout cfg [] (take i vs))) div 16"

definition item_at :: "'v journal_cfg \<Rightarrow> 'v list \<Rightarrow> nat \<Rightarrow> 'v option" where
  "item_at cfg vs offset = map_option ((!) vs) (find (\<lambda>i. item_offset cfg vs i = offset) [0..<length vs])"

fun sections_step :: "'v journal_cfg \<Rightarrow> 'v journal_call \<Rightarrow> nat \<times> 'v sections \<Rightarrow> ('v journal_answer \<times> nat \<times> 'v sections) option" where
  "sections_step cfg (JAppend sec v) (oldest, m) =
     (if oldest \<le> sec \<and> sec \<le> u64_max \<and> storable cfg v \<and> fits (layout cfg [] (items_of m sec @ [v]))
      then Some (Appended (item_offset cfg (items_of m sec) (length (items_of m sec))) (length (stored cfg v)),
                 oldest, m(sec \<mapsto> (items_of m sec @ [v], synced_of m sec)))
      else None)"
| "sections_step cfg (JSync sec) (oldest, m) =
     (if oldest \<le> sec
      then Some (Synced, oldest, case m sec of None \<Rightarrow> m | Some (vs, _) \<Rightarrow> m(sec \<mapsto> (vs, length vs)))
      else None)"
| "sections_step cfg (JPrune mn) (oldest, m) =
     (let pruned = (\<exists>sec \<in> dom m. sec < mn) in Some (Pruned pruned, if pruned then mn else oldest, m |` {mn..}))"
| "sections_step cfg (JGet sec offset) (oldest, m) =
     (if oldest \<le> sec then map_option (\<lambda>v. (Got v, oldest, m)) (item_at cfg (items_of m sec) offset) else None)"

fun sections_run :: "'v journal_cfg \<Rightarrow> 'v journal_call list \<Rightarrow> nat \<times> 'v sections \<Rightarrow> ('v journal_answer list \<times> nat \<times> 'v sections) option" where
  "sections_run cfg [] s = Some ([], s)"
| "sections_run cfg (c # cs) s =
     Option.bind (sections_step cfg c s) (\<lambda>(a, s). Option.bind (sections_run cfg cs s) (\<lambda>(as, s). Some (a # as, s)))"

lemma item_at_Some:
  assumes "item_at cfg vs offset = Some v"
  obtains i where "i < length vs" "item_offset cfg vs i = offset" "v = vs ! i"
  using assms by (auto simp: item_at_def find_Some_iff)

lemma bt_get_Nil: "bt_get [] = Map.empty"
  by (simp add: bt_get_def fun_eq_iff)

lemma layout_nonempty: "vs \<noteq> [] \<Longrightarrow> 0 < length (layout cfg l vs)"
proof (cases vs)
  case (Cons v ws)
  have "0 < length (padded l @ entry_of cfg v)" using length_entry_of(2) [of cfg v] by (simp only: length_append)
  then show ?thesis using layout_length [of "padded l @ entry_of cfg v" cfg ws] Cons by (metis layout_Cons less_le_trans)
qed simp

text \<open>Items of a codec that keeps its contract, compressed by a library that undoes its own work.\<close>

lemma storable_codec:
  assumes c: "codec (jc_write cfg) (jc_read cfg) (jc_size cfg) ok" and v: "ok v"
    and z: "\<And>level e. jc_compression cfg = Some level \<Longrightarrow> \<exists>c. jc_compress cfg e level = Some c \<and> jc_decompress cfg c = Some e"
    and l: "length (stored cfg v) \<le> u32_max"
  shows "storable cfg v"
proof -
  obtain e where e: "encode (jc_write cfg) (jc_size cfg) v = Ok e" "decode_cfg (jc_read cfg) e = Ok v"
    using codec.decode_encode [OF c v] by blast
  show ?thesis
  proof (cases "jc_compression cfg")
    case None
    then show ?thesis using e l by (simp add: storable_def stored_def item_encode_def item_decode_def)
  next
    case (Some level)
    then obtain z where "jc_compress cfg e level = Some z" "jc_decompress cfg z = Some e" using z by blast
    then show ?thesis using Some e l by (simp add: storable_def stored_def item_encode_def item_decode_def)
  qed
qed

section \<open>The journal keeps to it\<close>

context blob_store
begin

lemma journal_step_ok:
  assumes j: "journal_rel cfg m j" and c: "sections_step cfg c (jr_oldest_retained_section j, m) = Some (a, oldest, m')"
    and n: "pr_next_id (jr_pool j) < u64_max"
  shows "\<exists>j'. journal_step ops cfg c j = Ok (a, j') \<and> journal_rel cfg m' j' \<and> jr_oldest_retained_section j' = oldest
    \<and> pr_next_id (jr_pool j') \<le> pr_next_id (jr_pool j) + 1"
proof (cases c)
  case (JAppend sec v)
  then have g: "jr_oldest_retained_section j \<le> sec" "sec \<le> u64_max" "storable cfg v" "fits (layout cfg [] (items_of m sec @ [v]))"
    using c by (auto split: if_splits)
  then show ?thesis using journal_append_ok [OF j g(2,1) n g(3,4)] c JAppend by (auto simp: item_offset_def)
next
  case (JSync sec)
  then have g: "jr_oldest_retained_section j \<le> sec" using c by (auto split: if_splits)
  show ?thesis
  proof (cases "m sec")
    case None
    then show ?thesis using journal_sync_missing [OF j g None] j c JSync g by auto
  next
    case (Some p)
    then obtain vs k where s: "m sec = Some (vs, k)" by (cases p) auto
    then show ?thesis using journal_sync_ok [OF j g s] c JSync g by auto
  qed
next
  case (JPrune mn)
  then show ?thesis using journal_prune_ok [OF j, of mn] c by (auto simp: Let_def)
next
  case (JGet sec offset)
  then obtain v where v: "jr_oldest_retained_section j \<le> sec" "item_at cfg (items_of m sec) offset = Some v" "a = Got v" "oldest = jr_oldest_retained_section j" "m' = m"
    using c by (auto split: if_splits)
  from v(2) obtain i where i: "i < length (items_of m sec)" "item_offset cfg (items_of m sec) i = offset" "v = items_of m sec ! i"
    by (rule item_at_Some)
  then obtain k where s: "m sec = Some (items_of m sec, k)" by (auto simp: items_of_def split: option.splits)
  show ?thesis using journal_get_ok [OF j v(1) s i(1)] i(2,3) v(3-5) JGet by (auto simp: item_offset_def)
qed

lemma journal_run_ok:
  assumes "journal_rel cfg m j" "sections_run cfg cs (jr_oldest_retained_section j, m) = Some (as, oldest, m')"
    and "pr_next_id (jr_pool j) + length cs \<le> u64_max"
  shows "\<exists>j'. journal_run ops cfg cs j = Ok (as, j') \<and> journal_rel cfg m' j' \<and> jr_oldest_retained_section j' = oldest"
  using assms
proof (induction cs arbitrary: m j as)
  case (Cons c cs)
  obtain a o1 m1 as' where s: "sections_step cfg c (jr_oldest_retained_section j, m) = Some (a, o1, m1)"
      "sections_run cfg cs (o1, m1) = Some (as', oldest, m')" "as = a # as'"
    using Cons.prems(2) by (auto simp: bind_eq_Some_conv)
  obtain j1 where j1: "journal_step ops cfg c j = Ok (a, j1)" "journal_rel cfg m1 j1" "jr_oldest_retained_section j1 = o1"
      "pr_next_id (jr_pool j1) \<le> pr_next_id (jr_pool j) + 1"
    using journal_step_ok [OF Cons.prems(1) s(1)] Cons.prems(3) by auto
  obtain j' where "journal_run ops cfg cs j1 = Ok (as', j')" "journal_rel cfg m' j'" "jr_oldest_retained_section j' = oldest"
    using Cons.IH [OF j1(2), of as'] s(2) j1(3,4) Cons.prems(3) by auto
  then show ?case using j1(1) s(3) by auto
qed auto

lemma page_pool_ok_new:
  assumes "0 < page_size" "2 * page_size \<le> u64_max" "0 < capacity"
  shows "\<exists>pr. pool_ref_new page_size capacity = Ok pr \<and> page_pool_ok pr \<and> pr_next_id pr = 0"
proof -
  obtain p where p: "pool_new capacity = Ok p" "pool_inv page_size p" "pool_page p = Map.empty"
    using pool_new_ok [OF assms(3)] by blast
  then show ?thesis using assms by (simp add: pool_ref_new_def page_pool_ok_def fresh_ids_def)
qed

text \<open>A journal opened on an empty partition.\<close>

lemma journal_init_empty:
  assumes "inv w" "files w = Map.empty" "page_pool_ok pr"
  shows "\<exists>j. journal_init ops cfg pr w = Ok j \<and> journal_rel cfg Map.empty j \<and> jr_oldest_retained_section j = 0
    \<and> jr_pool j = pr"
proof -
  have "st_scan ops w = Ok [] \<or> (\<exists>p. st_scan ops w = Err (PartitionMissing p))" using scan_none assms(1,2) by simp
  then have "journal_init ops cfg pr w = Ok \<lparr>jr_blobs = [], jr_oldest_retained_section = 0, jr_pool = pr, jr_store = w\<rparr>"
    by (auto simp: journal_init_def)
  then show ?thesis using assms by (simp add: journal_rel_def sections_ok_def files_covered_def apart_def bt_get_Nil)
qed


text \<open>A journal just opened on one section.\<close>

lemma sections_single:
  assumes "sections_ok P blobs pr w" "dom (bt_get blobs) = {sec}"
  shows "\<exists>ab. blobs = [(sec, ab)]"
proof (cases blobs)
  case Nil
  then show ?thesis using assms(2) by (simp add: bt_get_Nil)
next
  case (Cons x rest)
  have "bt_inv blobs" using assms(1) by (simp add: sections_ok_def)
  then have "distinct (map fst blobs)" "set (map fst blobs) = {sec}" using assms(2) by (simp_all add: bt_inv_def strict_sorted_iff bt_dom)
  then have "fst x = sec" "rest = []" using Cons by (auto, cases rest, auto)
  then show ?thesis using Cons by (cases x) auto
qed

text \<open>A replay that starts at an item which the crash has cut off.\<close>

lemma replay_from_torn:
  assumes ok: "sections_ok (opened F) (jr_blobs j) (jr_pool j) (jr_store j)" and sec: "bt_get (jr_blobs j) sec = Some ab"
    and d: "F sec = Some d" "d = padded (layout cfg [] vs) @ take k (entry_of cfg v)" "0 < k" "k < length (entry_of cfg v)"
    and v: "storable cfg v" "vs \<noteq> []" and b: "0 < buffer"
  shows "\<exists>ab' pr' w'. replay_blob ops cfg sec (item_offset cfg vs (length vs)) buffer sec (align (length d) div 16) (length d) j
      = Ok ([], None, set_section sec ab' pr' w' j) \<and> files w' = (files (jr_store j))(section_name sec \<mapsto> [])"
proof -
  let ?w = "jr_store j" and ?pr = "jr_pool j" and ?l0 = "layout cfg [] vs"
  let ?off = "align (length ?l0) div 16"
  obtain c where c: "content ?w (ab_blob ab) = Some c" "append_inv c d ab ?pr" "files ?w (section_name sec) = Some d" "named ?w (ab_blob ab) = section_name sec" "fits d"
    using sections_okD(1) [OF ok sec] d(1) by (auto simp: section_slot_def)
  have w: "inv ?w" using ok by (simp add: sections_ok_def)
  note bnd = fits_bound(2) [OF c(5)]
  have view: "append_view content inv (ab, ?pr, ?w) = Some d" using c w bnd by (auto simp: append_view_Some)
  have len: "align (length ?l0) < length d" "length d < align (length ?l0) + length (entry_of cfg v)" using d(2-4) by simp_all
  have split: "padded ?l0 @ entry_of cfg v @ [] = d @ drop k (entry_of cfg v)" using d(2) by simp
  have "?off * 16 \<le> length d" using len(1) by (simp add: align_div)
  then obtain r where r: "seek_to (?off * 16) (reader_new (length d) buffer) = Ok r" "reader_inv d r"
    using seek_to_ok [OF reader_new_ok [OF b, of d]] bnd by auto
  have "0 < align (length d) div 16" using len(1) align_bounds(1) [of "length d"] by (auto simp: align_def)
  from append.replay_section_cut(1) [OF view r(2) v(1) split len fits_bound(1) [OF c(5)] this]
  have rs: "replay_section (align (length d) div 16) cfg (append_rd ops) (align (length d) div 16) ?off 0 r (ab, ?pr, ?w) = Ok ([], Truncate 0, ab, ?pr, ?w)" .
  have "files ?w (named ?w (ab_blob ab)) \<noteq> None" using c(3,4) by simp
  from reader_resize_ok [OF w c(1,2) bnd _ this, of 0] obtain ab' pr' w' where
    q: "reader_resize ops 0 ab ?pr ?w = Ok (ab', pr', w')" "files w' = (files ?w)(section_name sec \<mapsto> [])" using c(4) by auto
  have "0 < length ?l0" using v(2) layout_nonempty by simp
  then have "?off \<noteq> 0" using align_bounds(1) [of "length ?l0"] align_div [of "length ?l0"] by (metis leD mult_zero_left)
  moreover have "?off * 16 \<le> u64_max" using \<open>?off * 16 \<le> length d\<close> bnd by simp
  ultimately have "replay_blob ops cfg sec ?off buffer sec (align (length d) div 16) (length d) j = Ok ([], None, set_section sec ab' pr' w' j)"
    using sec r(1) rs q(1) by (simp add: replay_blob_def ITEM_ALIGNMENT_def)
  then show ?thesis using q(2) by (auto simp: item_offset_def)
qed

text \<open>A replay that meets a length it cannot decode.\<close>

lemma replay_unreadable:
  assumes ok: "sections_ok (opened F) (jr_blobs j) (jr_pool j) (jr_store j)" and sec: "bt_get (jr_blobs j) sec = Some ab"
    and d: "F sec = Some d" "d = layout cfg [] vs @ q @ t" "length (layout cfg [] vs @ q) = align (length (layout cfg [] vs))"
    and t: "5 \<le> length t" "varint_read (take 5 t) = (Err err :: (u32 \<times> bytes, codec_error) result)"
    and v: "\<forall>x \<in> set vs. storable cfg x" and b: "0 < buffer"
  shows "\<exists>pr'. replay_blob ops cfg start 0 buffer sec (align (length d) div 16) (length d) j
      = Ok (places cfg [] vs, Some (CodecError err), set_section sec ab pr' (jr_store j) j) \<and> files (jr_store j) (section_name sec) = Some d"
proof -
  let ?w = "jr_store j" and ?pr = "jr_pool j"
  obtain c where c: "content ?w (ab_blob ab) = Some c" "append_inv c d ab ?pr" "files ?w (section_name sec) = Some d" "fits d"
    using sections_okD(1) [OF ok sec] d(1) by (auto simp: section_slot_def)
  have w: "inv ?w" using ok by (simp add: sections_ok_def)
  have view: "append_view content inv (ab, ?pr, ?w) = Some d" using c w fits_bound(2) [OF c(4)] by (auto simp: append_view_Some)
  have "t \<noteq> []" "align (length d) div 16 \<le> u32_max" using t(1) c(4) by (auto simp: fits_def)
  from append.replay_section_bad(2) [OF d(2,3) this(1) view reader_new_ok [OF b] v this(2) fits_bound(1) [OF c(4)] t] obtain s' where
    r: "replay_section (align (length d) div 16) cfg (append_rd ops) (align (length d) div 16) 0 0 (reader_new (length d) buffer) (ab, ?pr, ?w)
      = Ok (places cfg [] vs, Failed (CodecError err), s')" "append_frame (ab, ?pr, ?w) s'" by blast
  then obtain pr' where "s' = (ab, pr', ?w)" by (cases s') (auto simp: append_frame_def)
  then show ?thesis using r(1) sec c(3) by (auto simp: replay_blob_def Let_def)
qed

end

text \<open>The journal on the in-memory store.\<close>

lemma journal_on_mem:
  assumes "validate_partition_name part = Ok ()" "mem_inv w" "mem_files part w = Map.empty"
    and "0 < page_size" "2 * page_size \<le> u64_max" "0 < capacity"
    and "sections_run cfg cs (0, Map.empty) = Some (answers, oldest, m)" "length cs \<le> u64_max"
  shows "\<exists>pr j j'. pool_ref_new page_size capacity = Ok pr \<and> journal_init (mem_ops part) cfg pr w = Ok j
    \<and> journal_run (mem_ops part) cfg cs j = Ok (answers, j') \<and> survivor cfg m (mem_files part (jr_store j'))
    \<and> jr_oldest_retained_section j' = oldest"
proof -
  note st = mem_store [OF assms(1)]
  obtain pr where pr: "pool_ref_new page_size capacity = Ok pr" "blob_store.page_pool_ok pr" "pr_next_id pr = 0"
    using blob_store.page_pool_ok_new [OF st assms(4-6)] by blast
  obtain j where j: "journal_init (mem_ops part) cfg pr w = Ok j" "jr_oldest_retained_section j = 0" "jr_pool j = pr"
    and rel: "blob_store.journal_rel (mem_content part) mem_named (mem_files part) mem_inv cfg Map.empty j"
    using blob_store.journal_init_empty [OF st assms(2,3) pr(2), of cfg] by blast
  from blob_store.journal_run_ok [OF st rel, of cs answers oldest m] obtain j' where "journal_run (mem_ops part) cfg cs j = Ok (answers, j')"
      "blob_store.journal_rel (mem_content part) mem_named (mem_files part) mem_inv cfg m j'" "jr_oldest_retained_section j' = oldest"
    using assms(7,8) j(2,3) pr(3) by auto
  then show ?thesis using pr(1) j(1) blob_store.journal_rel_survivor [OF st] by auto
qed

section \<open>Properties\<close>

text \<open>
  C6. The journal over the in-memory store, opened on an empty partition: any sequence of appends, syncs,
  prunes and reads that the description allows is carried out with the answers of the description
  (an append returns where its item starts and its stored size, a read returns the item that starts
  there, a prune tells whether it removed a section), and the files that the journal leaves, were it
  to stop there, are a possible rest of a crash: those of the sections that are not pruned, with all
  the synced items.
\<close>

theorem journal_implements_sections:
  assumes "validate_partition_name part = Ok ()" "mem_inv w" "mem_files part w = Map.empty"
    and "0 < page_size" "2 * page_size \<le> u64_max" "0 < capacity"
    and "sections_run cfg cs (0, Map.empty) = Some (answers, oldest, m)" "length cs \<le> u64_max"
  shows "\<exists>pr j j'. pool_ref_new page_size capacity = Ok pr \<and> journal_init (mem_ops part) cfg pr w = Ok j
    \<and> journal_run (mem_ops part) cfg cs j = Ok (answers, j') \<and> survivor cfg m (mem_files part (jr_store j'))
    \<and> jr_oldest_retained_section j' = oldest"
  by (rule journal_on_mem [OF assms])

definition sample_cfg :: "u8 journal_cfg" where
  "sample_cfg = \<lparr>jc_compression = None, jc_write = \<lambda>b. Ok [b], jc_size = \<lambda>_. Ok 1, jc_read = read_u8, jc_write_buffer = 8,
     jc_crc = \<lambda>_. 0, jc_compress = \<lambda>_ _. None, jc_decompress = \<lambda>_. None\<rparr>"

definition sample_partition :: "(bytes \<times> bytes) list \<Rightarrow> mem_store" where
  "sample_partition fs = \<lparr>ms_partitions = [(''log'', fs)], ms_blobs = []\<rparr>"

lemma sample_items:
  "storable sample_cfg v" "stored sample_cfg v = [v]" "entry_of sample_cfg v = [1, v, 0, 0, 0, 0]"
  by (simp_all add: storable_def stored_def entry_of_def sample_cfg_def item_encode_def item_decode_def encode_def decode_cfg_def u32_max_def
      item_entry_def varint_write_def CONTINUATION_BIT_MASK_def Let_def to_be_bytes_def upt_rec [of _ 4])

lemma small_u64_less: "n < 9 \<Longrightarrow> n < u64_max"
  using small_u64 [of 9] by simp

lemma sample_layout:
  "layout sample_cfg [] [a] = [1, a, 0, 0, 0, 0]"
  "layout sample_cfg [] [a, b] = [1, a, 0, 0, 0, 0, 0, 0, 0, 0, 0, 0, 0, 0, 0, 0, 1, b, 0, 0, 0, 0]"
  "padded [1, a, 0, 0, 0, 0] = [1, a, 0, 0, 0, 0, 0, 0, 0, 0, 0, 0, 0, 0, 0, 0]"
proof -
  have "replicate 10 (0 :: u8) = [0, 0, 0, 0, 0, 0, 0, 0, 0, 0]" by (simp add: eval_nat_numeral)
  then show "layout sample_cfg [] [a] = [1, a, 0, 0, 0, 0]"
    "layout sample_cfg [] [a, b] = [1, a, 0, 0, 0, 0, 0, 0, 0, 0, 0, 0, 0, 0, 0, 0, 1, b, 0, 0, 0, 0]"
    "padded [1, a, 0, 0, 0, 0] = [1, a, 0, 0, 0, 0, 0, 0, 0, 0, 0, 0, 0, 0, 0, 0]"
    by (simp_all add: layout_Cons padded_def align_def sample_items)
qed

lemma sample_partition_ok:
  "mem_inv (sample_partition [])" "mem_files ''log'' (sample_partition []) = Map.empty"
  "mem_inv (sample_partition [(n, d)])" "mem_files ''log'' (sample_partition [(n, d)]) = [n \<mapsto> d]"
  by (auto simp: sample_partition_def mem_inv_def mem_files_def bt_inv_def bt_get_def fun_eq_iff)

theorem journal_implements_sections_witness:
  "\<exists>pr j j'. pool_ref_new 4 2 = Ok pr \<and> journal_init (mem_ops ''log'') sample_cfg pr (sample_partition []) = Ok j
    \<and> journal_run (mem_ops ''log'') sample_cfg [JAppend 3 7, JAppend 3 8, JSync 3, JAppend 4 9, JGet 3 1, JPrune 4] j
        = Ok ([Appended 0 1, Appended 1 1, Synced, Appended 0 1, Got 8, Pruned True], j')
    \<and> survivor sample_cfg [4 \<mapsto> ([9], 0)] (mem_files ''log'' (jr_store j')) \<and> jr_oldest_retained_section j' = 4"
proof (rule journal_implements_sections [OF sample_store_ok(1) sample_partition_ok(1,2)])
  show "sections_run sample_cfg [JAppend 3 7, JAppend 3 8, JSync 3, JAppend 4 9, JGet 3 1, JPrune 4] (0, Map.empty)
      = Some ([Appended 0 1, Appended 1 1, Synced, Appended 0 1, Got 8, Pruned True], 4, [4 \<mapsto> ([9], 0)])"
    by (simp add: sample_items small_u64 items_of_def synced_of_def item_offset_def item_at_def layout_Cons padded_def align_def fits_def u32_max_def)
qed (simp_all add: small_u64)

text \<open>
  C5. Recovery after a crash. Let the crash leave, of each section, the bytes of the synced items followed by a
  prefix of the bytes after them, or by some more items and then arbitrary bytes that do not start with a complete item: they are
  too short for its length or its content, or their checksum does not match. Then opening the journal succeeds and a
  replay from the start ends without an error; it returns,
  in the order of the sections, a prefix of the items of every section that contains all the synced
  ones, with their offsets and sizes, and leaves a journal whose files hold exactly those items.
\<close>

theorem journal_recovers_synced:
  assumes "validate_partition_name part = Ok ()" "mem_inv w" "crash_rest cfg m (mem_files part w)"
    and "0 < page_size" "2 * page_size \<le> u64_max" "0 < capacity" "card (dom m) \<le> u64_max" "0 < buffer"
  shows "\<exists>pr j m' j'. pool_ref_new page_size capacity = Ok pr \<and> journal_init (mem_ops part) cfg pr w = Ok j
    \<and> journal_replay (mem_ops part) cfg 0 0 buffer j = Ok (concat (map (replay_items cfg m') (sorted_list_of_set (dom m))), None, j')
    \<and> keeps_synced m m' \<and> survivor cfg m' (mem_files part (jr_store j'))"
proof -
  note st = mem_store [OF assms(1)]
  obtain pr where pr: "pool_ref_new page_size capacity = Ok pr" "blob_store.page_pool_ok pr" "pr_next_id pr = 0"
    using blob_store.page_pool_ok_new [OF st assms(4-6)] by blast
  have "blob_store.recoverable (mem_files part) mem_inv cfg m w" using assms(2,3) by (simp add: blob_store.recoverable_def [OF st])
  from blob_store.journal_recovers [OF st this pr(2) _ assms(8)] obtain j m' j' where
    "journal_init (mem_ops part) cfg pr w = Ok j"
    "journal_replay (mem_ops part) cfg 0 0 buffer j = Ok (concat (map (replay_items cfg m') (sorted_list_of_set (dom m))), None, j')"
    "blob_store.journal_rel (mem_content part) mem_named (mem_files part) mem_inv cfg m' j'" "keeps_synced m m'"
    using pr(3) assms(7) by auto
  then show ?thesis using pr(1) blob_store.journal_rel_survivor [OF st] by auto
qed

lemma sample_torn: "torn_item sample_cfg [1, 8, 9, 9, 9, 9]"
  by (simp add: torn_item_def sample_cfg_def slice_def varint_read_def decoder_new_def feed_def varint_consts prim_size_def from_be_bytes_def)

theorem journal_recovers_synced_witness:
  "\<exists>pr j m' j'. pool_ref_new 4 2 = Ok pr
    \<and> journal_init (mem_ops ''log'') sample_cfg pr (sample_partition [(section_name 3, [1, 7, 0, 0, 0, 0, 5, 5, 5, 5, 5, 5, 5, 5, 5, 5, 1, 8, 9, 9, 9, 9])]) = Ok j
    \<and> journal_replay (mem_ops ''log'') sample_cfg 0 0 4 j = Ok (concat (map (replay_items sample_cfg m') (sorted_list_of_set (dom [3 \<mapsto> ([7, 8 :: u8], 1 :: nat)]))), None, j')
    \<and> keeps_synced [3 \<mapsto> ([7, 8], 1)] m' \<and> survivor sample_cfg m' (mem_files ''log'' (jr_store j'))"
proof (rule journal_recovers_synced [OF sample_store_ok(1) sample_partition_ok(3)])
  let ?d = "[1, 7, 0, 0, 0, 0, 5, 5, 5, 5, 5, 5, 5, 5, 5, 5, 1, 8, 9, 9, 9, 9] :: bytes"
  have "section_rest sample_cfg [7, 8] 1 ?d"
    unfolding section_rest_def using sample_torn
    by (intro disjI2 conjI exI [of _ 1] exI [of _ "[5, 5, 5, 5, 5, 5, 5, 5, 5, 5]"] exI [of _ "[1, 8, 9, 9, 9, 9]"])
      (simp_all add: sample_items sample_layout fits_def align_def u32_max_def)
  then show "crash_rest sample_cfg [3 \<mapsto> ([7, 8], 1)] (mem_files ''log'' (sample_partition [(section_name 3, ?d)]))"
    unfolding sample_partition_ok(4) crash_rest_def by (auto simp: small_u64 split: if_splits)
qed (simp_all add: small_u64)

text \<open>
  C19. A replay that starts in the middle of a section does not repair it as the one from the start does.
  Where the item at the given offset is cut off, the section is truncated to zero bytes instead of
  the end of the item before: every item of the section is lost, however long it has been durable.
\<close>

theorem replay_from_offset_drops_section:
  assumes "validate_partition_name part = Ok ()" "mem_inv w"
    and "mem_files part w = [section_name sec \<mapsto> padded (layout cfg [] vs) @ take k (entry_of cfg v)]" "sec \<le> u64_max"
    and "\<forall>x \<in> set (vs @ [v]). storable cfg x" "fits (layout cfg [] (vs @ [v]))" "vs \<noteq> []" "0 < k" "k < length (entry_of cfg v)"
    and "0 < page_size" "2 * page_size \<le> u64_max" "0 < capacity" "0 < buffer"
  shows "\<exists>pr j j'. pool_ref_new page_size capacity = Ok pr \<and> journal_init (mem_ops part) cfg pr w = Ok j
    \<and> journal_replay (mem_ops part) cfg sec (item_offset cfg vs (length vs)) buffer j = Ok ([], None, j')
    \<and> mem_files part (jr_store j') (section_name sec) = Some []"
proof -
  note st = mem_store [OF assms(1)]
  let ?d = "padded (layout cfg [] vs) @ take k (entry_of cfg v)"
  obtain pr where pr: "pool_ref_new page_size capacity = Ok pr" "blob_store.page_pool_ok pr" "pr_next_id pr = 0"
    using blob_store.page_pool_ok_new [OF st assms(10-12)] by blast
  have "fits ?d" using assms(6) fits_prefix [of ?d "drop k (entry_of cfg v)"] by (simp add: layout_append layout_Cons)
  then have "blob_store.openable (mem_files part) mem_inv {sec} w" using assms(2-4) by (simp add: blob_store.openable_def [OF st])
  from blob_store.journal_init_ok [OF st this pr(2), where cfg = cfg] obtain j where j: "journal_init (mem_ops part) cfg pr w = Ok j" "dom (bt_get (jr_blobs j)) = {sec}"
      "blob_store.sections_ok (mem_content part) mem_named (mem_files part) mem_inv (\<lambda>sec l d. l = d \<and> mem_files part w (section_name sec) = Some d) (jr_blobs j) (jr_pool j) (jr_store j)"
    using pr(3) by (auto simp: small_u64)
  obtain ab where ab: "jr_blobs j = [(sec, ab)]" using blob_store.sections_single [OF st j(3,2)] by blast
  then have g: "bt_get (jr_blobs j) sec = Some ab" by (simp add: bt_get_def)
  have "fits ?d" "append_size ab = Ok (length ?d)" using blob_store.opened_size [OF st j(3) g] assms(3) by auto
  then have "journal_replay (mem_ops part) cfg sec (item_offset cfg vs (length vs)) buffer j =
      replay_sections (mem_ops part) cfg sec (item_offset cfg vs (length vs)) buffer [(sec, align (length ?d) div 16, length ?d)] j"
    using ab compute_next_offset_ok [of "length ?d"] by (simp add: journal_replay_def fits_def)
  moreover obtain ab' pr' w' where "replay_blob (mem_ops part) cfg sec (item_offset cfg vs (length vs)) buffer sec (align (length ?d) div 16) (length ?d) j
      = Ok ([], None, set_section sec ab' pr' w' j)" "mem_files part w' = (mem_files part (jr_store j))(section_name sec \<mapsto> [])"
    using blob_store.replay_from_torn [OF st j(3) g _ refl assms(8,9) _ assms(7,13)] assms(3,5) by auto
  ultimately show ?thesis using pr(1) j(1) by (simp add: set_section_def)
qed

theorem replay_from_offset_drops_section_witness:
  "\<exists>pr j j'. pool_ref_new 4 2 = Ok pr
    \<and> journal_init (mem_ops ''log'') sample_cfg pr (sample_partition [(section_name 3, [1, 7, 0, 0, 0, 0, 0, 0, 0, 0, 0, 0, 0, 0, 0, 0, 1, 8])]) = Ok j
    \<and> journal_replay (mem_ops ''log'') sample_cfg 3 1 4 j = Ok ([], None, j')
    \<and> mem_files ''log'' (jr_store j') (section_name 3) = Some []"
  using replay_from_offset_drops_section [OF sample_store_ok(1) sample_partition_ok(3), of "section_name 3" "[1, 7, 0, 0, 0, 0, 0, 0, 0, 0, 0, 0, 0, 0, 0, 0, 1, 8]" 3 sample_cfg "[7]" 2 8 4 2 4]
  by (simp add: small_u64 sample_partition_ok sample_items sample_layout align_def fits_def u32_max_def item_offset_def)

text \<open>
  C20. Not every corrupt tail is repaired. Where the bytes after the valid items of a section start with a length
  that does not decode, the replay returns the items, then the codec error, and leaves the file with the
  corrupt bytes in it instead of truncating it, so every later replay ends with the same error.
\<close>

theorem unreadable_length_ends_replay:
  assumes "validate_partition_name part = Ok ()" "mem_inv w"
    and "mem_files part w = [section_name sec \<mapsto> layout cfg [] vs @ q @ t]" "sec \<le> u64_max"
    and "\<forall>x \<in> set vs. storable cfg x" "fits (layout cfg [] vs @ q @ t)"
    and "length (layout cfg [] vs @ q) = align (length (layout cfg [] vs))" "5 \<le> length t"
    and "varint_read (take 5 t) = (Err err :: (u32 \<times> bytes, codec_error) result)"
    and "0 < page_size" "2 * page_size \<le> u64_max" "0 < capacity" "0 < buffer"
  shows "\<exists>pr j j'. pool_ref_new page_size capacity = Ok pr \<and> journal_init (mem_ops part) cfg pr w = Ok j
    \<and> journal_replay (mem_ops part) cfg 0 0 buffer j = Ok (replay_items cfg [sec \<mapsto> (vs, 0)] sec, Some (CodecError err), j')
    \<and> mem_files part (jr_store j') (section_name sec) = Some (layout cfg [] vs @ q @ t)"
proof -
  note st = mem_store [OF assms(1)]
  let ?d = "layout cfg [] vs @ q @ t"
  obtain pr where pr: "pool_ref_new page_size capacity = Ok pr" "blob_store.page_pool_ok pr" "pr_next_id pr = 0"
    using blob_store.page_pool_ok_new [OF st assms(10-12)] by blast
  have "blob_store.openable (mem_files part) mem_inv {sec} w" using assms(2-4,6) by (simp add: blob_store.openable_def [OF st])
  from blob_store.journal_init_ok [OF st this pr(2), where cfg = cfg] obtain j where j: "journal_init (mem_ops part) cfg pr w = Ok j" "dom (bt_get (jr_blobs j)) = {sec}"
      "blob_store.sections_ok (mem_content part) mem_named (mem_files part) mem_inv (\<lambda>sec l d. l = d \<and> mem_files part w (section_name sec) = Some d) (jr_blobs j) (jr_pool j) (jr_store j)"
    using pr(3) by (auto simp: small_u64)
  obtain ab where ab: "jr_blobs j = [(sec, ab)]" using blob_store.sections_single [OF st j(3,2)] by blast
  then have g: "bt_get (jr_blobs j) sec = Some ab" by (simp add: bt_get_def)
  have "append_size ab = Ok (length ?d)" using blob_store.opened_size [OF st j(3) g] assms(3) by auto
  then have "journal_replay (mem_ops part) cfg 0 0 buffer j =
      replay_sections (mem_ops part) cfg 0 0 buffer [(sec, align (length ?d) div 16, length ?d)] j"
    using ab compute_next_offset_ok [of "length ?d"] assms(6) by (simp add: journal_replay_def fits_def)
  moreover obtain pr' where "replay_blob (mem_ops part) cfg 0 0 buffer sec (align (length ?d) div 16) (length ?d) j
      = Ok (places cfg [] vs, Some (CodecError err), set_section sec ab pr' (jr_store j) j)" "mem_files part (jr_store j) (section_name sec) = Some ?d"
    using blob_store.replay_unreadable [OF st j(3) g _ refl assms(7-9,5,13), of 0] assms(3) by auto
  ultimately show ?thesis using pr(1) j(1) by (simp add: set_section_def replay_items_def items_of_def)
qed

theorem unreadable_length_ends_replay_witness:
  "\<exists>pr j j' err. pool_ref_new 4 2 = Ok pr
    \<and> journal_init (mem_ops ''log'') sample_cfg pr (sample_partition [(section_name 3, [1, 7, 0, 0, 0, 0, 5, 5, 5, 5, 5, 5, 5, 5, 5, 5, 128, 0, 0, 0, 0])]) = Ok j
    \<and> journal_replay (mem_ops ''log'') sample_cfg 0 0 4 j = Ok ([(3, 0, 1, 7)], Some (CodecError err), j')
    \<and> mem_files ''log'' (jr_store j') (section_name 3) = Some [1, 7, 0, 0, 0, 0, 5, 5, 5, 5, 5, 5, 5, 5, 5, 5, 128, 0, 0, 0, 0]"
proof -
  have v: "varint_read (take 5 [128, 0, 0, 0, 0]) = (Err (InvalidVarint 4) :: (u32 \<times> bytes, codec_error) result)"
    by (simp add: varint_read_def decoder_new_def feed_def varint_consts prim_size_def)
  show ?thesis
    using unreadable_length_ends_replay [OF sample_store_ok(1) sample_partition_ok(3), of "section_name 3" "[1, 7, 0, 0, 0, 0, 5, 5, 5, 5, 5, 5, 5, 5, 5, 5, 128, 0, 0, 0, 0]"
        3 sample_cfg "[7]" "[5, 5, 5, 5, 5, 5, 5, 5, 5, 5]" "[128, 0, 0, 0, 0]" "InvalidVarint 4" 4 2 4] v
    by (auto simp: small_u64 sample_partition_ok sample_items sample_layout align_def fits_def u32_max_def replay_items_def items_of_def)
qed

end
