(* ===== verification/Journal_Prune.thy ===== *)
theory Journal_Prune
  imports Journal_Spec
begin

text \<open>
  What the segmented journal refuses after a prune. A run here is any sequence of the operations of
  the journal, over any store: appends, reads, syncs, prunes, size queries, rewinds and replays, with
  any arguments. A call that the guard against pruned sections refuses leaves the journal as it is and the
  run goes on; any other error ends the run, since the code promises nothing of a journal after it.
\<close>

section \<open>Runs of all operations\<close>

datatype 'v journal_op =
    JCall "'v journal_call"
  | JSize nat
  | JRewind nat nat
  | JRewindToOffset nat nat
  | JRewindSection nat nat
  | JReplay nat nat nat

fun journal_apply :: "('w, 'h) store_ops \<Rightarrow> 'v journal_cfg \<Rightarrow> 'v journal_op \<Rightarrow> ('w, 'h) journal \<Rightarrow> (('w, 'h) journal, journal_error) result" where
  "journal_apply ops cfg (JCall c) j = and_then (journal_step ops cfg c j) (\<lambda>(_, j). Ok j)"
| "journal_apply ops cfg (JSize sec) j = and_then (journal_size sec j) (\<lambda>_. Ok j)"
| "journal_apply ops cfg (JRewind sec sz) j = journal_rewind ops sec sz j"
| "journal_apply ops cfg (JRewindToOffset sec offset) j = journal_rewind_to_offset ops sec offset j"
| "journal_apply ops cfg (JRewindSection sec sz) j = journal_rewind_section ops sec sz j"
| "journal_apply ops cfg (JReplay start offset buffer) j = and_then (journal_replay ops cfg start offset buffer j) (\<lambda>(_, _, j). Ok j)"

fun journal_session :: "('w, 'h) store_ops \<Rightarrow> 'v journal_cfg \<Rightarrow> 'v journal_op list \<Rightarrow> ('w, 'h) journal \<Rightarrow> (('w, 'h) journal, journal_error) result" where
  "journal_session ops cfg [] j = Ok j"
| "journal_session ops cfg (c # cs) j =
     (case journal_apply ops cfg c j of
        Ok j' \<Rightarrow> journal_session ops cfg cs j'
      | Err (AlreadyPrunedToSection _) \<Rightarrow> journal_session ops cfg cs j
      | Err e \<Rightarrow> Err e
      | Panic \<Rightarrow> Panic)"

section \<open>No section below the oldest retained one\<close>

definition journal_bound :: "('w, 'h) journal \<Rightarrow> bool" where
  "journal_bound j \<longleftrightarrow> bt_inv (jr_blobs j) \<and> (\<forall>sec \<in> fst ` set (jr_blobs j). jr_oldest_retained_section j \<le> sec)"

text \<open>One journal is a later state of another.\<close>

definition journal_later :: "('w, 'h) journal \<Rightarrow> ('w, 'h) journal \<Rightarrow> bool" where
  "journal_later j j' \<longleftrightarrow> journal_bound j' \<and> jr_oldest_retained_section j \<le> jr_oldest_retained_section j'"

lemma journal_later_refl: "journal_bound j \<Longrightarrow> journal_later j j"
  by (simp add: journal_later_def)

lemma journal_later_trans: "journal_later j1 j2 \<Longrightarrow> journal_later j2 j3 \<Longrightarrow> journal_later j1 j3"
  by (simp add: journal_later_def)

lemma guard_passed: "journal_prune_guard sec j = Ok u \<Longrightarrow> jr_oldest_retained_section j \<le> sec"
  by (simp add: journal_prune_guard_def split: if_splits)

lemma set_section_later: "journal_bound j \<Longrightarrow> jr_oldest_retained_section j \<le> sec \<Longrightarrow> journal_later j (set_section sec ab pr w j)"
  by (simp add: journal_later_def journal_bound_def set_section_def bt_inv_insert bt_keys_insert)

lemma known_section: "journal_bound j \<Longrightarrow> bt_get (jr_blobs j) sec = Some ab \<Longrightarrow> jr_oldest_retained_section j \<le> sec"
  by (auto simp: journal_bound_def bt_get_Some image_iff)

lemma section_blob_later:
  assumes "journal_bound j" "jr_oldest_retained_section j \<le> sec" "section_blob ops cfg sec j = Ok (ab, j')"
  shows "journal_later j j'"
  using assms by (auto simp: section_blob_def and_then_eq_Ok intro: journal_later_refl set_section_later split: option.splits)

lemma append_later:
  assumes "journal_bound j" "journal_append ops cfg sec v j = Ok (a, j')"
  shows "journal_later j j'"
proof -
  obtain ab j1 ab' pr w u where s: "section_blob ops cfg sec j = Ok (ab, j1)" "j' = set_section sec ab' pr w j1" "journal_prune_guard sec j = Ok u"
    using assms(2) by (auto simp: journal_append_def and_then_eq_Ok Let_def)
  have b: "jr_oldest_retained_section j \<le> sec" by (rule guard_passed [OF s(3)])
  have j1: "journal_later j j1" by (rule section_blob_later [OF assms(1) b s(1)])
  have "jr_oldest_retained_section j1 = jr_oldest_retained_section j"
    using s(1) by (auto simp: section_blob_def and_then_eq_Ok set_section_def split: option.splits)
  then have "journal_later j1 j'" using j1 b unfolding s(2) by (intro set_section_later) (simp_all add: journal_later_def)
  then show ?thesis by (rule journal_later_trans [OF j1])
qed

lemma get_later: "journal_bound j \<Longrightarrow> journal_get ops cfg sec offset j = Ok (v, j') \<Longrightarrow> journal_later j j'"
  by (auto simp: journal_get_def and_then_eq_Ok intro!: set_section_later guard_passed split: option.splits)

lemma sync_later: "journal_bound j \<Longrightarrow> journal_sync ops sec j = Ok j' \<Longrightarrow> journal_later j j'"
  by (auto simp: journal_sync_def and_then_eq_Ok intro!: journal_later_refl set_section_later guard_passed split: option.splits)

lemma truncate_later: "journal_bound j \<Longrightarrow> truncate_section ops sec sz j = Ok j' \<Longrightarrow> journal_later j j'"
  by (auto simp: truncate_section_def and_then_eq_Ok intro!: journal_later_refl set_section_later known_section split: option.splits if_splits)

lemma remove_later: "journal_bound j \<Longrightarrow> remove_sections ops secs j = Ok j' \<Longrightarrow> journal_later j j'"
proof (induction secs arbitrary: j)
  case Nil
  then show ?case by (simp add: journal_later_refl)
next
  case (Cons sec secs)
  then obtain w where w: "remove_sections ops secs (j\<lparr>jr_blobs := bt_remove sec (jr_blobs j), jr_store := w\<rparr>) = Ok j'"
    by (auto simp: and_then_eq_Ok)
  have "journal_later j (j\<lparr>jr_blobs := bt_remove sec (jr_blobs j), jr_store := w\<rparr>)"
    using Cons.prems(1) by (auto simp: journal_later_def journal_bound_def bt_inv_remove bt_keys_remove)
  then show ?case using Cons.IH [OF _ w] journal_later_trans by (auto simp: journal_later_def)
qed

lemma rewind_later: "journal_bound j \<Longrightarrow> journal_rewind ops sec sz j = Ok j' \<Longrightarrow> journal_later j j'"
  by (auto simp: journal_rewind_def and_then_eq_Ok Let_def)
    (meson journal_later_def journal_later_trans remove_later truncate_later)

lemma prune_loop_keeps:
  assumes "prune_loop ops mn blobs pruned w = Ok (blobs', pruned', w')" "bt_inv blobs"
  shows "bt_inv blobs'" "fst ` set blobs' = {sec \<in> fst ` set blobs. mn \<le> sec}" "pruned' \<longleftrightarrow> pruned \<or> (\<exists>sec \<in> fst ` set blobs. sec < mn)"
proof -
  have "bt_inv blobs' \<and> fst ` set blobs' = {sec \<in> fst ` set blobs. mn \<le> sec} \<and> (pruned' \<longleftrightarrow> pruned \<or> (\<exists>sec \<in> fst ` set blobs. sec < mn))"
    using assms
  proof (induction ops mn blobs pruned w rule: prune_loop.induct)
    case (2 ops mn sec ab blobs pruned w)
    show ?case
    proof (cases "mn \<le> sec")
      case True
      have "\<forall>s \<in> fst ` set blobs. mn \<le> s" using 2(3) True by (auto dest: less_imp_le order.strict_trans1)
      then show ?thesis using 2(2,3) True by fastforce
    next
      case False
      then obtain n w1 where "map_err Runtime (append_size ab) = Ok n" "map_err Runtime (st_remove ops (Some (section_name sec)) w) = Ok w1"
          "prune_loop ops mn blobs True w1 = Ok (blobs', pruned', w')"
        using 2(2) by (auto simp: and_then_eq_Ok)
      then show ?thesis using 2(1) [OF False] 2(3) False by auto
    qed
  qed simp
  then show "bt_inv blobs'" "fst ` set blobs' = {sec \<in> fst ` set blobs. mn \<le> sec}" "pruned' \<longleftrightarrow> pruned \<or> (\<exists>sec \<in> fst ` set blobs. sec < mn)"
    by simp_all
qed

lemma prune_later:
  assumes "journal_bound j" "journal_prune ops mn j = Ok (b, j')"
  shows "journal_later j j'" "b \<Longrightarrow> jr_oldest_retained_section j' = mn"
proof -
  obtain blobs w where p: "prune_loop ops mn (jr_blobs j) False (jr_store j) = Ok (blobs, b, w)"
      "j' = (let j = j\<lparr>jr_blobs := blobs, jr_store := w\<rparr> in if b then j\<lparr>jr_oldest_retained_section := mn\<rparr> else j)"
    using assms(2) by (auto simp: journal_prune_def and_then_eq_Ok Let_def)
  have i: "bt_inv (jr_blobs j)" using assms(1) by (simp add: journal_bound_def)
  note k = prune_loop_keeps [OF p(1) i]
  have "jr_oldest_retained_section j \<le> mn" if "b"
    using k(3) assms(1) that by (auto simp: journal_bound_def)
  moreover have "\<forall>sec \<in> fst ` set blobs. mn \<le> sec \<and> jr_oldest_retained_section j \<le> sec"
    using assms(1) unfolding k(2) journal_bound_def by blast
  ultimately show "journal_later j j'" using p(2) k(1) assms(1) unfolding journal_later_def journal_bound_def by (simp add: Let_def)
  show "jr_oldest_retained_section j' = mn" if "b" using p(2) that by (simp add: Let_def)
qed

lemma replay_blob_later:
  assumes "journal_bound j" "replay_blob ops cfg start offset buffer sec max_offset blob_size j = Ok (items, e, j')"
  shows "journal_later j j'"
proof -
  obtain ab where ab: "bt_get (jr_blobs j) sec = Some ab" using assms(2) by (auto simp: replay_blob_def split: option.splits)
  have "j' = j \<or> (\<exists>ab pr w. j' = set_section sec ab pr w j)"
  proof -
    obtain x where x: "u64_mul offset ITEM_ALIGNMENT = (Ok x :: (nat, journal_error) result)" using assms(2) ab by (auto simp: replay_blob_def and_then_eq_Ok)
    let ?q = "if sec = start \<and> offset \<noteq> 0 then and_then (seek_to x (reader_new blob_size buffer)) (\<lambda>r. Ok (offset, r)) else Ok (0, reader_new blob_size buffer)"
    show ?thesis
    proof (cases ?q)
      case (Ok p)
      obtain off r where p: "p = (off, r)" by (cases p)
      obtain items1 e1 ab1 pr1 w1 where s: "replay_section max_offset cfg (append_rd ops) max_offset off 0 r (ab, jr_pool j, jr_store j) = Ok (items1, e1, ab1, pr1, w1)"
        using assms(2) ab x Ok p by (auto simp: replay_blob_def and_then_eq_Ok Let_def simp del: if_split)
      show ?thesis
      proof (cases e1)
        case (Truncate n)
        then show ?thesis using assms(2) ab x Ok p s
          by (cases "reader_resize ops n ab1 pr1 w1") (auto simp: replay_blob_def Let_def simp del: if_split)
      qed (use assms(2) ab x Ok p s in \<open>auto simp: replay_blob_def Let_def simp del: if_split\<close>)
    qed (use assms(2) ab x in \<open>auto simp: replay_blob_def Let_def\<close>)
  qed
  then show ?thesis using journal_later_refl [OF assms(1)] set_section_later [OF assms(1) known_section [OF assms(1) ab]] by auto
qed

lemma replay_sections_later:
  "journal_bound j \<Longrightarrow> replay_sections ops cfg start offset buffer plan j = Ok (items, e, j') \<Longrightarrow> journal_later j j'"
proof (induction plan arbitrary: j items)
  case (Cons p plan)
  obtain sec max_offset blob_size where p: "p = (sec, max_offset, blob_size)" by (cases p)
  obtain items1 e1 j1 where b: "replay_blob ops cfg start offset buffer sec max_offset blob_size j = Ok (items1, e1, j1)"
      "j' = j1 \<or> (\<exists>rest. replay_sections ops cfg start offset buffer plan j1 = Ok (rest, e, j'))"
    using Cons.prems(2) p by (auto simp: and_then_eq_Ok Let_def split: if_splits)
  note j1 = replay_blob_later [OF Cons.prems(1) b(1)]
  then show ?case using b(2) Cons.IH [of j1] journal_later_trans [OF j1] by (auto simp: journal_later_def)
qed (simp add: journal_later_refl)

lemma journal_apply_later: "journal_bound j \<Longrightarrow> journal_apply ops cfg c j = Ok j' \<Longrightarrow> journal_later j j'"
proof (cases c)
  case (JCall d)
  assume "journal_bound j" "journal_apply ops cfg c j = Ok j'"
  then show ?thesis using JCall by (cases d) (auto simp: and_then_eq_Ok dest: append_later get_later sync_later prune_later(1))
qed (auto simp: and_then_eq_Ok journal_rewind_to_offset_def journal_rewind_section_def journal_replay_def
    intro: journal_later_refl rewind_later truncate_later replay_sections_later)

lemma journal_session_later: "journal_bound j \<Longrightarrow> journal_session ops cfg cs j = Ok j' \<Longrightarrow> journal_later j j'"
proof (induction cs arbitrary: j)
  case (Cons c cs)
  then consider j1 where "journal_apply ops cfg c j = Ok j1" "journal_session ops cfg cs j1 = Ok j'" | "journal_session ops cfg cs j = Ok j'"
    by (auto split: result.splits journal_error.splits)
  then show ?case
  proof cases
    case (1 j1)
    note l = journal_apply_later [OF Cons.prems(1) 1(1)]
    then show ?thesis using Cons.IH [OF _ 1(2)] journal_later_trans [OF l] by (auto simp: journal_later_def)
  next
    case 2
    then show ?thesis using Cons.IH Cons.prems(1) by blast
  qed
qed (simp add: journal_later_refl)

lemma init_blobs_inv: "bt_inv blobs \<Longrightarrow> init_blobs ops cfg names blobs pr w = Ok (blobs', pr', w') \<Longrightarrow> bt_inv blobs'"
  by (induction ops cfg names blobs pr w rule: init_blobs.induct) (auto simp: and_then_eq_Ok Let_def bt_inv_insert split: if_splits)

lemma journal_init_bound: "journal_init ops cfg pr w = Ok j \<Longrightarrow> journal_bound j"
  by (auto simp: journal_init_def and_then_eq_Ok journal_bound_def dest: init_blobs_inv [rotated])

section \<open>Properties\<close>

text \<open>
  C17. Once a prune has removed a section, every later append, read, sync, size query or rewind for a
  section below the pruned bound is refused with the error that names the oldest section, which is
  at least that bound. This holds over any store, from the journal's start on, whatever operations come
  before and in between with whatever arguments: appends, reads, syncs, further prunes, size queries, rewinds and
  replays that succeed, and calls the journal refuses because of the prune.
\<close>

theorem pruned_sections_refused:
  assumes "journal_init ops cfg pr w = Ok j0" "journal_session ops cfg cs j0 = Ok j"
    and "journal_prune ops mn j = Ok (True, j1)" "journal_session ops cfg ds j1 = Ok j2"
    and "sec < mn" "offset \<le> u32_max"
  shows "\<exists>oldest. mn \<le> oldest
    \<and> journal_append ops cfg sec v j2 = Err (AlreadyPrunedToSection oldest)
    \<and> journal_get ops cfg sec offset j2 = Err (AlreadyPrunedToSection oldest)
    \<and> journal_sync ops sec j2 = Err (AlreadyPrunedToSection oldest)
    \<and> journal_size sec j2 = Err (AlreadyPrunedToSection oldest)
    \<and> journal_rewind ops sec sz j2 = Err (AlreadyPrunedToSection oldest)
    \<and> journal_rewind_to_offset ops sec offset j2 = Err (AlreadyPrunedToSection oldest)
    \<and> journal_rewind_section ops sec sz j2 = Err (AlreadyPrunedToSection oldest)"
proof -
  have "journal_bound j" using journal_session_later [OF journal_init_bound [OF assms(1)] assms(2)] by (simp add: journal_later_def)
  from prune_later [OF this assms(3)] have "journal_bound j1" "jr_oldest_retained_section j1 = mn" by (simp_all add: journal_later_def)
  then have "mn \<le> jr_oldest_retained_section j2" using journal_session_later [OF _ assms(4)] by (simp add: journal_later_def)
  moreover from this have "journal_prune_guard sec j2 = Err (AlreadyPrunedToSection (jr_oldest_retained_section j2))"
    using assms(5) by (simp add: journal_prune_guard_def)
  moreover have "offset * 16 \<le> u64_max" using assms(6) by (simp add: u32_max_def u64_max_def)
  ultimately show ?thesis
    by (simp add: journal_append_def journal_get_def journal_sync_def journal_size_def journal_rewind_def
        journal_rewind_to_offset_def journal_rewind_section_def ITEM_ALIGNMENT_def)
qed

theorem pruned_sections_refused_witness:
  "\<exists>pr j0 j j1 j2 oldest. pool_ref_new 4 2 = Ok pr \<and> journal_init (mem_ops ''log'') sample_cfg pr (sample_partition []) = Ok j0
    \<and> journal_session (mem_ops ''log'') sample_cfg [JCall (JAppend 3 7)] j0 = Ok j
    \<and> journal_prune (mem_ops ''log'') 5 j = Ok (True, j1)
    \<and> journal_session (mem_ops ''log'') sample_cfg [JCall (JAppend 6 8), JRewind 4 0] j1 = Ok j2 \<and> 5 \<le> oldest
    \<and> journal_append (mem_ops ''log'') sample_cfg 4 1 j2 = Err (AlreadyPrunedToSection oldest)"
proof -
  have "sections_run sample_cfg [JAppend 3 7, JPrune 5, JAppend 6 8] (0, Map.empty)
      = Some ([Appended 0 1, Pruned True, Appended 0 1], 5, [6 \<mapsto> ([8], 0)])"
    by (simp add: sample_items small_u64 items_of_def synced_of_def item_offset_def layout_Cons padded_def align_def fits_def u32_max_def)
  from journal_on_mem [OF sample_store_ok(1) sample_partition_ok(1,2) _ _ _ this, of 4 2] obtain pr j0 j' where
    r: "pool_ref_new 4 2 = Ok pr" "journal_init (mem_ops ''log'') sample_cfg pr (sample_partition []) = Ok j0"
      "journal_run (mem_ops ''log'') sample_cfg [JAppend 3 7, JPrune 5, JAppend 6 8] j0 = Ok ([Appended 0 1, Pruned True, Appended 0 1], j')"
      "jr_oldest_retained_section j' = 5"
    by (auto simp: small_u64)
  from r(3) obtain x j j1 y where s: "journal_append (mem_ops ''log'') sample_cfg 3 7 j0 = Ok (x, j)" "journal_prune (mem_ops ''log'') 5 j = Ok (True, j1)"
      "journal_append (mem_ops ''log'') sample_cfg 6 8 j1 = Ok (y, j')"
    by (auto simp: and_then_eq_Ok)
  have a: "journal_session (mem_ops ''log'') sample_cfg [JCall (JAppend 3 7)] j0 = Ok j" using s(1) by (cases x) simp
  have b: "journal_session (mem_ops ''log'') sample_cfg [JCall (JAppend 6 8), JRewind 4 0] j1 = Ok j'"
    using s(3) r(4) by (cases y) (simp add: journal_rewind_def journal_prune_guard_def)
  show ?thesis using pruned_sections_refused [OF r(2) a s(2) b, of 4 0 1 0] r(1,2) a s(2) b by (auto simp: small_u64)
qed

end
