(* ===== verification/Codec_Types.thy ===== *)
theory Codec_Types
  imports Varint BTree
begin

text \<open>
  The implementations of the codec traits for Rust's own types (\<open>codec/src/types/\<close>): integers,
  \<open>usize\<close> lengths, \<open>bool\<close>, byte arrays, \<open>()\<close>, \<open>Option\<close>, tuples, \<open>Vec\<close>, \<open>Bytes\<close>, \<open>BTreeMap\<close>,
  \<open>BTreeSet\<close> and the address types. For each the contract of the locale \<open>codec\<close> is proved; the ones
  that hold an element type are locales over the element's codec, so that every nesting is a codec.

  The big-endian accessors of the \<open>bytes\<close> crate (\<open>put_u16\<close>, \<open>get_u16\<close>, ...) are a parameter, the
  record \<open>numeric\<close>; what the code relies on is the locale \<open>numeric_io\<close>, which Rust's
  \<open>to_be_bytes\<close> and \<open>from_be_bytes\<close> satisfy.
\<close>

section \<open>Fixed-width integers\<close>

record 'a numeric =
  num_size :: nat
  num_put :: "'a \<Rightarrow> bytes"
  num_get :: "bytes \<Rightarrow> 'a"

definition write_numeric :: "'a numeric \<Rightarrow> 'a writer" where
  "write_numeric io x = Ok (num_put io x)"

definition read_numeric :: "'a numeric \<Rightarrow> 'a reader" where
  "read_numeric io buf =
     and_then (at_least buf (num_size io))
       (\<lambda>_. Ok (num_get io (take (num_size io) buf), drop (num_size io) buf))"

definition size_numeric :: "'a numeric \<Rightarrow> 'a sizer" where
  "size_numeric io x = Ok (num_size io)"

locale numeric_io =
  fixes io :: "'a numeric"
  assumes put_length: "length (num_put io x) = num_size io"
    and get_put: "num_get io (num_put io x) = x"
    and put_get: "length bs = num_size io \<Longrightarrow> num_put io (num_get io bs) = bs"

sublocale numeric_io \<subseteq> num: codec "write_numeric io" "read_numeric io" "size_numeric io" "\<lambda>_. True"
proof
  show "read_numeric io (bs @ rest) = Ok (x, rest)" if "write_numeric io x = Ok bs" for x bs rest
    using that put_length [of x]
    by (auto simp: read_numeric_def write_numeric_def at_least_def get_put)
  show "True \<and> (\<exists>bs. write_numeric io x = Ok bs \<and> buf = bs @ rest)"
    if "read_numeric io buf = Ok (x, rest)" for buf x rest
    using that by (auto simp: read_numeric_def write_numeric_def at_least_def put_get
        split: if_splits)
qed (auto simp: write_numeric_def size_numeric_def read_numeric_def at_least_def put_length)

definition be_numeric :: "'a::len word numeric" where
  "be_numeric = \<lparr>num_size = LENGTH('a) div 8, num_put = to_be_bytes, num_get = from_be_bytes\<rparr>"

lemma be_numeric_io: "8 dvd LENGTH('a::len) \<Longrightarrow> numeric_io (be_numeric :: 'a word numeric)"
  by unfold_locales (simp_all add: be_numeric_def from_to_be_bytes to_from_be_bytes)

interpretation be_u16: numeric_io "be_numeric :: u16 numeric" by (rule be_numeric_io) simp
interpretation be_u32: numeric_io "be_numeric :: u32 numeric" by (rule be_numeric_io) simp
interpretation be_u64: numeric_io "be_numeric :: u64 numeric" by (rule be_numeric_io) simp
interpretation be_u128: numeric_io "be_numeric :: 128 word numeric" by (rule be_numeric_io) simp

section \<open>Lengths\<close>

text \<open>\<open>usize\<close> on a 64-bit target.\<close>

definition usize_max :: nat where "usize_max = 2 ^ 64 - 1"

definition write_usize :: "nat writer" where
  "write_usize n = (if n < 2 ^ 32 then Ok (varint_write (word_of_nat n :: u32)) else Panic)"

definition read_usize :: "nat range_cfg \<Rightarrow> nat reader" where
  "read_usize rng buf =
     and_then (varint_read buf) (\<lambda>(self_as_u32 :: u32, rest).
     and_then (if unat self_as_u32 \<le> usize_max then Ok (unat self_as_u32) else Err InvalidUsize)
       (\<lambda>result. if \<not> range_contains rng result then Err (InvalidLength result)
                 else Ok (result, rest)))"

definition size_usize :: "nat sizer" where
  "size_usize n = (if n < 2 ^ 32 then Ok (varint_size (word_of_nat n :: u32)) else Panic)"

definition valid_usize :: "nat range_cfg \<Rightarrow> nat \<Rightarrow> bool" where
  "valid_usize rng n \<longleftrightarrow> n < 2 ^ 32 \<and> range_contains rng n"

lemma codec_usize: "codec write_usize (read_usize rng) size_usize (valid_usize rng)"
proof
  show "\<exists>bs. write_usize x = Ok bs \<and> size_usize x = Ok (length bs)" if "valid_usize rng x" for x
    using that by (auto simp: valid_usize_def write_usize_def size_usize_def length_varint_write)
  show "read_usize rng (bs @ rest) = Ok (x, rest)"
    if "valid_usize rng x" "write_usize x = Ok bs" for x bs rest
    using that varint_read_write [of "word_of_nat x :: u32" rest]
    by (auto simp: valid_usize_def write_usize_def read_usize_def usize_max_def unat_of_nat_less)
  show "valid_usize rng x \<and> (\<exists>bs. write_usize x = Ok bs \<and> buf = bs @ rest)"
    if r: "read_usize rng buf = Ok (x, rest)" for buf x rest
  proof -
    from r obtain w :: u32 where w: "varint_read buf = Ok (w, rest)" "x = unat w" "range_contains rng x"
      by (auto simp: read_usize_def result_simps split: if_splits)
    moreover have "unat w < 2 ^ 32" using unsigned_less [where 'a = nat, of w] by simp
    ultimately show ?thesis
      using varint_read_canonical [of buf w rest] by (simp add: valid_usize_def write_usize_def)
  qed
  show "read_usize rng buf \<noteq> Panic" for buf
    using varint_u32.read_no_panic [of buf] by (auto simp: read_usize_def result_simps split: if_splits)
qed

section \<open>Booleans, byte arrays, unit\<close>

definition write_bool :: "bool writer" where
  "write_bool b = Ok [if b then 1 else 0]"

definition read_bool :: "bool reader" where
  "read_bool buf = and_then (read_u8 buf) (\<lambda>(b, rest).
     if b = 0 then Ok (False, rest) else if b = 1 then Ok (True, rest) else Err InvalidBool)"

definition size_bool :: "bool sizer" where
  "size_bool b = Ok 1"

definition write_array :: "bytes writer" where
  "write_array xs = Ok xs"

definition read_array :: "nat \<Rightarrow> bytes reader" where
  "read_array n buf = and_then (at_least buf n) (\<lambda>_. Ok (take n buf, drop n buf))"

definition size_array :: "nat \<Rightarrow> bytes sizer" where
  "size_array n xs = Ok n"

definition write_unit :: "unit writer" where
  "write_unit x = Ok []"

definition read_unit :: "unit reader" where
  "read_unit buf = Ok ((), buf)"

definition size_unit :: "unit sizer" where
  "size_unit x = Ok 0"

interpretation bool: codec write_bool read_bool size_bool "\<lambda>_. True"
proof
  show "True \<and> (\<exists>bs. write_bool x = Ok bs \<and> buf = bs @ rest)" if "read_bool buf = Ok (x, rest)" for buf x rest
    using that by (cases buf) (auto simp: read_bool_def write_bool_def split: if_splits)
  show "read_bool buf \<noteq> Panic" for buf by (cases buf) (auto simp: read_bool_def)
qed (auto simp: write_bool_def size_bool_def read_bool_def)

lemma codec_array: "codec write_array (read_array n) (size_array n) (\<lambda>xs. length xs = n)"
  by unfold_locales
    (auto simp: write_array_def size_array_def read_array_def at_least_def split: if_splits)

interpretation unit: codec write_unit read_unit size_unit "\<lambda>_. True"
  by unfold_locales (auto simp: write_unit_def read_unit_def size_unit_def)

section \<open>Options and pairs\<close>

definition write_option :: "'a writer \<Rightarrow> 'a option writer" where
  "write_option wr x = and_then (write_bool (x \<noteq> None)) (\<lambda>b.
     case x of None \<Rightarrow> Ok b | Some inner \<Rightarrow> and_then (wr inner) (\<lambda>c. Ok (b @ c)))"

definition size_option :: "'a sizer \<Rightarrow> 'a option sizer" where
  "size_option sz x = (case x of None \<Rightarrow> Ok 1 | Some inner \<Rightarrow> and_then (sz inner) (\<lambda>n. Ok (1 + n)))"

definition read_option :: "'a reader \<Rightarrow> 'a option reader" where
  "read_option rd buf = and_then (read_bool buf) (\<lambda>(some, rest).
     if some then and_then (rd rest) (\<lambda>(x, rest'). Ok (Some x, rest')) else Ok (None, rest))"

definition write_pair :: "'a writer \<Rightarrow> 'b writer \<Rightarrow> ('a \<times> 'b) writer" where
  "write_pair wa wb = (\<lambda>(x, y). and_then (wa x) (\<lambda>b. and_then (wb y) (\<lambda>c. Ok (b @ c))))"

definition size_pair :: "'a sizer \<Rightarrow> 'b sizer \<Rightarrow> ('a \<times> 'b) sizer" where
  "size_pair sa sb = (\<lambda>(x, y). and_then (sa x) (\<lambda>m. and_then (sb y) (\<lambda>n. Ok (m + n))))"

definition read_pair :: "'a reader \<Rightarrow> 'b reader \<Rightarrow> ('a \<times> 'b) reader" where
  "read_pair ra rb buf = and_then (ra buf) (\<lambda>(x, rest).
     and_then (rb rest) (\<lambda>(y, rest'). Ok ((x, y), rest')))"

locale codec_option = elem: codec wr rd sz valid
  for wr :: "'a writer" and rd sz valid

sublocale codec_option \<subseteq> opt: codec "write_option wr" "read_option rd" "size_option sz" "pred_option valid"
proof
  show "\<exists>bs. write_option wr x = Ok bs \<and> size_option sz x = Ok (length bs)" if "pred_option valid x" for x
  proof (cases x)
    case (Some y)
    with that have "valid y" by simp
    from elem.write_valid [OF this] Some show ?thesis
      by (auto simp: write_option_def size_option_def write_bool_def)
  qed (simp add: write_option_def size_option_def write_bool_def)
  show "read_option rd (bs @ rest) = Ok (x, rest)"
    if "pred_option valid x" "write_option wr x = Ok bs" for x bs rest
  proof (cases x)
    case (Some y)
    with that obtain c where c: "valid y" "wr y = Ok c" "bs = 1 # c"
      by (auto simp: write_option_def write_bool_def result_simps)
    from elem.read_write [OF c(1,2), of rest] c(3) Some show ?thesis
      by (simp add: read_option_def read_bool_def)
  qed (use that in \<open>auto simp: write_option_def read_option_def write_bool_def read_bool_def\<close>)
  show "pred_option valid x \<and> (\<exists>bs. write_option wr x = Ok bs \<and> buf = bs @ rest)"
    if r: "read_option rd buf = Ok (x, rest)" for buf x rest
  proof -
    from r obtain s mid where s: "read_bool buf = Ok (s, mid)"
        "(if s then and_then (rd mid) (\<lambda>(x, rest'). Ok (Some x, rest')) else Ok (None, mid)) = Ok (x, rest)"
      by (auto simp: read_option_def result_simps)
    from bool.read_canonical [OF s(1)] have "buf = (if s then 1 else 0) # mid"
      by (auto simp: write_bool_def)
    show ?thesis
    proof (cases s)
      case True
      with s(2) obtain y where y: "rd mid = Ok (y, rest)" "x = Some y" by (auto simp: result_simps)
      from elem.read_canonical [OF y(1)] y(2) \<open>buf = _\<close> True show ?thesis
        by (auto simp: write_option_def write_bool_def)
    next
      case False
      with s(2) \<open>buf = _\<close> show ?thesis by (simp add: write_option_def write_bool_def)
    qed
  qed
  show "read_option rd buf \<noteq> Panic" for buf
    using bool.read_no_panic [of buf] by (auto simp: read_option_def result_simps elem.read_no_panic split: if_splits)
qed

locale codec_pair = l: codec wa ra sa va + r: codec wb rb sb vb
  for wa :: "'a writer" and ra sa va and wb :: "'b writer" and rb sb vb

sublocale codec_pair \<subseteq> pair: codec "write_pair wa wb" "read_pair ra rb" "size_pair sa sb" "\<lambda>(x, y). va x \<and> vb y"
proof
  show "\<exists>bs. write_pair wa wb p = Ok bs \<and> size_pair sa sb p = Ok (length bs)"
    if "case p of (x, y) \<Rightarrow> va x \<and> vb y" for p
  proof -
    obtain x y where p: "p = (x, y)" "va x" "vb y" using \<open>case p of (x, y) \<Rightarrow> va x \<and> vb y\<close> by (cases p) auto
    from l.write_valid [OF p(2)] r.write_valid [OF p(3)] show ?thesis
      by (auto simp: write_pair_def size_pair_def p(1))
  qed
  show "read_pair ra rb (bs @ rest) = Ok (p, rest)"
    if "case p of (x, y) \<Rightarrow> va x \<and> vb y" "write_pair wa wb p = Ok bs" for p bs rest
  proof -
    from that obtain x y b c where p: "p = (x, y)" "va x" "vb y" "wa x = Ok b" "wb y = Ok c" "bs = b @ c"
      by (cases p) (auto simp: write_pair_def result_simps)
    from l.read_write [OF p(2,4), of "c @ rest"] r.read_write [OF p(3,5), of rest] p(1,6)
    show ?thesis by (simp add: read_pair_def)
  qed
  show "(case p of (x, y) \<Rightarrow> va x \<and> vb y) \<and> (\<exists>bs. write_pair wa wb p = Ok bs \<and> buf = bs @ rest)"
    if r: "read_pair ra rb buf = Ok (p, rest)" for buf p rest
  proof -
    from r obtain x y mid where "p = (x, y)" "ra buf = Ok (x, mid)" "rb mid = Ok (y, rest)"
      by (auto simp: read_pair_def result_simps)
    with l.read_canonical [of buf x mid] r.read_canonical [of mid y rest] show ?thesis
      by (auto simp: write_pair_def)
  qed
  show "read_pair ra rb buf \<noteq> Panic" for buf
    by (auto simp: read_pair_def result_simps l.read_no_panic r.read_no_panic)
qed

section \<open>Sequences\<close>

fun write_items :: "'a writer \<Rightarrow> 'a list writer" where
  "write_items wr [] = Ok []"
| "write_items wr (x # xs) = and_then (wr x) (\<lambda>b. and_then (write_items wr xs) (\<lambda>c. Ok (b @ c)))"

fun size_items :: "'a sizer \<Rightarrow> 'a list sizer" where
  "size_items sz [] = Ok 0"
| "size_items sz (x # xs) = and_then (sz x) (\<lambda>m. and_then (size_items sz xs) (\<lambda>n. Ok (m + n)))"

fun read_items :: "'a reader \<Rightarrow> nat \<Rightarrow> 'a list reader" where
  "read_items rd 0 buf = Ok ([], buf)"
| "read_items rd (Suc n) buf = and_then (rd buf) (\<lambda>(x, rest).
     and_then (read_items rd n rest) (\<lambda>(xs, rest'). Ok (x # xs, rest')))"

definition write_vec :: "'a writer \<Rightarrow> 'a list writer" where
  "write_vec wr xs = and_then (write_usize (length xs)) (\<lambda>b.
     and_then (write_items wr xs) (\<lambda>c. Ok (b @ c)))"

definition size_vec :: "'a sizer \<Rightarrow> 'a list sizer" where
  "size_vec sz xs = and_then (size_usize (length xs)) (\<lambda>m.
     and_then (size_items sz xs) (\<lambda>n. Ok (m + n)))"

definition read_vec :: "nat range_cfg \<Rightarrow> 'a reader \<Rightarrow> 'a list reader" where
  "read_vec rng rd buf = and_then (read_usize rng buf) (\<lambda>(len, rest). read_items rd len rest)"

definition valid_vec :: "nat range_cfg \<Rightarrow> ('a \<Rightarrow> bool) \<Rightarrow> 'a list \<Rightarrow> bool" where
  "valid_vec rng valid xs \<longleftrightarrow> valid_usize rng (length xs) \<and> list_all valid xs"

definition write_bytes :: "bytes writer" where
  "write_bytes xs = and_then (write_usize (length xs)) (\<lambda>b. Ok (b @ xs))"

definition size_bytes :: "bytes sizer" where
  "size_bytes xs = and_then (size_usize (length xs)) (\<lambda>n. Ok (n + length xs))"

definition read_bytes :: "nat range_cfg \<Rightarrow> bytes reader" where
  "read_bytes rng buf = and_then (read_usize rng buf) (\<lambda>(len, rest).
     and_then (at_least rest len) (\<lambda>_. Ok (take len rest, drop len rest)))"

context codec
begin

lemma items_write: "list_all valid xs \<Longrightarrow> \<exists>bs. write_items write_to xs = Ok bs \<and> size_items encode_size xs = Ok (length bs)"
proof (induction xs)
  case (Cons x xs)
  then obtain cs where "write_items write_to xs = Ok cs" "size_items encode_size xs = Ok (length cs)" by auto
  moreover obtain bs where "write_to x = Ok bs" "encode_size x = Ok (length bs)"
    using write_valid [of x] Cons.prems by auto
  ultimately show ?case by simp
qed simp

lemma items_read_write:
  "list_all valid xs \<Longrightarrow> write_items write_to xs = Ok bs \<Longrightarrow> read_items read_cfg (length xs) (bs @ rest) = Ok (xs, rest)"
proof (induction xs arbitrary: bs)
  case (Cons x xs)
  from Cons.prems(2) obtain b c where b: "write_to x = Ok b" "write_items write_to xs = Ok c" "bs = b @ c"
    by (auto simp: result_simps)
  moreover have "read_cfg (b @ c @ rest) = Ok (x, c @ rest)"
    using read_write [OF _ b(1)] Cons.prems(1) by simp
  ultimately show ?case using Cons.IH Cons.prems(1) by simp
qed simp

lemma items_canonical:
  "read_items read_cfg n buf = Ok (xs, rest) \<Longrightarrow>
   length xs = n \<and> list_all valid xs \<and> (\<exists>bs. write_items write_to xs = Ok bs \<and> buf = bs @ rest)"
proof (induction n arbitrary: buf xs)
  case (Suc n)
  from Suc.prems obtain x ys mid where x: "read_cfg buf = Ok (x, mid)" "read_items read_cfg n mid = Ok (ys, rest)" "xs = x # ys"
    by (auto simp: result_simps)
  from Suc.IH [OF x(2)] read_canonical [OF x(1)] x(3) show ?case by auto
qed simp

lemma items_no_panic: "read_items read_cfg n buf \<noteq> Panic"
  by (induction n arbitrary: buf) (auto simp: result_simps read_no_panic)

end

locale codec_vec = elem: codec wr rd sz valid
  for wr :: "'a writer" and rd sz valid +
  fixes rng :: "nat range_cfg"

sublocale codec_vec \<subseteq> vec: codec "write_vec wr" "read_vec rng rd" "size_vec sz" "valid_vec rng valid"
proof
  show "\<exists>bs. write_vec wr xs = Ok bs \<and> size_vec sz xs = Ok (length bs)" if "valid_vec rng valid xs" for xs
  proof -
    from that have v: "valid_usize rng (length xs)" "list_all valid xs" by (simp_all add: valid_vec_def)
    from codec.write_valid [OF codec_usize v(1)] elem.items_write [OF v(2)] show ?thesis
      by (auto simp: write_vec_def size_vec_def)
  qed
  show "read_vec rng rd (bs @ rest) = Ok (xs, rest)"
    if "valid_vec rng valid xs" "write_vec wr xs = Ok bs" for xs bs rest
  proof -
    from that obtain b c where v: "valid_usize rng (length xs)" "list_all valid xs"
        "write_usize (length xs) = Ok b" "write_items wr xs = Ok c" "bs = b @ c"
      by (auto simp: valid_vec_def write_vec_def result_simps)
    from codec.read_write [OF codec_usize v(1,3), of "c @ rest"] elem.items_read_write [OF v(2,4), of rest] v(5)
    show ?thesis by (simp add: read_vec_def)
  qed
  show "valid_vec rng valid xs \<and> (\<exists>bs. write_vec wr xs = Ok bs \<and> buf = bs @ rest)"
    if "read_vec rng rd buf = Ok (xs, rest)" for buf xs rest
  proof -
    from that obtain n mid where r: "read_usize rng buf = Ok (n, mid)" "read_items rd n mid = Ok (xs, rest)"
      by (auto simp: read_vec_def result_simps)
    from codec.read_canonical [OF codec_usize r(1)] elem.items_canonical [OF r(2)] show ?thesis
      by (auto simp: valid_vec_def write_vec_def)
  qed
  show "read_vec rng rd buf \<noteq> Panic" for buf
    using codec.read_no_panic [OF codec_usize] by (auto simp: read_vec_def result_simps elem.items_no_panic)
qed

lemma codec_bytes: "codec write_bytes (read_bytes rng) size_bytes (\<lambda>xs. valid_usize rng (length xs))"
proof
  show "\<exists>bs. write_bytes xs = Ok bs \<and> size_bytes xs = Ok (length bs)" if "valid_usize rng (length xs)" for xs
    using codec.write_valid [OF codec_usize that] by (auto simp: write_bytes_def size_bytes_def)
  show "read_bytes rng (bs @ rest) = Ok (xs, rest)"
    if v: "valid_usize rng (length xs)" "write_bytes xs = Ok bs" for xs bs rest
  proof -
    from v(2) obtain b where b: "write_usize (length xs) = Ok b" "bs = b @ xs"
      by (auto simp: write_bytes_def result_simps)
    from codec.read_write [OF codec_usize v(1) b(1), of "xs @ rest"] b(2) show ?thesis
      by (simp add: read_bytes_def at_least_def)
  qed
  show "valid_usize rng (length xs) \<and> (\<exists>bs. write_bytes xs = Ok bs \<and> buf = bs @ rest)"
    if r: "read_bytes rng buf = Ok (xs, rest)" for buf xs rest
  proof -
    from r obtain n mid where n: "read_usize rng buf = Ok (n, mid)" "n \<le> length mid" "xs = take n mid" "rest = drop n mid"
      by (auto simp: read_bytes_def at_least_def result_simps split: if_splits)
    from codec.read_canonical [OF codec_usize n(1)] n(2-) show ?thesis
      by (auto simp: write_bytes_def)
  qed
  show "read_bytes rng buf \<noteq> Panic" for buf
    using codec.read_no_panic [OF codec_usize]
    by (auto simp: read_bytes_def at_least_def result_simps split: if_splits)
qed

section \<open>Ordered maps and sets\<close>

text \<open>
  \<open>read_ordered_map\<close> holds the entry read last back until the next key has been compared with it;
  \<open>flush_map\<close> is the delayed \<open>insert\<close>.
\<close>

definition flush_map :: "('k::linorder \<times> 'v) option \<Rightarrow> ('k, 'v) btree \<Rightarrow> ('k, 'v) btree" where
  "flush_map prev m = (case prev of None \<Rightarrow> m | Some (k, v) \<Rightarrow> bt_insert k v m)"

fun read_ordered_map :: "string \<Rightarrow> 'k::linorder reader \<Rightarrow> 'v reader \<Rightarrow> nat \<Rightarrow> ('k \<times> 'v) option
    \<Rightarrow> ('k, 'v) btree \<Rightarrow> ('k, 'v) btree reader" where
  "read_ordered_map ty rk rv 0 prev m buf = Ok (flush_map prev m, buf)"
| "read_ordered_map ty rk rv (Suc n) prev m buf =
     and_then (rk buf) (\<lambda>(key, buf1).
     and_then (case prev of
         Some (last_key, _) \<Rightarrow>
           if key = last_key then Err (Invalid ty ''Duplicate key'')
           else if key < last_key then Err (Invalid ty ''Keys must ascend'')
           else Ok ()
       | None \<Rightarrow> Ok ()) (\<lambda>_.
     and_then (rv buf1) (\<lambda>(value, buf2).
       read_ordered_map ty rk rv n (Some (key, value)) (flush_map prev m) buf2)))"

definition write_btree_map :: "'k writer \<Rightarrow> 'v writer \<Rightarrow> ('k, 'v) btree writer" where
  "write_btree_map wk wv m = and_then (write_usize (length m)) (\<lambda>b.
     and_then (write_items (write_pair wk wv) m) (\<lambda>c. Ok (b @ c)))"

definition size_btree_map :: "'k sizer \<Rightarrow> 'v sizer \<Rightarrow> ('k, 'v) btree sizer" where
  "size_btree_map sk sv m = and_then (size_usize (length m)) (\<lambda>n.
     and_then (size_items (size_pair sk sv) m) (\<lambda>k. Ok (n + k)))"

definition read_btree_map :: "nat range_cfg \<Rightarrow> 'k::linorder reader \<Rightarrow> 'v reader \<Rightarrow> ('k, 'v) btree reader" where
  "read_btree_map rng rk rv buf = and_then (read_usize rng buf) (\<lambda>(len, rest).
     read_ordered_map ''BTreeMap'' rk rv len None [] rest)"

definition valid_btree_map :: "nat range_cfg \<Rightarrow> ('k::linorder \<Rightarrow> bool) \<Rightarrow> ('v \<Rightarrow> bool) \<Rightarrow> ('k, 'v) btree \<Rightarrow> bool" where
  "valid_btree_map rng vk vv m \<longleftrightarrow>
     bt_inv m \<and> valid_usize rng (length m) \<and> list_all (\<lambda>(k, v). vk k \<and> vv v) m"

definition flush_set :: "'k::linorder option \<Rightarrow> 'k list \<Rightarrow> 'k list" where
  "flush_set prev s = (case prev of None \<Rightarrow> s | Some k \<Rightarrow> bs_insert k s)"

fun read_ordered_set :: "string \<Rightarrow> 'k::linorder reader \<Rightarrow> nat \<Rightarrow> 'k option \<Rightarrow> 'k list \<Rightarrow> 'k list reader" where
  "read_ordered_set ty rk 0 prev s buf = Ok (flush_set prev s, buf)"
| "read_ordered_set ty rk (Suc n) prev s buf =
     and_then (rk buf) (\<lambda>(item, buf1).
     and_then (case prev of
         Some l \<Rightarrow>
           if item = l then Err (Invalid ty ''Duplicate item'')
           else if item < l then Err (Invalid ty ''Items must ascend'')
           else Ok ()
       | None \<Rightarrow> Ok ()) (\<lambda>_.
       read_ordered_set ty rk n (Some item) (flush_set prev s) buf1))"

definition write_btree_set :: "'k writer \<Rightarrow> 'k list writer" where
  "write_btree_set wk s = and_then (write_usize (length s)) (\<lambda>b.
     and_then (write_items wk s) (\<lambda>c. Ok (b @ c)))"

definition size_btree_set :: "'k sizer \<Rightarrow> 'k list sizer" where
  "size_btree_set sk s = and_then (size_usize (length s)) (\<lambda>n.
     and_then (size_items sk s) (\<lambda>k. Ok (n + k)))"

definition read_btree_set :: "nat range_cfg \<Rightarrow> 'k::linorder reader \<Rightarrow> 'k list reader" where
  "read_btree_set rng rk buf = and_then (read_usize rng buf) (\<lambda>(len, rest).
     read_ordered_set ''BTreeSet'' rk len None [] rest)"

definition valid_btree_set :: "nat range_cfg \<Rightarrow> ('k::linorder \<Rightarrow> bool) \<Rightarrow> 'k list \<Rightarrow> bool" where
  "valid_btree_set rng vk s \<longleftrightarrow> bs_inv s \<and> valid_usize rng (length s) \<and> list_all vk s"

text \<open>
  The readers accept exactly the sequences the plain element readers accept whose keys ascend.
  \<open>pending_map\<close> and \<open>pending_set\<close> relate the entry held back to the entries already inserted.
\<close>

definition pending_map :: "('k::linorder \<times> 'v) option \<Rightarrow> ('k, 'v) btree \<Rightarrow> bool" where
  "pending_map prev m \<longleftrightarrow> bt_inv m \<and> (case prev of None \<Rightarrow> m = [] | Some (k, _) \<Rightarrow> \<forall>j \<in> fst ` set m. j < k)"

lemma flush_pending:
  "pending_map prev m \<Longrightarrow> flush_map prev m = m @ (case prev of None \<Rightarrow> [] | Some kv \<Rightarrow> [kv])
     \<and> bt_inv (flush_map prev m)"
  by (cases prev) (auto simp: pending_map_def flush_map_def bt_insert_snoc bt_inv_snoc)

lemma pending_map_step:
  assumes "pending_map prev m" "case prev of None \<Rightarrow> True | Some (l, _) \<Rightarrow> l < k"
  shows "pending_map (Some (k, v)) (flush_map prev m)"
  using assms
  by (cases prev) (fastforce simp: pending_map_def flush_map_def bt_insert_snoc bt_inv_snoc)+

lemma bt_inv_flush_append:
  assumes "pending_map (Some (l, w)) m" "k \<le> l"
  shows "\<not> bt_inv (flush_map (Some (l, w)) m @ (k, v) # es)"
  using flush_pending [OF assms(1)] assms(2) by (auto simp: bt_inv_def sorted_wrt_append)

lemma read_ordered_map_Ok:
  assumes "pending_map prev m"
  shows "read_ordered_map ty rk rv n prev m buf = Ok (m', rest) \<longleftrightarrow>
    (\<exists>es. read_items (read_pair rk rv) n buf = Ok (es, rest)
      \<and> m' = flush_map prev m @ es \<and> bt_inv m')"
  using assms
proof (induction n arbitrary: prev m buf)
  case 0
  then show ?case using flush_pending by fastforce
next
  case (Suc n)
  show ?case
  proof (cases "read_pair rk rv buf")
    case (Ok r)
    then obtain k v buf1 buf2 where kv: "rk buf = Ok (k, buf1)" "rv buf1 = Ok (v, buf2)" "r = ((k, v), buf2)"
      by (auto simp: read_pair_def result_simps)
    show ?thesis
    proof (cases "case prev of None \<Rightarrow> True | Some (l, _) \<Rightarrow> l < k")
      case True
      note p = pending_map_step [OF Suc.prems True, of v]
      have f: "flush_map (Some (k, v)) (flush_map prev m) = flush_map prev m @ [(k, v)]"
        using flush_pending [OF p] by simp
      have "read_ordered_map ty rk rv (Suc n) prev m buf
          = read_ordered_map ty rk rv n (Some (k, v)) (flush_map prev m) buf2"
        using True kv by (auto split: option.splits)
      then show ?thesis using Suc.IH [OF p] Ok kv(3) by (auto simp: f result_simps)
    next
      case False
      then obtain l w where l: "prev = Some (l, w)" "k \<le> l" by (auto split: option.splits)
      then have "read_ordered_map ty rk rv (Suc n) prev m buf \<noteq> Ok (m', rest)"
        using kv by (auto simp: result_simps split: if_splits)
      moreover have "\<not> bt_inv (flush_map prev m @ (k, v) # es)" for es
        using bt_inv_flush_append [of l w m k v es] Suc.prems l by simp
      ultimately show ?thesis using Ok kv(3) by (auto simp: result_simps)
    qed
  next
    case (Err e)
    then have "rk buf = Err e \<or> (\<exists>k b. rk buf = Ok (k, b) \<and> rv b = Err e)"
      by (auto simp: read_pair_def result_simps)
    with Err show ?thesis by (auto simp: result_simps split: option.splits if_splits)
  next
    case Panic
    then have "rk buf = Panic \<or> (\<exists>k b. rk buf = Ok (k, b) \<and> rv b = Panic)"
      by (auto simp: read_pair_def result_simps)
    with Panic show ?thesis by (auto simp: result_simps split: option.splits if_splits)
  qed
qed

lemma read_ordered_map_no_panic:
  assumes "\<And>b. rk b \<noteq> Panic" "\<And>b. rv b \<noteq> Panic"
  shows "read_ordered_map ty rk rv n prev m buf \<noteq> Panic"
  by (induction n arbitrary: prev m buf) (auto simp: result_simps assms split: option.splits if_splits)

locale codec_map = codec_pair wk rk sk vk wv rv sv vv
  for wk :: "'k::linorder writer" and rk sk vk and wv :: "'v writer" and rv sv vv +
  fixes rng :: "nat range_cfg"

sublocale codec_map \<subseteq> map: codec "write_btree_map wk wv" "read_btree_map rng rk rv" "size_btree_map sk sv" "valid_btree_map rng vk vv"
proof
  have start: "pending_map None []" by (simp add: pending_map_def)
  note read = read_ordered_map_Ok [OF start, of "''BTreeMap''" rk rv]
  show "\<exists>bs. write_btree_map wk wv m = Ok bs \<and> size_btree_map sk sv m = Ok (length bs)"
    if "valid_btree_map rng vk vv m" for m
  proof -
    from that have v: "valid_usize rng (length m)" "list_all (\<lambda>(k, v). vk k \<and> vv v) m"
      by (simp_all add: valid_btree_map_def)
    from codec.write_valid [OF codec_usize v(1)] pair.items_write [OF v(2)] show ?thesis
      by (auto simp: write_btree_map_def size_btree_map_def)
  qed
  show "read_btree_map rng rk rv (bs @ rest) = Ok (m, rest)"
    if "valid_btree_map rng vk vv m" "write_btree_map wk wv m = Ok bs" for m bs rest
  proof -
    from that obtain b c where v: "valid_usize rng (length m)" "list_all (\<lambda>(k, v). vk k \<and> vv v) m"
        "write_usize (length m) = Ok b" "write_items (write_pair wk wv) m = Ok c" "bs = b @ c" "bt_inv m"
      by (auto simp: valid_btree_map_def write_btree_map_def result_simps)
    from codec.read_write [OF codec_usize v(1,3), of "c @ rest"] pair.items_read_write [OF v(2,4), of rest] v(5,6)
    show ?thesis by (simp add: read_btree_map_def read flush_map_def)
  qed
  show "valid_btree_map rng vk vv m \<and> (\<exists>bs. write_btree_map wk wv m = Ok bs \<and> buf = bs @ rest)"
    if "read_btree_map rng rk rv buf = Ok (m, rest)" for buf m rest
  proof -
    from that obtain n mid where r: "read_usize rng buf = Ok (n, mid)"
        "read_items (read_pair rk rv) n mid = Ok (m, rest)" "bt_inv m"
      by (auto simp: read_btree_map_def result_simps read flush_map_def)
    from codec.read_canonical [OF codec_usize r(1)] pair.items_canonical [OF r(2)] r(3) show ?thesis
      by (auto simp: valid_btree_map_def write_btree_map_def)
  qed
  show "read_btree_map rng rk rv buf \<noteq> Panic" for buf
    using codec.read_no_panic [OF codec_usize] read_ordered_map_no_panic [of rk rv]
    by (auto simp: read_btree_map_def result_simps l.read_no_panic r.read_no_panic)
qed

definition pending_set :: "'k::linorder option \<Rightarrow> 'k list \<Rightarrow> bool" where
  "pending_set prev s \<longleftrightarrow> bs_inv s \<and> (case prev of None \<Rightarrow> s = [] | Some k \<Rightarrow> \<forall>j \<in> set s. j < k)"

lemma flush_pending_set:
  "pending_set prev s \<Longrightarrow> flush_set prev s = s @ (case prev of None \<Rightarrow> [] | Some k \<Rightarrow> [k])
     \<and> bs_inv (flush_set prev s)"
  by (cases prev) (auto simp: pending_set_def flush_set_def bs_insert_snoc bs_inv_snoc)

lemma pending_set_step:
  assumes "pending_set prev s" "case prev of None \<Rightarrow> True | Some l \<Rightarrow> l < k"
  shows "pending_set (Some k) (flush_set prev s)"
  using assms
  by (cases prev) (fastforce simp: pending_set_def flush_set_def bs_insert_snoc bs_inv_snoc)+

lemma read_ordered_set_Ok:
  assumes "pending_set prev s"
  shows "read_ordered_set ty rk n prev s buf = Ok (s', rest) \<longleftrightarrow>
    (\<exists>es. read_items rk n buf = Ok (es, rest) \<and> s' = flush_set prev s @ es \<and> bs_inv s')"
  using assms
proof (induction n arbitrary: prev s buf)
  case 0
  then show ?case using flush_pending_set by fastforce
next
  case (Suc n)
  show ?case
  proof (cases "rk buf")
    case (Ok r)
    then obtain k buf1 where k: "rk buf = Ok (k, buf1)" by (cases r) auto
    show ?thesis
    proof (cases "case prev of None \<Rightarrow> True | Some l \<Rightarrow> l < k")
      case True
      note p = pending_set_step [OF Suc.prems True]
      have f: "flush_set (Some k) (flush_set prev s) = flush_set prev s @ [k]"
        using flush_pending_set [OF p] by simp
      have "read_ordered_set ty rk (Suc n) prev s buf
          = read_ordered_set ty rk n (Some k) (flush_set prev s) buf1"
        using True k by (auto split: option.splits)
      then show ?thesis using Suc.IH [OF p] k by (auto simp: f result_simps)
    next
      case False
      then obtain l where l: "prev = Some l" "k \<le> l" by (auto split: option.splits)
      then have "read_ordered_set ty rk (Suc n) prev s buf \<noteq> Ok (s', rest)"
        using k by (auto simp: result_simps split: if_splits)
      moreover have "\<not> bs_inv (flush_set prev s @ k # es)" for es
        using flush_pending_set [OF Suc.prems] l by (auto simp: bs_inv_def sorted_wrt_append)
      ultimately show ?thesis using k by (auto simp: result_simps)
    qed
  qed auto
qed

lemma read_ordered_set_no_panic:
  assumes "\<And>b. rk b \<noteq> Panic"
  shows "read_ordered_set ty rk n prev s buf \<noteq> Panic"
  by (induction n arbitrary: prev s buf) (auto simp: result_simps assms split: option.splits if_splits)

locale codec_set = elem: codec wk rk sk vk
  for wk :: "'k::linorder writer" and rk sk vk +
  fixes rng :: "nat range_cfg"

sublocale codec_set \<subseteq> set: codec "write_btree_set wk" "read_btree_set rng rk" "size_btree_set sk" "valid_btree_set rng vk"
proof
  have start: "pending_set None []" by (simp add: pending_set_def bs_inv_def)
  note read = read_ordered_set_Ok [OF start, of "''BTreeSet''" rk]
  show "\<exists>bs. write_btree_set wk s = Ok bs \<and> size_btree_set sk s = Ok (length bs)"
    if "valid_btree_set rng vk s" for s
  proof -
    from that have v: "valid_usize rng (length s)" "list_all vk s" by (simp_all add: valid_btree_set_def)
    from codec.write_valid [OF codec_usize v(1)] elem.items_write [OF v(2)] show ?thesis
      by (auto simp: write_btree_set_def size_btree_set_def)
  qed
  show "read_btree_set rng rk (bs @ rest) = Ok (s, rest)"
    if "valid_btree_set rng vk s" "write_btree_set wk s = Ok bs" for s bs rest
  proof -
    from that obtain b c where v: "valid_usize rng (length s)" "list_all vk s"
        "write_usize (length s) = Ok b" "write_items wk s = Ok c" "bs = b @ c" "bs_inv s"
      by (auto simp: valid_btree_set_def write_btree_set_def result_simps)
    from codec.read_write [OF codec_usize v(1,3), of "c @ rest"] elem.items_read_write [OF v(2,4), of rest] v(5,6)
    show ?thesis by (simp add: read_btree_set_def read flush_set_def)
  qed
  show "valid_btree_set rng vk s \<and> (\<exists>bs. write_btree_set wk s = Ok bs \<and> buf = bs @ rest)"
    if "read_btree_set rng rk buf = Ok (s, rest)" for buf s rest
  proof -
    from that obtain n mid where r: "read_usize rng buf = Ok (n, mid)"
        "read_items rk n mid = Ok (s, rest)" "bs_inv s"
      by (auto simp: read_btree_set_def result_simps read flush_set_def)
    from codec.read_canonical [OF codec_usize r(1)] elem.items_canonical [OF r(2)] r(3) show ?thesis
      by (auto simp: valid_btree_set_def write_btree_set_def)
  qed
  show "read_btree_set rng rk buf \<noteq> Panic" for buf
    using codec.read_no_panic [OF codec_usize] read_ordered_set_no_panic [of rk]
    by (auto simp: read_btree_set_def result_simps elem.read_no_panic)
qed

end
