(* ===== verification/Codec_Net.thy ===== *)
theory Codec_Net
  imports Codec_Types
begin

text \<open>
  The address types of \<open>codec/src/types/net.rs\<close>. \<open>to_bits\<close> of an address is its integer, so an
  \<open>Ipv4Addr\<close> is a \<open>u32\<close> and an \<open>Ipv6Addr\<close> a \<open>u128\<close>. The accessors \<open>io16\<close>, \<open>io32\<close> and \<open>io128\<close> are those
  of the \<open>bytes\<close> crate, as in \<open>Codec_Types\<close>.
\<close>

type_synonym u128 = "128 word"

datatype ip_addr = V4 u32 | V6 u128

record socket_addr_v4 =
  v4_ip :: u32
  v4_port :: u16

record socket_addr_v6 =
  v6_ip :: u128
  v6_port :: u16
  v6_flowinfo :: u32
  v6_scope_id :: u32

datatype socket_addr = SockV4 socket_addr_v4 | SockV6 socket_addr_v6

section \<open>Operations\<close>

definition write_socket_v4 :: "u16 numeric \<Rightarrow> u32 numeric \<Rightarrow> socket_addr_v4 writer" where
  "write_socket_v4 io16 io32 a = and_then (write_numeric io32 (v4_ip a)) (\<lambda>b.
     and_then (write_numeric io16 (v4_port a)) (\<lambda>c. Ok (b @ c)))"

definition read_socket_v4 :: "u16 numeric \<Rightarrow> u32 numeric \<Rightarrow> socket_addr_v4 reader" where
  "read_socket_v4 io16 io32 buf = and_then (read_numeric io32 buf) (\<lambda>(ip, buf1).
     and_then (read_numeric io16 buf1) (\<lambda>(port, buf2). Ok (\<lparr>v4_ip = ip, v4_port = port\<rparr>, buf2)))"

definition size_socket_v4 :: "u16 numeric \<Rightarrow> u32 numeric \<Rightarrow> socket_addr_v4 sizer" where
  "size_socket_v4 io16 io32 a = Ok (num_size io32 + num_size io16)"

definition write_socket_v6 :: "u16 numeric \<Rightarrow> u128 numeric \<Rightarrow> socket_addr_v6 writer" where
  "write_socket_v6 io16 io128 a = and_then (write_numeric io128 (v6_ip a)) (\<lambda>b.
     and_then (write_numeric io16 (v6_port a)) (\<lambda>c. Ok (b @ c)))"

definition read_socket_v6 :: "u16 numeric \<Rightarrow> u128 numeric \<Rightarrow> socket_addr_v6 reader" where
  "read_socket_v6 io16 io128 buf = and_then (read_numeric io128 buf) (\<lambda>(address, buf1).
     and_then (read_numeric io16 buf1) (\<lambda>(port, buf2).
       Ok (\<lparr>v6_ip = address, v6_port = port, v6_flowinfo = 0, v6_scope_id = 0\<rparr>, buf2)))"

definition size_socket_v6 :: "u16 numeric \<Rightarrow> u128 numeric \<Rightarrow> socket_addr_v6 sizer" where
  "size_socket_v6 io16 io128 a = Ok (num_size io128 + num_size io16)"

fun write_ip_addr :: "u32 numeric \<Rightarrow> u128 numeric \<Rightarrow> ip_addr writer" where
  "write_ip_addr io32 io128 (V4 v4) = and_then (write_numeric io32 v4) (\<lambda>b. Ok (4 # b))"
| "write_ip_addr io32 io128 (V6 v6) = and_then (write_numeric io128 v6) (\<lambda>b. Ok (6 # b))"

fun size_ip_addr :: "u32 numeric \<Rightarrow> u128 numeric \<Rightarrow> ip_addr sizer" where
  "size_ip_addr io32 io128 (V4 v4) = Ok (1 + num_size io32)"
| "size_ip_addr io32 io128 (V6 v6) = Ok (1 + num_size io128)"

definition read_ip_addr :: "u32 numeric \<Rightarrow> u128 numeric \<Rightarrow> ip_addr reader" where
  "read_ip_addr io32 io128 buf = and_then (read_u8 buf) (\<lambda>(version, buf1).
     if version = 4 then and_then (read_numeric io32 buf1) (\<lambda>(a, buf2). Ok (V4 a, buf2))
     else if version = 6 then and_then (read_numeric io128 buf1) (\<lambda>(a, buf2). Ok (V6 a, buf2))
     else Err (Invalid ''IpAddr'' ''Invalid version''))"

fun socket_ip :: "socket_addr \<Rightarrow> ip_addr" where
  "socket_ip (SockV4 a) = V4 (v4_ip a)"
| "socket_ip (SockV6 a) = V6 (v6_ip a)"

fun socket_port :: "socket_addr \<Rightarrow> u16" where
  "socket_port (SockV4 a) = v4_port a"
| "socket_port (SockV6 a) = v6_port a"

fun socket_new :: "ip_addr \<Rightarrow> u16 \<Rightarrow> socket_addr" where
  "socket_new (V4 ip) port = SockV4 \<lparr>v4_ip = ip, v4_port = port\<rparr>"
| "socket_new (V6 ip) port = SockV6 \<lparr>v6_ip = ip, v6_port = port, v6_flowinfo = 0, v6_scope_id = 0\<rparr>"

definition write_socket_addr :: "u16 numeric \<Rightarrow> u32 numeric \<Rightarrow> u128 numeric \<Rightarrow> socket_addr writer" where
  "write_socket_addr io16 io32 io128 a = and_then (write_ip_addr io32 io128 (socket_ip a)) (\<lambda>b.
     and_then (write_numeric io16 (socket_port a)) (\<lambda>c. Ok (b @ c)))"

definition size_socket_addr :: "u16 numeric \<Rightarrow> u32 numeric \<Rightarrow> u128 numeric \<Rightarrow> socket_addr sizer" where
  "size_socket_addr io16 io32 io128 a =
     and_then (size_ip_addr io32 io128 (socket_ip a)) (\<lambda>n. Ok (n + num_size io16))"

definition read_socket_addr :: "u16 numeric \<Rightarrow> u32 numeric \<Rightarrow> u128 numeric \<Rightarrow> socket_addr reader" where
  "read_socket_addr io16 io32 io128 buf = and_then (read_ip_addr io32 io128 buf) (\<lambda>(ip, buf1).
     and_then (read_numeric io16 buf1) (\<lambda>(port, buf2). Ok (socket_new ip port, buf2)))"

section \<open>Contracts\<close>

text \<open>The values the encoding keeps: an IPv6 socket address loses its flow label and scope.\<close>

definition plain_v6 :: "socket_addr_v6 \<Rightarrow> bool" where
  "plain_v6 a \<longleftrightarrow> v6_flowinfo a = 0 \<and> v6_scope_id a = 0"

fun plain_socket :: "socket_addr \<Rightarrow> bool" where
  "plain_socket (SockV4 a) = True"
| "plain_socket (SockV6 a) = plain_v6 a"

lemma socket_new_plain: "plain_socket a \<Longrightarrow> socket_new (socket_ip a) (socket_port a) = a"
  by (cases a) (auto simp: plain_v6_def)

lemma socket_new_split [simp]:
  "socket_ip (socket_new ip port) = ip" "socket_port (socket_new ip port) = port"
  "plain_socket (socket_new ip port)"
  by (cases ip; simp add: plain_v6_def)+

locale address_io = n16: numeric_io io16 + n32: numeric_io io32 + n128: numeric_io io128
  for io16 :: "u16 numeric" and io32 :: "u32 numeric" and io128 :: "u128 numeric"
begin

lemmas numeric_writes = write_numeric_def size_numeric_def n16.put_length n32.put_length n128.put_length

lemma read_put16: "read_numeric io16 (num_put io16 x @ rest) = Ok (x, rest)"
  using n16.num.read_write [of x "num_put io16 x" rest] by (simp add: write_numeric_def)

lemma read_put32: "read_numeric io32 (num_put io32 x @ rest) = Ok (x, rest)"
  using n32.num.read_write [of x "num_put io32 x" rest] by (simp add: write_numeric_def)

lemma read_put128: "read_numeric io128 (num_put io128 x @ rest) = Ok (x, rest)"
  using n128.num.read_write [of x "num_put io128 x" rest] by (simp add: write_numeric_def)

lemma get16: "read_numeric io16 buf = Ok (x, rest) \<Longrightarrow> buf = num_put io16 x @ rest"
  using n16.num.read_canonical [of buf x rest] by (auto simp: write_numeric_def)

lemma get32: "read_numeric io32 buf = Ok (x, rest) \<Longrightarrow> buf = num_put io32 x @ rest"
  using n32.num.read_canonical [of buf x rest] by (auto simp: write_numeric_def)

lemma get128: "read_numeric io128 buf = Ok (x, rest) \<Longrightarrow> buf = num_put io128 x @ rest"
  using n128.num.read_canonical [of buf x rest] by (auto simp: write_numeric_def)

lemmas numeric_no_panic = n16.num.read_no_panic n32.num.read_no_panic n128.num.read_no_panic

end

sublocale address_io \<subseteq> sock4: codec "write_socket_v4 io16 io32" "read_socket_v4 io16 io32"
    "size_socket_v4 io16 io32" "\<lambda>_. True"
  by unfold_locales
    (auto simp: write_socket_v4_def size_socket_v4_def read_socket_v4_def numeric_writes
      read_put16 read_put32 result_simps numeric_no_panic dest!: get16 get32)

sublocale address_io \<subseteq> sock6: codec "write_socket_v6 io16 io128" "read_socket_v6 io16 io128"
    "size_socket_v6 io16 io128" plain_v6
  by unfold_locales
    (auto simp: write_socket_v6_def size_socket_v6_def read_socket_v6_def numeric_writes plain_v6_def
      read_put16 read_put128 result_simps numeric_no_panic dest!: get16 get128)

sublocale address_io \<subseteq> ip: codec "write_ip_addr io32 io128" "read_ip_addr io32 io128"
    "size_ip_addr io32 io128" "\<lambda>_. True"
proof
  show "\<exists>bs. write_ip_addr io32 io128 x = Ok bs \<and> size_ip_addr io32 io128 x = Ok (length bs)" for x
    by (cases x) (auto simp: numeric_writes)
  show "read_ip_addr io32 io128 (bs @ rest) = Ok (x, rest)" if "write_ip_addr io32 io128 x = Ok bs" for x bs rest
    using that by (cases x) (auto simp: read_ip_addr_def write_numeric_def read_put32 read_put128)
  show "True \<and> (\<exists>bs. write_ip_addr io32 io128 x = Ok bs \<and> buf = bs @ rest)"
    if "read_ip_addr io32 io128 buf = Ok (x, rest)" for buf x rest
    using that by (cases buf)
      (auto simp: read_ip_addr_def result_simps write_numeric_def split: if_splits dest!: get32 get128)
  show "read_ip_addr io32 io128 buf \<noteq> Panic" for buf
    by (cases buf) (auto simp: read_ip_addr_def result_simps numeric_no_panic)
qed

sublocale address_io \<subseteq> sock: codec "write_socket_addr io16 io32 io128" "read_socket_addr io16 io32 io128"
    "size_socket_addr io16 io32 io128" plain_socket
proof
  show "\<exists>bs. write_socket_addr io16 io32 io128 x = Ok bs \<and> size_socket_addr io16 io32 io128 x = Ok (length bs)" for x
    using ip.write_valid [of "socket_ip x"]
    by (auto simp: write_socket_addr_def size_socket_addr_def numeric_writes)
  show "read_socket_addr io16 io32 io128 (bs @ rest) = Ok (x, rest)"
    if "plain_socket x" "write_socket_addr io16 io32 io128 x = Ok bs" for x bs rest
  proof -
    from that(2) obtain b where b: "write_ip_addr io32 io128 (socket_ip x) = Ok b"
        "bs = b @ num_put io16 (socket_port x)"
      by (auto simp: write_socket_addr_def write_numeric_def result_simps)
    from ip.read_write [OF TrueI b(1), of "num_put io16 (socket_port x) @ rest"] b(2) that(1) show ?thesis
      by (simp add: read_socket_addr_def read_put16 socket_new_plain)
  qed
  show "plain_socket x \<and> (\<exists>bs. write_socket_addr io16 io32 io128 x = Ok bs \<and> buf = bs @ rest)"
    if "read_socket_addr io16 io32 io128 buf = Ok (x, rest)" for buf x rest
  proof -
    from that obtain i p mid where r: "read_ip_addr io32 io128 buf = Ok (i, mid)"
        "read_numeric io16 mid = Ok (p, rest)" "x = socket_new i p"
      by (auto simp: read_socket_addr_def result_simps)
    from ip.read_canonical [OF r(1)] get16 [OF r(2)] r(3) show ?thesis
      by (auto simp: write_socket_addr_def write_numeric_def)
  qed
  show "read_socket_addr io16 io32 io128 buf \<noteq> Panic" for buf
    by (auto simp: read_socket_addr_def result_simps ip.read_no_panic numeric_no_panic)
qed

interpretation be_addr: address_io be_numeric be_numeric be_numeric ..

section \<open>Nested instances\<close>

text \<open>
  The combinators on concrete element codecs, as the crates use them: optional and repeated varints,
  maps from identifiers to byte strings, sets of identifiers.
\<close>

interpretation opt_u64: codec_option "\<lambda>x :: u64. Ok (varint_write x)" varint_read "\<lambda>x. Ok (varint_size x)" "\<lambda>_. True" ..

interpretation vec_u16: codec_vec "write_numeric (be_numeric :: u16 numeric)" "read_numeric be_numeric"
  "size_numeric be_numeric" "\<lambda>_. True" rng for rng ..

interpretation u64_bool: codec_pair "\<lambda>x :: u64. Ok (varint_write x)" varint_read "\<lambda>x. Ok (varint_size x)" "\<lambda>_. True"
  write_bool read_bool size_bool "\<lambda>_. True" ..

interpretation map_u64: codec_map "write_numeric (be_numeric :: u64 numeric)" "read_numeric be_numeric"
  "size_numeric be_numeric" "\<lambda>_. True" write_bool read_bool size_bool "\<lambda>_. True" rng for rng ..

interpretation set_u32: codec_set "write_numeric (be_numeric :: u32 numeric)" "read_numeric be_numeric"
  "size_numeric be_numeric" "\<lambda>_. True" rng for rng ..

text \<open>Encodings of small lengths and values, for evaluation.\<close>

lemma varint_write_small: "unat (x :: 'a::len word) < 128 \<Longrightarrow> varint_write x = [ucast x]"
  by (simp add: varint_write_def varint_consts)

lemma varint_size_small: "8 dvd LENGTH('a) \<Longrightarrow> unat (x :: 'a::len word) < 128 \<Longrightarrow> varint_size x = 1"
  by (simp add: length_varint_write varint_write_small)

lemma usize_small: "n < 128 \<Longrightarrow> write_usize n = Ok [word_of_nat n]" "n < 128 \<Longrightarrow> size_usize n = Ok 1"
proof -
  assume n: "n < 128"
  then have "unat (word_of_nat n :: u32) = n" by (simp add: unat_of_nat_less)
  moreover from this have "ucast (word_of_nat n :: u32) = (word_of_nat n :: u8)"
    by (metis of_nat_unat)
  ultimately show "write_usize n = Ok [word_of_nat n]" "size_usize n = Ok 1"
    using n by (simp_all add: write_usize_def size_usize_def varint_write_small varint_size_small)
qed

lemmas encode_small = encode_def write_vec_def size_vec_def write_btree_map_def size_btree_map_def
  write_btree_set_def size_btree_set_def write_pair_def size_pair_def
  usize_small varint_write_small varint_size_small write_bool_def size_bool_def

section \<open>The contracts of the combinators, exported\<close>

context codec_pair begin

lemma pair_contract: "codec (write_pair wa wb) (read_pair ra rb) (size_pair sa sb) (\<lambda>(x, y). va x \<and> vb y)"
  by (rule pair.codec_axioms)

end

context codec_vec begin

lemma vec_contract: "codec (write_vec wr) (read_vec rng rd) (size_vec sz) (valid_vec rng valid)"
  by (rule vec.codec_axioms)

end

context codec_map begin

lemma map_contract:
  "codec (write_btree_map wk wv) (read_btree_map rng rk rv) (size_btree_map sk sv) (valid_btree_map rng vk vv)"
  by (rule map.codec_axioms)

end

context codec_set begin

lemma set_contract: "codec (write_btree_set wk) (read_btree_set rng rk) (size_btree_set sk) (valid_btree_set rng vk)"
  by (rule set.codec_axioms)

end

context address_io begin

lemma socket_contract: "codec (write_socket_addr io16 io32 io128) (read_socket_addr io16 io32 io128)
    (size_socket_addr io16 io32 io128) plain_socket"
  by (rule sock.codec_axioms)

end

section \<open>Properties\<close>

text \<open>
  C23. Vectors: for any element codec that keeps the contract and any length range, decoding accepts
  exactly the encodings of vectors whose length the range admits and whose elements are valid, and
  never panics.
\<close>

theorem vec_decode_iff:
  assumes "codec wr rd sz valid"
  shows "(decode_cfg (read_vec rng rd) bs = Ok xs \<longleftrightarrow>
      valid_vec rng valid xs \<and> encode (write_vec wr) (size_vec sz) xs = Ok bs)
    \<and> decode_cfg (read_vec rng rd) bs \<noteq> Panic"
proof -
  have "codec_vec wr rd sz valid" using assms by (simp add: codec_vec_def)
  note C = codec_vec.vec_contract [OF this]
  show ?thesis using codec.decode_iff_encode [OF C] codec.decode_no_panic [OF C] by blast
qed

theorem vec_decode_iff_witness:
  "decode_cfg (read_vec \<lparr>range_start = Included 0, range_end = Included 2\<rparr> read_bool) [0x02, 0x01, 0x00]
     = Ok [True, False]
   \<and> decode_cfg (read_vec \<lparr>range_start = Included 0, range_end = Included 1\<rparr> read_bool) [0x02, 0x01, 0x00]
     \<noteq> Ok [True, False]"
proof -
  have e: "encode (write_vec write_bool) (size_vec size_bool) [True, False] = Ok [0x02, 0x01, 0x00]"
    by (simp add: encode_small)
  note V = vec_decode_iff [OF bool.codec_axioms, of _ "[0x02, 0x01, 0x00]" "[True, False]"]
  show ?thesis
    using V [of "\<lparr>range_start = Included 0, range_end = Included 2\<rparr>"]
      V [of "\<lparr>range_start = Included 0, range_end = Included 1\<rparr>"]
    by (simp add: e valid_vec_def valid_usize_def range_contains_def)
qed

text \<open>
  C22. B-tree maps: for any key and value codecs that keep the contract, decoding accepts exactly the
  encodings of maps in strictly ascending key order whose size the range admits, so two different
  byte strings never decode to the same map; it never panics.
\<close>

theorem btree_map_decode_iff:
  assumes "codec wk rk sk vk" "codec wv rv sv vv"
  shows "(decode_cfg (read_btree_map rng rk rv) bs = Ok m \<longleftrightarrow>
      valid_btree_map rng vk vv m \<and> encode (write_btree_map wk wv) (size_btree_map sk sv) m = Ok bs)
    \<and> decode_cfg (read_btree_map rng rk rv) bs \<noteq> Panic"
proof -
  have "codec_map wk rk sk vk wv rv sv vv" using assms by (simp add: codec_map_def codec_pair_def)
  note C = codec_map.map_contract [OF this]
  show ?thesis using codec.decode_iff_encode [OF C] codec.decode_no_panic [OF C] by blast
qed

theorem btree_map_decode_iff_witness:
  "decode_cfg (read_btree_map \<lparr>range_start = Included 0, range_end = Included 9\<rparr> (varint_read :: u16 reader) read_bool)
     [0x02, 0x03, 0x01, 0x05, 0x00] = Ok [(3, True), (5, False)]"
proof -
  have e: "encode (write_btree_map (\<lambda>x :: u16. Ok (varint_write x)) write_bool)
      (size_btree_map (\<lambda>x. Ok (varint_size x)) size_bool) [(3, True), (5, False)] = Ok [0x02, 0x03, 0x01, 0x05, 0x00]"
    by (simp add: encode_small)
  show ?thesis
    using btree_map_decode_iff [OF varint_u16.codec_axioms bool.codec_axioms,
        of "\<lparr>range_start = Included 0, range_end = Included 9\<rparr>" "[0x02, 0x03, 0x01, 0x05, 0x00]" "[(3, True), (5, False)]"]
    by (simp add: e valid_btree_map_def valid_usize_def range_contains_def)
qed

text \<open>
  C24. B-tree sets: the same for sets; items out of order or repeated are rejected.
\<close>

theorem btree_set_decode_iff:
  assumes "codec wk rk sk vk"
  shows "(decode_cfg (read_btree_set rng rk) bs = Ok s \<longleftrightarrow>
      valid_btree_set rng vk s \<and> encode (write_btree_set wk) (size_btree_set sk) s = Ok bs)
    \<and> decode_cfg (read_btree_set rng rk) bs \<noteq> Panic"
proof -
  have "codec_set wk rk sk vk" using assms by (simp add: codec_set_def)
  note C = codec_set.set_contract [OF this]
  show ?thesis using codec.decode_iff_encode [OF C] codec.decode_no_panic [OF C] by blast
qed

theorem btree_set_decode_iff_witness:
  "decode_cfg (read_btree_set \<lparr>range_start = Included 0, range_end = Included 9\<rparr> (varint_read :: u16 reader))
     [0x02, 0x03, 0x05] = Ok [3, 5]"
proof -
  have e: "encode (write_btree_set (\<lambda>x :: u16. Ok (varint_write x))) (size_btree_set (\<lambda>x. Ok (varint_size x)))
      [3, 5] = Ok [0x02, 0x03, 0x05]" by (simp add: encode_small)
  show ?thesis
    using btree_set_decode_iff [OF varint_u16.codec_axioms,
        of "\<lparr>range_start = Included 0, range_end = Included 9\<rparr>" "[0x02, 0x03, 0x05]" "[3, 5]"]
    by (simp add: e valid_btree_set_def valid_usize_def range_contains_def bs_inv_def)
qed

text \<open>
  C30. Socket addresses, for any accessors of the \<open>bytes\<close> crate that write a number in as many bytes as
  its type has and read it back: writing any socket address, whatever its flow label and scope, and
  reading it gives the address with the same IP and port and a zero flow label and scope; so the
  round trip is the identity exactly on the addresses without them.
\<close>

theorem socket_addr_roundtrip:
  assumes "numeric_io io16" "numeric_io io32" "numeric_io io128"
  shows "\<exists>bs. encode (write_socket_addr io16 io32 io128) (size_socket_addr io16 io32 io128) a = Ok bs
    \<and> decode_cfg (read_socket_addr io16 io32 io128) bs = Ok (socket_new (socket_ip a) (socket_port a))
    \<and> (socket_new (socket_ip a) (socket_port a) = a \<longleftrightarrow> plain_socket a)"
proof -
  have "address_io io16 io32 io128" using assms by (simp add: address_io_def)
  note C = address_io.socket_contract [OF this]
  let ?b = "socket_new (socket_ip a) (socket_port a)"
  have "write_socket_addr io16 io32 io128 a = write_socket_addr io16 io32 io128 ?b"
    "size_socket_addr io16 io32 io128 a = size_socket_addr io16 io32 io128 ?b"
    by (simp_all add: write_socket_addr_def size_socket_addr_def)
  moreover have "?b = a \<longleftrightarrow> plain_socket a" using socket_new_plain socket_new_split(3) by metis
  ultimately show ?thesis using codec.decode_encode [OF C, of ?b] by (simp add: encode_def)
qed

theorem socket_addr_roundtrip_witness:
  "\<exists>bs. encode (write_socket_addr be_numeric be_numeric be_numeric) (size_socket_addr be_numeric be_numeric be_numeric)
      (SockV6 \<lparr>v6_ip = 1, v6_port = 80, v6_flowinfo = 5, v6_scope_id = 2\<rparr>) = Ok bs
    \<and> decode_cfg (read_socket_addr be_numeric be_numeric be_numeric) bs
      = Ok (SockV6 \<lparr>v6_ip = 1, v6_port = 80, v6_flowinfo = 0, v6_scope_id = 0\<rparr>)"
  using socket_addr_roundtrip [OF be_u16.numeric_io_axioms be_u32.numeric_io_axioms be_u128.numeric_io_axioms,
      of "SockV6 \<lparr>v6_ip = 1, v6_port = 80, v6_flowinfo = 5, v6_scope_id = 2\<rparr>"] by auto

end
