(* ===== verification/Consensus_Types.thy ===== *)
theory Consensus_Types
  imports Codec_Net
begin

text \<open>
  The shared types of \<open>consensus/src/types.rs\<close>: epochs and views (each a \<open>u64\<close>, kept as the number it
  wraps), rounds with their lexicographic order, ranges of views, the boundaries of fixed-length
  epochs, and the codecs. \<open>next\<close> panics at \<open>u64::MAX\<close>; the other operations saturate or return an
  option.
\<close>

type_synonym epoch = nat
type_synonym view = nat
type_synonym delta = nat

section \<open>Epochs and views\<close>

definition epoch_next :: "epoch \<Rightarrow> (epoch, 'e) result" where
  "epoch_next e = u64_add e 1"

definition epoch_previous :: "epoch \<Rightarrow> epoch option" where
  "epoch_previous e = (if 1 \<le> e then Some (e - 1) else None)"

definition epoch_saturating_add :: "epoch \<Rightarrow> delta \<Rightarrow> epoch" where
  "epoch_saturating_add e d = min u64_max (e + d)"

definition epoch_checked_sub :: "epoch \<Rightarrow> delta \<Rightarrow> epoch option" where
  "epoch_checked_sub e d = (if d \<le> e then Some (e - d) else None)"

definition epoch_saturating_sub :: "epoch \<Rightarrow> delta \<Rightarrow> epoch" where
  "epoch_saturating_sub e d = e - d"

definition view_next :: "view \<Rightarrow> (view, 'e) result" where
  "view_next v = u64_add v 1"

definition view_previous :: "view \<Rightarrow> view option" where
  "view_previous v = (if 1 \<le> v then Some (v - 1) else None)"

definition view_saturating_add :: "view \<Rightarrow> delta \<Rightarrow> view" where
  "view_saturating_add v d = min u64_max (v + d)"

definition view_saturating_sub :: "view \<Rightarrow> delta \<Rightarrow> view" where
  "view_saturating_sub v d = v - d"

lemma view_next_Ok [simp]: "v < u64_max \<Longrightarrow> view_next v = Ok (v + 1)"
  by (simp add: view_next_def)

lemma view_next_eq_Ok: "view_next v = Ok w \<longleftrightarrow> w = v + 1 \<and> v < u64_max"
  by (auto simp: view_next_def u64_add_def split: if_splits)

text \<open>A range of views: the bounds of the inner \<open>Range<u64>\<close>.\<close>

record view_range =
  vr_start :: view
  vr_end :: view

definition view_range_new :: "view \<Rightarrow> view \<Rightarrow> view_range" where
  "view_range_new start end' = \<lparr>vr_start = start, vr_end = end'\<rparr>"

definition view_range_next :: "view_range \<Rightarrow> view option \<times> view_range" where
  "view_range_next r =
     (if vr_start r < vr_end r then (Some (vr_start r), r\<lparr>vr_start := vr_start r + 1\<rparr>) else (None, r))"

definition view_range_next_back :: "view_range \<Rightarrow> view option \<times> view_range" where
  "view_range_next_back r =
     (if vr_start r < vr_end r then (Some (vr_end r - 1), r\<lparr>vr_end := vr_end r - 1\<rparr>) else (None, r))"

definition view_range_len :: "view_range \<Rightarrow> nat" where
  "view_range_len r = vr_end r - vr_start r"

definition view_range_list :: "view_range \<Rightarrow> view list" where
  "view_range_list r = [vr_start r..<vr_end r]"

section \<open>Rounds\<close>

datatype rnd = Rnd (rnd_epoch: epoch) (rnd_view: view)

definition rnd_zero :: rnd where
  "rnd_zero = Rnd 0 0"

text \<open>The derived order: first by epoch, then by view.\<close>

definition rnd_le :: "rnd \<Rightarrow> rnd \<Rightarrow> bool" where
  "rnd_le a b \<longleftrightarrow> rnd_epoch a < rnd_epoch b \<or> rnd_epoch a = rnd_epoch b \<and> rnd_view a \<le> rnd_view b"

instantiation rnd :: linorder
begin

definition less_eq_rnd :: "rnd \<Rightarrow> rnd \<Rightarrow> bool" where
  "less_eq_rnd = rnd_le"

definition less_rnd :: "rnd \<Rightarrow> rnd \<Rightarrow> bool" where
  "less_rnd a b \<longleftrightarrow> rnd_le a b \<and> \<not> rnd_le b a"

instance
  by standard (auto simp: less_eq_rnd_def less_rnd_def rnd_le_def rnd.expand)

end

section \<open>Epoch boundaries\<close>

datatype epoch_phase = Early | Midpoint | Late

record epoch_info =
  ei_epoch :: epoch
  ei_height :: nat
  ei_first :: nat
  ei_last :: nat

definition epoch_info_length :: "epoch_info \<Rightarrow> (nat, 'e) result" where
  "epoch_info_length i = and_then (u64_sub (ei_last i) (ei_first i)) (\<lambda>d. u64_add d 1)"

definition epoch_info_relative :: "epoch_info \<Rightarrow> (nat, 'e) result" where
  "epoch_info_relative i = u64_sub (ei_height i) (ei_first i)"

definition epoch_info_phase :: "epoch_info \<Rightarrow> (epoch_phase, 'e) result" where
  "epoch_info_phase i =
     and_then (epoch_info_relative i) (\<lambda>relative.
     and_then (epoch_info_length i) (\<lambda>len.
       let midpoint = len div 2
       in Ok (if relative < midpoint then Early else if relative = midpoint then Midpoint else Late)))"

text \<open>\<open>FixedEpocher(length)\<close> with a non-zero length.\<close>

definition epocher_bounds :: "nat \<Rightarrow> epoch \<Rightarrow> (nat \<times> nat) option" where
  "epocher_bounds len epoch =
     (if epoch * len \<le> u64_max then
        let first = epoch * len
        in if first + (len - 1) \<le> u64_max then Some (first, first + (len - 1)) else None
      else None)"

definition epocher_containing :: "nat \<Rightarrow> nat \<Rightarrow> epoch_info option" where
  "epocher_containing len height =
     (let epoch = height div len
      in case epocher_bounds len epoch of
           None \<Rightarrow> None
         | Some (first, last') \<Rightarrow>
             Some \<lparr>ei_epoch = epoch, ei_height = height, ei_first = first, ei_last = last'\<rparr>)"

definition epocher_first :: "nat \<Rightarrow> epoch \<Rightarrow> nat option" where
  "epocher_first len epoch = map_option (\<lambda>(first, _). first) (epocher_bounds len epoch)"

definition epocher_last :: "nat \<Rightarrow> epoch \<Rightarrow> nat option" where
  "epocher_last len epoch = map_option (\<lambda>(_, last'). last') (epocher_bounds len epoch)"

section \<open>Codecs\<close>

text \<open>\<open>UInt(self.0)\<close> of the wrapped \<open>u64\<close>.\<close>

definition write_view :: "view writer" where
  "write_view v = Ok (varint_write (word_of_nat v :: u64))"

definition read_view :: "view reader" where
  "read_view buf = and_then (varint_read buf) (\<lambda>(value :: u64, rest). Ok (unat value, rest))"

definition size_view :: "view sizer" where
  "size_view v = Ok (varint_size (word_of_nat v :: u64))"

definition write_rnd :: "rnd writer" where
  "write_rnd r = and_then (write_view (rnd_epoch r)) (\<lambda>b.
     and_then (write_view (rnd_view r)) (\<lambda>c. Ok (b @ c)))"

definition read_rnd :: "rnd reader" where
  "read_rnd buf = and_then (read_view buf) (\<lambda>(e, buf1).
     and_then (read_view buf1) (\<lambda>(v, buf2). Ok (Rnd e v, buf2)))"

definition size_rnd :: "rnd sizer" where
  "size_rnd r = and_then (size_view (rnd_epoch r)) (\<lambda>m.
     and_then (size_view (rnd_view r)) (\<lambda>n. Ok (m + n)))"

definition valid_rnd :: "rnd \<Rightarrow> bool" where
  "valid_rnd r \<longleftrightarrow> rnd_epoch r \<le> u64_max \<and> rnd_view r \<le> u64_max"

lemma unat_u64: "v \<le> u64_max \<Longrightarrow> unat (word_of_nat v :: u64) = v"
  by (rule unat_of_nat_less) (simp add: u64_max_def)

lemma unat_u64_max: "unat (w :: u64) \<le> u64_max"
proof -
  have "unat w < 2 ^ LENGTH(64)" by (rule unsigned_less)
  then show ?thesis by (simp add: u64_max_def)
qed

lemma varint_read_u64_cases: "varint_read buf = Ok (w :: u64, rest) \<longleftrightarrow> buf = varint_write w @ rest"
  using varint_u64.read_canonical [of buf w rest] varint_u64.read_write [of w _ rest] by auto

lemma view_contract: "codec write_view read_view size_view (\<lambda>v. v \<le> u64_max)"
proof
  show "\<exists>bs. write_view v = Ok bs \<and> size_view v = Ok (length bs)" for v
    using length_varint_write [of "word_of_nat v :: u64"] by (simp add: write_view_def size_view_def)
  show "read_view (bs @ rest) = Ok (v, rest)" if "v \<le> u64_max" "write_view v = Ok bs" for v bs rest
    using that varint_read_u64_cases [of "bs @ rest" "word_of_nat v" rest]
    by (simp add: write_view_def read_view_def unat_u64)
  show "v \<le> u64_max \<and> (\<exists>bs. write_view v = Ok bs \<and> buf = bs @ rest)" if "read_view buf = Ok (v, rest)" for buf v rest
    using that by (auto simp: read_view_def write_view_def result_simps varint_read_u64_cases unat_u64_max)
  show "read_view buf \<noteq> Panic" for buf
    using varint_u64.read_no_panic [of buf] by (auto simp: read_view_def result_simps)
qed

interpretation view: codec write_view read_view size_view "\<lambda>v. v \<le> u64_max"
  by (rule view_contract)

interpretation view_pair: codec_pair write_view read_view size_view "\<lambda>v. v \<le> u64_max"
  write_view read_view size_view "\<lambda>v. v \<le> u64_max" ..

lemma rnd_contract: "codec write_rnd read_rnd size_rnd valid_rnd"
proof
  have w: "write_rnd r = write_pair write_view write_view (rnd_epoch r, rnd_view r)"
    and s: "size_rnd r = size_pair size_view size_view (rnd_epoch r, rnd_view r)" for r
    by (simp_all add: write_rnd_def write_pair_def size_rnd_def size_pair_def)
  have r: "read_rnd buf = and_then (read_pair read_view read_view buf) (\<lambda>((e, v), rest). Ok (Rnd e v, rest))" for buf
  proof (cases "read_view buf")
    case (Ok p)
    then show ?thesis by (cases p; cases "read_view (snd p)") (auto simp: read_rnd_def read_pair_def)
  qed (simp_all add: read_rnd_def read_pair_def)
  show "\<exists>bs. write_rnd x = Ok bs \<and> size_rnd x = Ok (length bs)" if "valid_rnd x" for x
    using view_pair.pair.write_valid [of "(rnd_epoch x, rnd_view x)"] that by (simp add: w s valid_rnd_def)
  show "read_rnd (bs @ rest) = Ok (x, rest)" if "valid_rnd x" "write_rnd x = Ok bs" for x bs rest
    using view_pair.pair.read_write [of "(rnd_epoch x, rnd_view x)" bs rest] that by (simp add: w r valid_rnd_def)
  show "valid_rnd x \<and> (\<exists>bs. write_rnd x = Ok bs \<and> buf = bs @ rest)" if "read_rnd buf = Ok (x, rest)" for buf x rest
    using that view_pair.pair.read_canonical [of buf "(rnd_epoch x, rnd_view x)" rest]
    by (auto simp: w r valid_rnd_def result_simps)
  show "read_rnd buf \<noteq> Panic" for buf
    using view_pair.pair.read_no_panic [of buf] by (auto simp: r result_simps)
qed

interpretation rnd: codec write_rnd read_rnd size_rnd valid_rnd
  by (rule rnd_contract)

section \<open>Ranges and epochs\<close>

lemma view_range_next_list:
  "view_range_list r = (case view_range_next r of (None, _) \<Rightarrow> [] | (Some v, r') \<Rightarrow> v # view_range_list r')"
  by (auto simp: view_range_list_def view_range_next_def upt_rec)

lemma view_range_next_back_list:
  "view_range_list r = (case view_range_next_back r of (None, _) \<Rightarrow> [] | (Some v, r') \<Rightarrow> view_range_list r' @ [v])"
  by (cases "vr_end r") (auto simp: view_range_list_def view_range_next_back_def)

lemma epocher_bounds_Some:
  "0 < len \<Longrightarrow> epocher_bounds len e = Some (a, b) \<longleftrightarrow> a = e * len \<and> b + 1 = (e + 1) * len \<and> b \<le> u64_max"
  by (auto simp: epocher_bounds_def Let_def algebra_simps)

lemma epocher_containing_Some:
  assumes "0 < len" "epocher_containing len h = Some i"
  shows "ei_epoch i = h div len" "ei_height i = h" "ei_first i = h div len * len"
    "ei_last i + 1 = (h div len + 1) * len" "ei_last i \<le> u64_max" "ei_first i \<le> h" "h \<le> ei_last i"
proof -
  obtain a b where ab: "epocher_bounds len (h div len) = Some (a, b)"
    and i: "i = \<lparr>ei_epoch = h div len, ei_height = h, ei_first = a, ei_last = b\<rparr>"
    using assms(2) by (auto simp: epocher_containing_def Let_def split: option.splits)
  note B = ab [unfolded epocher_bounds_Some [OF assms(1)]]
  show "ei_epoch i = h div len" "ei_height i = h" "ei_first i = h div len * len"
    "ei_last i + 1 = (h div len + 1) * len" "ei_last i \<le> u64_max" using B i by auto
  show "ei_first i \<le> h" using B i by simp
  have "h < (h div len + 1) * len"
    using dividend_less_div_times [OF assms(1), of h] by simp
  then show "h \<le> ei_last i" using B i by simp
qed

section \<open>Properties\<close>

text \<open>
  C35. Decoding a round (an epoch and a view) succeeds on exactly the encoding of a round of two \<open>u64\<close>
  values, and never panics.
\<close>

theorem rnd_decode_iff:
  "(decode_cfg read_rnd bs = Ok r \<longleftrightarrow> valid_rnd r \<and> encode write_rnd size_rnd r = Ok bs)
   \<and> decode_cfg read_rnd bs \<noteq> Panic"
  using rnd.decode_iff_encode rnd.decode_no_panic by blast

text \<open>
  C34. For a fixed epoch length, the epoch reported for a height is the one whose first and last
  heights enclose it, those heights agree with \<open>first\<close> and \<open>last\<close> of the epoch, the length and the
  relative position never underflow, and consecutive epochs tile the heights; \<open>containing\<close> fails only
  when the last height of the epoch does not fit a \<open>u64\<close>.
\<close>

theorem epocher_containing_correct:
  assumes "0 < len" "len \<le> u64_max"
  shows "(epocher_containing len h = None \<longleftrightarrow> u64_max < (h div len + 1) * len - 1)
    \<and> (\<forall>i. epocher_containing len h = Some i \<longrightarrow>
        ei_first i \<le> h \<and> h \<le> ei_last i
        \<and> epocher_first len (ei_epoch i) = Some (ei_first i) \<and> epocher_last len (ei_epoch i) = Some (ei_last i)
        \<and> epoch_info_length i = (Ok len :: (nat, unit) result)
        \<and> epoch_info_relative i = (Ok (h mod len) :: (nat, unit) result)
        \<and> (epoch_info_phase i :: (epoch_phase, unit) result) =
            Ok (if h mod len < len div 2 then Early else if h mod len = len div 2 then Midpoint else Late)
        \<and> (\<forall>f. epocher_first len (ei_epoch i + 1) = Some f \<longrightarrow> f = ei_last i + 1))"
proof (intro conjI allI impI)
  have le: "h div len * len \<le> (h div len + 1) * len - 1" using assms(1) by simp
  have "epocher_bounds len (h div len) = None \<longleftrightarrow> u64_max < (h div len + 1) * len - 1"
    using le assms(1) by (auto simp: epocher_bounds_def Let_def algebra_simps)
  then show "epocher_containing len h = None \<longleftrightarrow> u64_max < (h div len + 1) * len - 1"
    by (auto simp: epocher_containing_def Let_def split: option.splits)
next
  fix i assume i: "epocher_containing len h = Some i"
  note I = epocher_containing_Some [OF assms(1) i]
  have b: "epocher_bounds len (ei_epoch i) = Some (ei_first i, ei_last i)"
    using I epocher_bounds_Some [OF assms(1)] by simp
  have "ei_last i + 1 = ei_first i + len" using I(3,4) by (simp add: algebra_simps)
  then have len: "ei_last i - ei_first i + 1 = len" using I(6,7) by simp
  show "ei_first i \<le> h" "h \<le> ei_last i" using I by auto
  show "epocher_first len (ei_epoch i) = Some (ei_first i)" "epocher_last len (ei_epoch i) = Some (ei_last i)"
    using b by (simp_all add: epocher_first_def epocher_last_def)
  show l: "epoch_info_length i = (Ok len :: (nat, unit) result)"
    using I(6,7) len assms(2) by (simp add: epoch_info_length_def)
  show r: "epoch_info_relative i = (Ok (h mod len) :: (nat, unit) result)"
    using I(2,3,6) by (simp add: epoch_info_relative_def minus_div_mult_eq_mod)
  show "(epoch_info_phase i :: (epoch_phase, unit) result) =
      Ok (if h mod len < len div 2 then Early else if h mod len = len div 2 then Midpoint else Late)"
    by (simp add: epoch_info_phase_def l r Let_def)
  show "f = ei_last i + 1" if "epocher_first len (ei_epoch i + 1) = Some f" for f
    using that I epocher_bounds_Some [OF assms(1)] by (auto simp: epocher_first_def)
qed

theorem epocher_containing_correct_witness:
  "epocher_containing 10 25 = Some \<lparr>ei_epoch = 2, ei_height = 25, ei_first = 20, ei_last = 29\<rparr>
   \<and> (epoch_info_phase \<lparr>ei_epoch = 2, ei_height = 25, ei_first = 20, ei_last = 29\<rparr> :: (epoch_phase, unit) result)
     = Ok Midpoint"
proof -
  have c: "epocher_containing 10 25 = Some \<lparr>ei_epoch = 2, ei_height = 25, ei_first = 20, ei_last = 29\<rparr>"
    by (simp add: epocher_containing_def epocher_bounds_def u64_max_def)
  show ?thesis using epocher_containing_correct [of 10 25] c by (simp add: u64_max_def)
qed

end
