(* ===== verification/Simplex_Types.thy ===== *)
theory Simplex_Types
  imports Consensus_Types
begin

text \<open>
  The messages of \<open>consensus/src/simplex/types.rs\<close>: proposals, votes, certificates and journal
  artifacts with their codecs, the map of votes by signer and the vote tracker. The digest, the
  signature and the certificate of the signing scheme are type parameters; their codecs are arguments
  of the codecs below, with the contract \<open>codec\<close> as hypothesis.
\<close>

section \<open>Data\<close>

record 'd proposal =
  prop_round :: rnd
  prop_parent :: view
  payload :: 'd

record 's attestation =
  att_signer :: nat
  att_signature :: 's

record ('d, 's) notarize =
  nz_proposal :: "'d proposal"
  nz_attestation :: "'s attestation"

record 's nullify =
  nl_round :: rnd
  nl_attestation :: "'s attestation"

record ('d, 's) finalize =
  fz_proposal :: "'d proposal"
  fz_attestation :: "'s attestation"

record ('d, 'c) notarization =
  nzn_proposal :: "'d proposal"
  nzn_certificate :: 'c

record 'c nullification =
  nln_round :: rnd
  nln_certificate :: 'c

record ('d, 'c) finalization =
  fzn_proposal :: "'d proposal"
  fzn_certificate :: 'c

datatype ('d, 's) vote =
    VNotarize "('d, 's) notarize"
  | VNullify "'s nullify"
  | VFinalize "('d, 's) finalize"

datatype ('d, 'c) certificate =
    CNotarization "('d, 'c) notarization"
  | CNullification "'c nullification"
  | CFinalization "('d, 'c) finalization"

datatype ('d, 's, 'c) artifact =
    ANotarize "('d, 's) notarize"
  | ANotarization "('d, 'c) notarization"
  | ACertification rnd bool
  | ANullify "'s nullify"
  | ANullification "'c nullification"
  | AFinalize "('d, 's) finalize"
  | AFinalization "('d, 'c) finalization"

datatype 'd subject =
    SNotarize "'d proposal"
  | SNullify rnd
  | SFinalize "'d proposal"

record ('d, 'k) block_context =
  ctx_round :: rnd
  ctx_leader :: 'k
  ctx_parent :: "view \<times> 'd"

section \<open>Views\<close>

definition proposal_view :: "'d proposal \<Rightarrow> view" where
  "proposal_view p = rnd_view (prop_round p)"

fun subject_view :: "'d subject \<Rightarrow> view" where
  "subject_view (SNotarize p) = proposal_view p"
| "subject_view (SNullify r) = rnd_view r"
| "subject_view (SFinalize p) = proposal_view p"

fun vote_view :: "('d, 's) vote \<Rightarrow> view" where
  "vote_view (VNotarize v) = proposal_view (nz_proposal v)"
| "vote_view (VNullify v) = rnd_view (nl_round v)"
| "vote_view (VFinalize v) = proposal_view (fz_proposal v)"

fun certificate_view :: "('d, 'c) certificate \<Rightarrow> view" where
  "certificate_view (CNotarization v) = proposal_view (nzn_proposal v)"
| "certificate_view (CNullification v) = rnd_view (nln_round v)"
| "certificate_view (CFinalization v) = proposal_view (fzn_proposal v)"

fun artifact_view :: "('d, 's, 'c) artifact \<Rightarrow> view" where
  "artifact_view (ANotarize v) = proposal_view (nz_proposal v)"
| "artifact_view (ANotarization v) = proposal_view (nzn_proposal v)"
| "artifact_view (ACertification r _) = rnd_view r"
| "artifact_view (ANullify v) = rnd_view (nl_round v)"
| "artifact_view (ANullification v) = rnd_view (nln_round v)"
| "artifact_view (AFinalize v) = proposal_view (fz_proposal v)"
| "artifact_view (AFinalization v) = proposal_view (fzn_proposal v)"

fun artifact_of_vote :: "('d, 's) vote \<Rightarrow> ('d, 's, 'c) artifact" where
  "artifact_of_vote (VNotarize v) = ANotarize v"
| "artifact_of_vote (VNullify v) = ANullify v"
| "artifact_of_vote (VFinalize v) = AFinalize v"

fun artifact_of_certificate :: "('d, 'c) certificate \<Rightarrow> ('d, 's, 'c) artifact" where
  "artifact_of_certificate (CNotarization v) = ANotarization v"
| "artifact_of_certificate (CNullification v) = ANullification v"
| "artifact_of_certificate (CFinalization v) = AFinalization v"

section \<open>Votes by signer\<close>

text \<open>\<open>AttributableMap\<close>: one slot per participant. The signer of an item is an argument.\<close>

record 'a attributable_map =
  am_data :: "'a option list"
  am_added :: nat

definition am_new :: "nat \<Rightarrow> 'a attributable_map" where
  "am_new participants = \<lparr>am_data = replicate participants None, am_added = 0\<rparr>"

definition am_clear :: "'a attributable_map \<Rightarrow> 'a attributable_map" where
  "am_clear m = m\<lparr>am_data := replicate (length (am_data m)) None, am_added := 0\<rparr>"

definition am_insert :: "('a \<Rightarrow> nat) \<Rightarrow> 'a \<Rightarrow> 'a attributable_map \<Rightarrow> bool \<times> 'a attributable_map" where
  "am_insert signer item m =
     (let index = signer item in
      if index \<ge> length (am_data m) then (False, m)
      else if am_data m ! index \<noteq> None then (False, m)
      else (True, m\<lparr>am_data := (am_data m)[index := Some item], am_added := am_added m + 1\<rparr>))"

definition am_len :: "'a attributable_map \<Rightarrow> nat" where
  "am_len m = am_added m"

definition am_get :: "'a attributable_map \<Rightarrow> nat \<Rightarrow> 'a option" where
  "am_get m signer = (if signer < length (am_data m) then am_data m ! signer else None)"

definition am_iter :: "'a attributable_map \<Rightarrow> 'a list" where
  "am_iter m = List.map_filter id (am_data m)"

record ('d, 's) vote_tracker =
  vt_notarizes :: "('d, 's) notarize attributable_map"
  vt_nullifies :: "'s nullify attributable_map"
  vt_finalizes :: "('d, 's) finalize attributable_map"

definition notarize_signer :: "('d, 's) notarize \<Rightarrow> nat" where
  "notarize_signer v = att_signer (nz_attestation v)"

definition nullify_signer :: "'s nullify \<Rightarrow> nat" where
  "nullify_signer v = att_signer (nl_attestation v)"

definition finalize_signer :: "('d, 's) finalize \<Rightarrow> nat" where
  "finalize_signer v = att_signer (fz_attestation v)"

definition vt_new :: "nat \<Rightarrow> ('d, 's) vote_tracker" where
  "vt_new participants =
     \<lparr>vt_notarizes = am_new participants, vt_nullifies = am_new participants, vt_finalizes = am_new participants\<rparr>"

definition vt_insert_notarize :: "('d, 's) notarize \<Rightarrow> ('d, 's) vote_tracker \<Rightarrow> bool \<times> ('d, 's) vote_tracker" where
  "vt_insert_notarize v t = (let (b, m) = am_insert notarize_signer v (vt_notarizes t) in (b, t\<lparr>vt_notarizes := m\<rparr>))"

definition vt_insert_nullify :: "'s nullify \<Rightarrow> ('d, 's) vote_tracker \<Rightarrow> bool \<times> ('d, 's) vote_tracker" where
  "vt_insert_nullify v t = (let (b, m) = am_insert nullify_signer v (vt_nullifies t) in (b, t\<lparr>vt_nullifies := m\<rparr>))"

definition vt_insert_finalize :: "('d, 's) finalize \<Rightarrow> ('d, 's) vote_tracker \<Rightarrow> bool \<times> ('d, 's) vote_tracker" where
  "vt_insert_finalize v t = (let (b, m) = am_insert finalize_signer v (vt_finalizes t) in (b, t\<lparr>vt_finalizes := m\<rparr>))"

definition vt_clear_notarizes :: "('d, 's) vote_tracker \<Rightarrow> ('d, 's) vote_tracker" where
  "vt_clear_notarizes t = t\<lparr>vt_notarizes := am_clear (vt_notarizes t)\<rparr>"

definition vt_clear_finalizes :: "('d, 's) vote_tracker \<Rightarrow> ('d, 's) vote_tracker" where
  "vt_clear_finalizes t = t\<lparr>vt_finalizes := am_clear (vt_finalizes t)\<rparr>"

definition vt_has_notarize :: "('d, 's) vote_tracker \<Rightarrow> nat \<Rightarrow> bool" where
  "vt_has_notarize t signer \<longleftrightarrow> am_get (vt_notarizes t) signer \<noteq> None"

definition vt_has_nullify :: "('d, 's) vote_tracker \<Rightarrow> nat \<Rightarrow> bool" where
  "vt_has_nullify t signer \<longleftrightarrow> am_get (vt_nullifies t) signer \<noteq> None"

definition vt_has_finalize :: "('d, 's) vote_tracker \<Rightarrow> nat \<Rightarrow> bool" where
  "vt_has_finalize t signer \<longleftrightarrow> am_get (vt_finalizes t) signer \<noteq> None"

section \<open>Codecs\<close>

definition write_signer :: "nat writer" where
  "write_signer n = Ok (varint_write (word_of_nat n :: u32))"

definition read_signer :: "nat reader" where
  "read_signer buf = and_then (varint_read buf) (\<lambda>(value :: u32, rest). Ok (unat value, rest))"

definition size_signer :: "nat sizer" where
  "size_signer n = Ok (varint_size (word_of_nat n :: u32))"

definition write_attestation :: "'s writer \<Rightarrow> 's attestation writer" where
  "write_attestation ws x = and_then (write_signer (att_signer x)) (\<lambda>b.
     and_then (ws (att_signature x)) (\<lambda>c. Ok (b @ c)))"

definition read_attestation :: "'s reader \<Rightarrow> 's attestation reader" where
  "read_attestation rs buf = and_then (read_signer buf) (\<lambda>(signer, buf1).
     and_then (rs buf1) (\<lambda>(signature, buf2). Ok (\<lparr>att_signer = signer, att_signature = signature\<rparr>, buf2)))"

definition size_attestation :: "'s sizer \<Rightarrow> 's attestation sizer" where
  "size_attestation ss x = and_then (size_signer (att_signer x)) (\<lambda>m.
     and_then (ss (att_signature x)) (\<lambda>n. Ok (m + n)))"

definition write_proposal :: "'d writer \<Rightarrow> 'd proposal writer" where
  "write_proposal wd x = and_then (write_rnd (prop_round x)) (\<lambda>b.
     and_then (write_view (prop_parent x)) (\<lambda>c.
     and_then (wd (payload x)) (\<lambda>d. Ok (b @ c @ d))))"

definition read_proposal :: "'d reader \<Rightarrow> 'd proposal reader" where
  "read_proposal rd buf = and_then (read_rnd buf) (\<lambda>(r, buf1).
     and_then (read_view buf1) (\<lambda>(p, buf2).
     and_then (rd buf2) (\<lambda>(d, buf3). Ok (\<lparr>prop_round = r, prop_parent = p, payload = d\<rparr>, buf3))))"

definition size_proposal :: "'d sizer \<Rightarrow> 'd proposal sizer" where
  "size_proposal sd x = and_then (size_rnd (prop_round x)) (\<lambda>l.
     and_then (size_view (prop_parent x)) (\<lambda>m.
     and_then (sd (payload x)) (\<lambda>n. Ok (l + m + n))))"

definition write_notarize :: "'d writer \<Rightarrow> 's writer \<Rightarrow> ('d, 's) notarize writer" where
  "write_notarize wd ws x = and_then (write_proposal wd (nz_proposal x)) (\<lambda>b.
     and_then (write_attestation ws (nz_attestation x)) (\<lambda>c. Ok (b @ c)))"

definition read_notarize :: "'d reader \<Rightarrow> 's reader \<Rightarrow> ('d, 's) notarize reader" where
  "read_notarize rd rs buf = and_then (read_proposal rd buf) (\<lambda>(p, buf1).
     and_then (read_attestation rs buf1) (\<lambda>(a, buf2). Ok (\<lparr>nz_proposal = p, nz_attestation = a\<rparr>, buf2)))"

definition size_notarize :: "'d sizer \<Rightarrow> 's sizer \<Rightarrow> ('d, 's) notarize sizer" where
  "size_notarize sd ss x = and_then (size_proposal sd (nz_proposal x)) (\<lambda>m.
     and_then (size_attestation ss (nz_attestation x)) (\<lambda>n. Ok (m + n)))"

definition write_nullify :: "'s writer \<Rightarrow> 's nullify writer" where
  "write_nullify ws x = and_then (write_rnd (nl_round x)) (\<lambda>b.
     and_then (write_attestation ws (nl_attestation x)) (\<lambda>c. Ok (b @ c)))"

definition read_nullify :: "'s reader \<Rightarrow> 's nullify reader" where
  "read_nullify rs buf = and_then (read_rnd buf) (\<lambda>(r, buf1).
     and_then (read_attestation rs buf1) (\<lambda>(a, buf2). Ok (\<lparr>nl_round = r, nl_attestation = a\<rparr>, buf2)))"

definition size_nullify :: "'s sizer \<Rightarrow> 's nullify sizer" where
  "size_nullify ss x = and_then (size_rnd (nl_round x)) (\<lambda>m.
     and_then (size_attestation ss (nl_attestation x)) (\<lambda>n. Ok (m + n)))"

definition write_finalize :: "'d writer \<Rightarrow> 's writer \<Rightarrow> ('d, 's) finalize writer" where
  "write_finalize wd ws x = and_then (write_proposal wd (fz_proposal x)) (\<lambda>b.
     and_then (write_attestation ws (fz_attestation x)) (\<lambda>c. Ok (b @ c)))"

definition read_finalize :: "'d reader \<Rightarrow> 's reader \<Rightarrow> ('d, 's) finalize reader" where
  "read_finalize rd rs buf = and_then (read_proposal rd buf) (\<lambda>(p, buf1).
     and_then (read_attestation rs buf1) (\<lambda>(a, buf2). Ok (\<lparr>fz_proposal = p, fz_attestation = a\<rparr>, buf2)))"

definition size_finalize :: "'d sizer \<Rightarrow> 's sizer \<Rightarrow> ('d, 's) finalize sizer" where
  "size_finalize sd ss x = and_then (size_proposal sd (fz_proposal x)) (\<lambda>m.
     and_then (size_attestation ss (fz_attestation x)) (\<lambda>n. Ok (m + n)))"

definition write_notarization :: "'d writer \<Rightarrow> 'c writer \<Rightarrow> ('d, 'c) notarization writer" where
  "write_notarization wd wc x = and_then (write_proposal wd (nzn_proposal x)) (\<lambda>b.
     and_then (wc (nzn_certificate x)) (\<lambda>c. Ok (b @ c)))"

definition read_notarization :: "'d reader \<Rightarrow> 'c reader \<Rightarrow> ('d, 'c) notarization reader" where
  "read_notarization rd rc buf = and_then (read_proposal rd buf) (\<lambda>(p, buf1).
     and_then (rc buf1) (\<lambda>(c, buf2). Ok (\<lparr>nzn_proposal = p, nzn_certificate = c\<rparr>, buf2)))"

definition size_notarization :: "'d sizer \<Rightarrow> 'c sizer \<Rightarrow> ('d, 'c) notarization sizer" where
  "size_notarization sd sc x = and_then (size_proposal sd (nzn_proposal x)) (\<lambda>m.
     and_then (sc (nzn_certificate x)) (\<lambda>n. Ok (m + n)))"

definition write_nullification :: "'c writer \<Rightarrow> 'c nullification writer" where
  "write_nullification wc x = and_then (write_rnd (nln_round x)) (\<lambda>b.
     and_then (wc (nln_certificate x)) (\<lambda>c. Ok (b @ c)))"

definition read_nullification :: "'c reader \<Rightarrow> 'c nullification reader" where
  "read_nullification rc buf = and_then (read_rnd buf) (\<lambda>(r, buf1).
     and_then (rc buf1) (\<lambda>(c, buf2). Ok (\<lparr>nln_round = r, nln_certificate = c\<rparr>, buf2)))"

definition size_nullification :: "'c sizer \<Rightarrow> 'c nullification sizer" where
  "size_nullification sc x = and_then (size_rnd (nln_round x)) (\<lambda>m.
     and_then (sc (nln_certificate x)) (\<lambda>n. Ok (m + n)))"

definition write_finalization :: "'d writer \<Rightarrow> 'c writer \<Rightarrow> ('d, 'c) finalization writer" where
  "write_finalization wd wc x = and_then (write_proposal wd (fzn_proposal x)) (\<lambda>b.
     and_then (wc (fzn_certificate x)) (\<lambda>c. Ok (b @ c)))"

definition read_finalization :: "'d reader \<Rightarrow> 'c reader \<Rightarrow> ('d, 'c) finalization reader" where
  "read_finalization rd rc buf = and_then (read_proposal rd buf) (\<lambda>(p, buf1).
     and_then (rc buf1) (\<lambda>(c, buf2). Ok (\<lparr>fzn_proposal = p, fzn_certificate = c\<rparr>, buf2)))"

definition size_finalization :: "'d sizer \<Rightarrow> 'c sizer \<Rightarrow> ('d, 'c) finalization sizer" where
  "size_finalization sd sc x = and_then (size_proposal sd (fzn_proposal x)) (\<lambda>m.
     and_then (sc (fzn_certificate x)) (\<lambda>n. Ok (m + n)))"

fun write_vote :: "'d writer \<Rightarrow> 's writer \<Rightarrow> ('d, 's) vote writer" where
  "write_vote wd ws (VNotarize v) = and_then (write_notarize wd ws v) (\<lambda>b. Ok (0 # b))"
| "write_vote wd ws (VNullify v) = and_then (write_nullify ws v) (\<lambda>b. Ok (1 # b))"
| "write_vote wd ws (VFinalize v) = and_then (write_finalize wd ws v) (\<lambda>b. Ok (2 # b))"

fun size_vote :: "'d sizer \<Rightarrow> 's sizer \<Rightarrow> ('d, 's) vote sizer" where
  "size_vote sd ss (VNotarize v) = and_then (size_notarize sd ss v) (\<lambda>n. Ok (1 + n))"
| "size_vote sd ss (VNullify v) = and_then (size_nullify ss v) (\<lambda>n. Ok (1 + n))"
| "size_vote sd ss (VFinalize v) = and_then (size_finalize sd ss v) (\<lambda>n. Ok (1 + n))"

definition read_vote :: "'d reader \<Rightarrow> 's reader \<Rightarrow> ('d, 's) vote reader" where
  "read_vote rd rs buf = and_then (read_u8 buf) (\<lambda>(tag, buf1).
     if tag = 0 then and_then (read_notarize rd rs buf1) (\<lambda>(v, buf2). Ok (VNotarize v, buf2))
     else if tag = 1 then and_then (read_nullify rs buf1) (\<lambda>(v, buf2). Ok (VNullify v, buf2))
     else if tag = 2 then and_then (read_finalize rd rs buf1) (\<lambda>(v, buf2). Ok (VFinalize v, buf2))
     else Err (Invalid ''consensus::simplex::Vote'' ''Invalid type''))"

fun write_certificate :: "'d writer \<Rightarrow> 'c writer \<Rightarrow> ('d, 'c) certificate writer" where
  "write_certificate wd wc (CNotarization v) = and_then (write_notarization wd wc v) (\<lambda>b. Ok (0 # b))"
| "write_certificate wd wc (CNullification v) = and_then (write_nullification wc v) (\<lambda>b. Ok (1 # b))"
| "write_certificate wd wc (CFinalization v) = and_then (write_finalization wd wc v) (\<lambda>b. Ok (2 # b))"

fun size_certificate :: "'d sizer \<Rightarrow> 'c sizer \<Rightarrow> ('d, 'c) certificate sizer" where
  "size_certificate sd sc (CNotarization v) = and_then (size_notarization sd sc v) (\<lambda>n. Ok (1 + n))"
| "size_certificate sd sc (CNullification v) = and_then (size_nullification sc v) (\<lambda>n. Ok (1 + n))"
| "size_certificate sd sc (CFinalization v) = and_then (size_finalization sd sc v) (\<lambda>n. Ok (1 + n))"

definition read_certificate :: "'d reader \<Rightarrow> 'c reader \<Rightarrow> ('d, 'c) certificate reader" where
  "read_certificate rd rc buf = and_then (read_u8 buf) (\<lambda>(tag, buf1).
     if tag = 0 then and_then (read_notarization rd rc buf1) (\<lambda>(v, buf2). Ok (CNotarization v, buf2))
     else if tag = 1 then and_then (read_nullification rc buf1) (\<lambda>(v, buf2). Ok (CNullification v, buf2))
     else if tag = 2 then and_then (read_finalization rd rc buf1) (\<lambda>(v, buf2). Ok (CFinalization v, buf2))
     else Err (Invalid ''consensus::simplex::Certificate'' ''Invalid type''))"

fun write_artifact :: "'d writer \<Rightarrow> 's writer \<Rightarrow> 'c writer \<Rightarrow> ('d, 's, 'c) artifact writer" where
  "write_artifact wd ws wc (ANotarize v) = and_then (write_notarize wd ws v) (\<lambda>b. Ok (0 # b))"
| "write_artifact wd ws wc (ANotarization v) = and_then (write_notarization wd wc v) (\<lambda>b. Ok (1 # b))"
| "write_artifact wd ws wc (ACertification r b) = and_then (write_rnd r) (\<lambda>c.
     and_then (write_bool b) (\<lambda>d. Ok (2 # c @ d)))"
| "write_artifact wd ws wc (ANullify v) = and_then (write_nullify ws v) (\<lambda>b. Ok (3 # b))"
| "write_artifact wd ws wc (ANullification v) = and_then (write_nullification wc v) (\<lambda>b. Ok (4 # b))"
| "write_artifact wd ws wc (AFinalize v) = and_then (write_finalize wd ws v) (\<lambda>b. Ok (5 # b))"
| "write_artifact wd ws wc (AFinalization v) = and_then (write_finalization wd wc v) (\<lambda>b. Ok (6 # b))"

fun size_artifact :: "'d sizer \<Rightarrow> 's sizer \<Rightarrow> 'c sizer \<Rightarrow> ('d, 's, 'c) artifact sizer" where
  "size_artifact sd ss sc (ANotarize v) = and_then (size_notarize sd ss v) (\<lambda>n. Ok (1 + n))"
| "size_artifact sd ss sc (ANotarization v) = and_then (size_notarization sd sc v) (\<lambda>n. Ok (1 + n))"
| "size_artifact sd ss sc (ACertification r b) = and_then (size_rnd r) (\<lambda>m.
     and_then (size_bool b) (\<lambda>n. Ok (1 + (m + n))))"
| "size_artifact sd ss sc (ANullify v) = and_then (size_nullify ss v) (\<lambda>n. Ok (1 + n))"
| "size_artifact sd ss sc (ANullification v) = and_then (size_nullification sc v) (\<lambda>n. Ok (1 + n))"
| "size_artifact sd ss sc (AFinalize v) = and_then (size_finalize sd ss v) (\<lambda>n. Ok (1 + n))"
| "size_artifact sd ss sc (AFinalization v) = and_then (size_finalization sd sc v) (\<lambda>n. Ok (1 + n))"

definition read_artifact :: "'d reader \<Rightarrow> 's reader \<Rightarrow> 'c reader \<Rightarrow> ('d, 's, 'c) artifact reader" where
  "read_artifact rd rs rc buf = and_then (read_u8 buf) (\<lambda>(tag, buf1).
     if tag = 0 then and_then (read_notarize rd rs buf1) (\<lambda>(v, buf2). Ok (ANotarize v, buf2))
     else if tag = 1 then and_then (read_notarization rd rc buf1) (\<lambda>(v, buf2). Ok (ANotarization v, buf2))
     else if tag = 2 then and_then (read_rnd buf1) (\<lambda>(r, buf2).
       and_then (read_bool buf2) (\<lambda>(b, buf3). Ok (ACertification r b, buf3)))
     else if tag = 3 then and_then (read_nullify rs buf1) (\<lambda>(v, buf2). Ok (ANullify v, buf2))
     else if tag = 4 then and_then (read_nullification rc buf1) (\<lambda>(v, buf2). Ok (ANullification v, buf2))
     else if tag = 5 then and_then (read_finalize rd rs buf1) (\<lambda>(v, buf2). Ok (AFinalize v, buf2))
     else if tag = 6 then and_then (read_finalization rd rc buf1) (\<lambda>(v, buf2). Ok (AFinalization v, buf2))
     else Err (Invalid ''consensus::simplex::Artifact'' ''Invalid type''))"

text \<open>The values the encodings are made for.\<close>

definition valid_attestation :: "('s \<Rightarrow> bool) \<Rightarrow> 's attestation \<Rightarrow> bool" where
  "valid_attestation vs x \<longleftrightarrow> att_signer x < 2 ^ 32 \<and> vs (att_signature x)"

definition valid_proposal :: "('d \<Rightarrow> bool) \<Rightarrow> 'd proposal \<Rightarrow> bool" where
  "valid_proposal vd x \<longleftrightarrow> valid_rnd (prop_round x) \<and> prop_parent x \<le> u64_max \<and> vd (payload x)"

fun valid_vote :: "('d \<Rightarrow> bool) \<Rightarrow> ('s \<Rightarrow> bool) \<Rightarrow> ('d, 's) vote \<Rightarrow> bool" where
  "valid_vote vd vs (VNotarize v) \<longleftrightarrow> valid_proposal vd (nz_proposal v) \<and> valid_attestation vs (nz_attestation v)"
| "valid_vote vd vs (VNullify v) \<longleftrightarrow> valid_rnd (nl_round v) \<and> valid_attestation vs (nl_attestation v)"
| "valid_vote vd vs (VFinalize v) \<longleftrightarrow> valid_proposal vd (fz_proposal v) \<and> valid_attestation vs (fz_attestation v)"

fun valid_certificate :: "('d \<Rightarrow> bool) \<Rightarrow> ('c \<Rightarrow> bool) \<Rightarrow> ('d, 'c) certificate \<Rightarrow> bool" where
  "valid_certificate vd vc (CNotarization v) \<longleftrightarrow> valid_proposal vd (nzn_proposal v) \<and> vc (nzn_certificate v)"
| "valid_certificate vd vc (CNullification v) \<longleftrightarrow> valid_rnd (nln_round v) \<and> vc (nln_certificate v)"
| "valid_certificate vd vc (CFinalization v) \<longleftrightarrow> valid_proposal vd (fzn_proposal v) \<and> vc (fzn_certificate v)"

fun valid_artifact :: "('d \<Rightarrow> bool) \<Rightarrow> ('s \<Rightarrow> bool) \<Rightarrow> ('c \<Rightarrow> bool) \<Rightarrow> ('d, 's, 'c) artifact \<Rightarrow> bool" where
  "valid_artifact vd vs vc (ANotarize v) \<longleftrightarrow> valid_vote vd vs (VNotarize v)"
| "valid_artifact vd vs vc (ANotarization v) \<longleftrightarrow> valid_certificate vd vc (CNotarization v)"
| "valid_artifact vd vs vc (ACertification r b) \<longleftrightarrow> valid_rnd r"
| "valid_artifact vd vs vc (ANullify v) \<longleftrightarrow> valid_vote vd vs (VNullify v)"
| "valid_artifact vd vs vc (ANullification v) \<longleftrightarrow> valid_certificate vd vc (CNullification v)"
| "valid_artifact vd vs vc (AFinalize v) \<longleftrightarrow> valid_vote vd vs (VFinalize v)"
| "valid_artifact vd vs vc (AFinalization v) \<longleftrightarrow> valid_certificate vd vc (CFinalization v)"

section \<open>Contracts of records\<close>

lemma and_then_pair:
  "and_then (read_pair ra rb buf) (\<lambda>(p, rest). Ok (case_prod mk p, rest)) =
   and_then (ra buf) (\<lambda>(x, buf1). and_then (rb buf1) (\<lambda>(y, buf2). Ok (mk x y, buf2)))"
proof (cases "ra buf")
  case (Ok p)
  then show ?thesis by (cases p; cases "rb (snd p)") (auto simp: read_pair_def)
qed (simp_all add: read_pair_def)

text \<open>A type that is in bijection with a type with a codec.\<close>

lemma codec_iso:
  assumes "codec w r s v" and inv: "\<And>x. g (f x) = x" "\<And>y. f (g y) = y"
  shows "codec (\<lambda>x. w (f x)) (\<lambda>buf. and_then (r buf) (\<lambda>(y, rest). Ok (g y, rest))) (\<lambda>x. s (f x)) (\<lambda>x. v (f x))"
proof
  fix x bs rest buf
  show "v (f x) \<Longrightarrow> \<exists>bs. w (f x) = Ok bs \<and> s (f x) = Ok (length bs)"
    using codec.write_valid [OF assms(1)] by blast
  show "v (f x) \<Longrightarrow> w (f x) = Ok bs \<Longrightarrow> and_then (r (bs @ rest)) (\<lambda>(y, rest). Ok (g y, rest)) = Ok (x, rest)"
    using codec.read_write [OF assms(1)] inv by simp
  show "and_then (r buf) (\<lambda>(y, rest). Ok (g y, rest)) = Ok (x, rest) \<Longrightarrow>
      v (f x) \<and> (\<exists>bs. w (f x) = Ok bs \<and> buf = bs @ rest)"
    using codec.read_canonical [OF assms(1), of buf "f x" rest] inv by (auto simp: result_simps)
  show "and_then (r buf) (\<lambda>(y, rest). Ok (g y, rest)) \<noteq> Panic"
    using codec.read_no_panic [OF assms(1)] by (auto simp: result_simps)
qed

lemma codec_pair_contract:
  assumes "codec wa ra sa va" "codec wb rb sb vb"
  shows "codec (write_pair wa wb) (read_pair ra rb) (size_pair sa sb) (\<lambda>(x, y). va x \<and> vb y)"
  using codec_pair.pair_contract codec_pair_def assms by blast

text \<open>A record of two fields, written in order.\<close>

lemma codec_record:
  assumes c: "codec wa ra sa va" "codec wb rb sb vb"
    and inv: "\<And>x. mk (fa x) (fb x) = x" "\<And>a b. fa (mk a b) = a" "\<And>a b. fb (mk a b) = b"
  shows "codec (\<lambda>x. and_then (wa (fa x)) (\<lambda>b. and_then (wb (fb x)) (\<lambda>c. Ok (b @ c))))
    (\<lambda>buf. and_then (ra buf) (\<lambda>(x, buf1). and_then (rb buf1) (\<lambda>(y, buf2). Ok (mk x y, buf2))))
    (\<lambda>x. and_then (sa (fa x)) (\<lambda>m. and_then (sb (fb x)) (\<lambda>n. Ok (m + n))))
    (\<lambda>x. va (fa x) \<and> vb (fb x))"
proof -
  have "(fa (case_prod mk y), fb (case_prod mk y)) = y" for y by (cases y) (simp add: inv)
  then show ?thesis using codec_iso [OF codec_pair_contract [OF c], of "case_prod mk" "\<lambda>x. (fa x, fb x)"] inv
    by (simp add: and_then_pair write_pair_def size_pair_def)
qed


lemma unat_u32: "n < 2 ^ 32 \<Longrightarrow> unat (word_of_nat n :: u32) = n"
  by (rule unat_of_nat_less) simp

lemma signer_contract: "codec write_signer read_signer size_signer (\<lambda>n. n < 2 ^ 32)"
proof
  show "\<exists>bs. write_signer n = Ok bs \<and> size_signer n = Ok (length bs)" for n
    using length_varint_write [of "word_of_nat n :: u32"] by (simp add: write_signer_def size_signer_def)
  show "read_signer (bs @ rest) = Ok (n, rest)" if "n < 2 ^ 32" "write_signer n = Ok bs" for n bs rest
    using that varint_u32.read_write [of "word_of_nat n" bs rest] unat_u32 [of n]
    by (simp add: write_signer_def read_signer_def)
  show "n < 2 ^ 32 \<and> (\<exists>bs. write_signer n = Ok bs \<and> buf = bs @ rest)" if r: "read_signer buf = Ok (n, rest)" for buf n rest
  proof -
    obtain w :: u32 where w: "varint_read buf = Ok (w, rest)" "n = unat w"
      using r by (auto simp: read_signer_def result_simps)
    have "unat w < 2 ^ LENGTH(32)" by (rule unsigned_less)
    then show ?thesis using varint_u32.read_canonical [OF w(1)] w(2) by (auto simp: write_signer_def)
  qed
  show "read_signer buf \<noteq> Panic" for buf
    using varint_u32.read_no_panic [of buf] by (auto simp: read_signer_def result_simps)
qed

text \<open>The messages of a scheme whose digest, signature and certificate codecs keep the contract.\<close>

locale simplex_codec = d: codec wd rd sd vd + s: codec ws rs ss vs + c: codec wc rc sc vc
  for wd :: "'d writer" and rd sd vd and ws :: "'s writer" and rs ss vs and wc :: "'c writer" and rc sc vc
begin

lemma attestation_contract:
  "codec (write_attestation ws) (read_attestation rs) (size_attestation ss) (valid_attestation vs)"
  using codec_record [OF signer_contract s.codec_axioms, of "\<lambda>a b. \<lparr>att_signer = a, att_signature = b\<rparr>" att_signer att_signature]
  by (simp add: write_attestation_def [abs_def] read_attestation_def [abs_def] size_attestation_def [abs_def]
      valid_attestation_def [abs_def])

lemma proposal_contract: "codec (write_proposal wd) (read_proposal rd) (size_proposal sd) (valid_proposal vd)"
proof -
  let ?mk = "\<lambda>r q. \<lparr>prop_round = r, prop_parent = fst q, payload = snd q\<rparr>"
  have "codec (\<lambda>x. and_then (write_rnd (prop_round x)) (\<lambda>b.
        and_then (write_pair write_view wd (prop_parent x, payload x)) (\<lambda>c. Ok (b @ c))))
      (\<lambda>buf. and_then (read_rnd buf) (\<lambda>(x, buf1). and_then (read_pair read_view rd buf1) (\<lambda>(y, buf2). Ok (?mk x y, buf2))))
      (\<lambda>x. and_then (size_rnd (prop_round x)) (\<lambda>m. and_then (size_pair size_view sd (prop_parent x, payload x)) (\<lambda>n. Ok (m + n))))
      (\<lambda>x. valid_rnd (prop_round x) \<and> (case (prop_parent x, payload x) of (p, d) \<Rightarrow> p \<le> u64_max \<and> vd d))"
    by (rule codec_record [OF rnd_contract codec_pair_contract [OF view_contract d.codec_axioms]]) simp_all
  moreover have "write_proposal wd = (\<lambda>x. and_then (write_rnd (prop_round x)) (\<lambda>b.
        and_then (write_pair write_view wd (prop_parent x, payload x)) (\<lambda>c. Ok (b @ c))))" (is "_ = ?w")
  proof
    show "write_proposal wd x = ?w x" for x
      by (cases "write_rnd (prop_round x)"; cases "wd (payload x)"; simp add: write_proposal_def write_pair_def write_view_def)
  qed
  moreover have "size_proposal sd = (\<lambda>x. and_then (size_rnd (prop_round x)) (\<lambda>m.
        and_then (size_pair size_view sd (prop_parent x, payload x)) (\<lambda>n. Ok (m + n))))" (is "_ = ?z")
  proof
    show "size_proposal sd x = ?z x" for x
      by (cases "size_rnd (prop_round x)"; cases "sd (payload x)"; simp add: size_proposal_def size_pair_def size_view_def)
  qed
  moreover have "read_proposal rd = (\<lambda>buf.
      and_then (read_rnd buf) (\<lambda>(x, buf1). and_then (read_pair read_view rd buf1) (\<lambda>(y, buf2). Ok (?mk x y, buf2))))"
  proof -
    have "and_then (read_pair read_view rd buf1) (\<lambda>(y, buf2). Ok (?mk x y, buf2)) =
        and_then (read_view buf1) (\<lambda>(p, buf2). and_then (rd buf2) (\<lambda>(d, buf3). Ok (\<lparr>prop_round = x, prop_parent = p, payload = d\<rparr>, buf3)))" for x buf1
      using and_then_pair [of read_view rd buf1 "\<lambda>p d. \<lparr>prop_round = x, prop_parent = p, payload = d\<rparr>"]
      by (simp add: case_prod_beta')
    then show ?thesis by (simp add: read_proposal_def [abs_def])
  qed
  ultimately show ?thesis by (simp add: valid_proposal_def [abs_def])
qed

lemma notarize_contract: "codec (write_notarize wd ws) (read_notarize rd rs) (size_notarize sd ss)
    (\<lambda>v. valid_proposal vd (nz_proposal v) \<and> valid_attestation vs (nz_attestation v))"
  using codec_record [OF proposal_contract attestation_contract,
      of "\<lambda>a b. \<lparr>nz_proposal = a, nz_attestation = b\<rparr>" nz_proposal nz_attestation]
  by (simp add: write_notarize_def [abs_def] read_notarize_def [abs_def] size_notarize_def [abs_def])

lemma nullify_contract: "codec (write_nullify ws) (read_nullify rs) (size_nullify ss)
    (\<lambda>v. valid_rnd (nl_round v) \<and> valid_attestation vs (nl_attestation v))"
  using codec_record [OF rnd_contract attestation_contract,
      of "\<lambda>a b. \<lparr>nl_round = a, nl_attestation = b\<rparr>" nl_round nl_attestation]
  by (simp add: write_nullify_def [abs_def] read_nullify_def [abs_def] size_nullify_def [abs_def])

lemma finalize_contract: "codec (write_finalize wd ws) (read_finalize rd rs) (size_finalize sd ss)
    (\<lambda>v. valid_proposal vd (fz_proposal v) \<and> valid_attestation vs (fz_attestation v))"
  using codec_record [OF proposal_contract attestation_contract,
      of "\<lambda>a b. \<lparr>fz_proposal = a, fz_attestation = b\<rparr>" fz_proposal fz_attestation]
  by (simp add: write_finalize_def [abs_def] read_finalize_def [abs_def] size_finalize_def [abs_def])

lemma notarization_contract: "codec (write_notarization wd wc) (read_notarization rd rc) (size_notarization sd sc)
    (\<lambda>v. valid_proposal vd (nzn_proposal v) \<and> vc (nzn_certificate v))"
  using codec_record [OF proposal_contract c.codec_axioms,
      of "\<lambda>a b. \<lparr>nzn_proposal = a, nzn_certificate = b\<rparr>" nzn_proposal nzn_certificate]
  by (simp add: write_notarization_def [abs_def] read_notarization_def [abs_def] size_notarization_def [abs_def])

lemma nullification_contract: "codec (write_nullification wc) (read_nullification rc) (size_nullification sc)
    (\<lambda>v. valid_rnd (nln_round v) \<and> vc (nln_certificate v))"
  using codec_record [OF rnd_contract c.codec_axioms,
      of "\<lambda>a b. \<lparr>nln_round = a, nln_certificate = b\<rparr>" nln_round nln_certificate]
  by (simp add: write_nullification_def [abs_def] read_nullification_def [abs_def] size_nullification_def [abs_def])

lemma finalization_contract: "codec (write_finalization wd wc) (read_finalization rd rc) (size_finalization sd sc)
    (\<lambda>v. valid_proposal vd (fzn_proposal v) \<and> vc (fzn_certificate v))"
  using codec_record [OF proposal_contract c.codec_axioms,
      of "\<lambda>a b. \<lparr>fzn_proposal = a, fzn_certificate = b\<rparr>" fzn_proposal fzn_certificate]
  by (simp add: write_finalization_def [abs_def] read_finalization_def [abs_def] size_finalization_def [abs_def])

end

sublocale simplex_codec \<subseteq> nz: codec "write_notarize wd ws" "read_notarize rd rs" "size_notarize sd ss"
    "\<lambda>v. valid_proposal vd (nz_proposal v) \<and> valid_attestation vs (nz_attestation v)"
  by (rule notarize_contract)

sublocale simplex_codec \<subseteq> nl: codec "write_nullify ws" "read_nullify rs" "size_nullify ss"
    "\<lambda>v. valid_rnd (nl_round v) \<and> valid_attestation vs (nl_attestation v)"
  by (rule nullify_contract)

sublocale simplex_codec \<subseteq> fz: codec "write_finalize wd ws" "read_finalize rd rs" "size_finalize sd ss"
    "\<lambda>v. valid_proposal vd (fz_proposal v) \<and> valid_attestation vs (fz_attestation v)"
  by (rule finalize_contract)

sublocale simplex_codec \<subseteq> nzn: codec "write_notarization wd wc" "read_notarization rd rc" "size_notarization sd sc"
    "\<lambda>v. valid_proposal vd (nzn_proposal v) \<and> vc (nzn_certificate v)"
  by (rule notarization_contract)

sublocale simplex_codec \<subseteq> nln: codec "write_nullification wc" "read_nullification rc" "size_nullification sc"
    "\<lambda>v. valid_rnd (nln_round v) \<and> vc (nln_certificate v)"
  by (rule nullification_contract)

sublocale simplex_codec \<subseteq> fzn: codec "write_finalization wd wc" "read_finalization rd rc" "size_finalization sd sc"
    "\<lambda>v. valid_proposal vd (fzn_proposal v) \<and> vc (fzn_certificate v)"
  by (rule finalization_contract)

lemma and_then_OkE: "and_then m f = Ok y \<Longrightarrow> (\<And>x. m = Ok x \<Longrightarrow> f x = Ok y \<Longrightarrow> P) \<Longrightarrow> P"
  by (cases m) auto

lemma read_u8_eqs: "read_u8 (t # buf) = Ok (t, buf)" "read_u8 buf \<noteq> Panic"
  "read_u8 buf = Ok (t, rest) \<longleftrightarrow> buf = t # rest"
  by (cases buf; auto simp: read_u8_def at_least_def)+

context simplex_codec begin

lemma vote_contract: "codec (write_vote wd ws) (read_vote rd rs) (size_vote sd ss) (valid_vote vd vs)"
proof
  show "\<exists>bs. write_vote wd ws x = Ok bs \<and> size_vote sd ss x = Ok (length bs)" if "valid_vote vd vs x" for x
    using that nz.write_valid nl.write_valid fz.write_valid by (cases x) fastforce+
  show "read_vote rd rs (bs @ rest) = Ok (x, rest)" if "valid_vote vd vs x" "write_vote wd ws x = Ok bs" for x bs rest
    using that by (cases x)
      (auto simp: read_vote_def read_u8_eqs nz.read_write nl.read_write fz.read_write elim!: and_then_OkE)
  show "valid_vote vd vs x \<and> (\<exists>bs. write_vote wd ws x = Ok bs \<and> buf = bs @ rest)" if "read_vote rd rs buf = Ok (x, rest)" for buf x rest
    using that by (auto simp: read_vote_def read_u8_eqs result_simps split: if_splits
        dest!: nz.read_canonical nl.read_canonical fz.read_canonical)
  show "read_vote rd rs buf \<noteq> Panic" for buf
    using nz.read_no_panic nl.read_no_panic fz.read_no_panic
    by (auto simp: read_vote_def read_u8_eqs result_simps)
qed

lemma certificate_contract:
  "codec (write_certificate wd wc) (read_certificate rd rc) (size_certificate sd sc) (valid_certificate vd vc)"
proof
  show "\<exists>bs. write_certificate wd wc x = Ok bs \<and> size_certificate sd sc x = Ok (length bs)"
    if "valid_certificate vd vc x" for x
    using that nzn.write_valid nln.write_valid fzn.write_valid by (cases x) fastforce+
  show "read_certificate rd rc (bs @ rest) = Ok (x, rest)"
    if "valid_certificate vd vc x" "write_certificate wd wc x = Ok bs" for x bs rest
    using that by (cases x)
      (auto simp: read_certificate_def read_u8_eqs nzn.read_write nln.read_write fzn.read_write elim!: and_then_OkE)
  show "valid_certificate vd vc x \<and> (\<exists>bs. write_certificate wd wc x = Ok bs \<and> buf = bs @ rest)"
    if "read_certificate rd rc buf = Ok (x, rest)" for buf x rest
    using that by (auto simp: read_certificate_def read_u8_eqs result_simps split: if_splits
        dest!: nzn.read_canonical nln.read_canonical fzn.read_canonical)
  show "read_certificate rd rc buf \<noteq> Panic" for buf
    using nzn.read_no_panic nln.read_no_panic fzn.read_no_panic
    by (auto simp: read_certificate_def read_u8_eqs result_simps)
qed

lemma artifact_contract:
  "codec (write_artifact wd ws wc) (read_artifact rd rs rc) (size_artifact sd ss sc) (valid_artifact vd vs vc)"
proof
  have rb: "\<exists>bs. write_rnd r = Ok bs \<and> size_rnd r = Ok (length bs)" if "valid_rnd r" for r
    using rnd.write_valid [OF that] .
  show "\<exists>bs. write_artifact wd ws wc x = Ok bs \<and> size_artifact sd ss sc x = Ok (length bs)"
    if "valid_artifact vd vs vc x" for x
  proof (cases x)
    case (ANotarize v) then show ?thesis using that nz.write_valid [of v] by auto
  next
    case (ANotarization v) then show ?thesis using that nzn.write_valid [of v] by auto
  next
    case (ACertification r b) then show ?thesis using that rb [of r] by (auto simp: write_bool_def size_bool_def)
  next
    case (ANullify v) then show ?thesis using that nl.write_valid [of v] by auto
  next
    case (ANullification v) then show ?thesis using that nln.write_valid [of v] by auto
  next
    case (AFinalize v) then show ?thesis using that fz.write_valid [of v] by auto
  next
    case (AFinalization v) then show ?thesis using that fzn.write_valid [of v] by auto
  qed
  show "read_artifact rd rs rc (bs @ rest) = Ok (x, rest)"
    if "valid_artifact vd vs vc x" "write_artifact wd ws wc x = Ok bs" for x bs rest
    using that by (cases x)
      (auto simp: read_artifact_def read_u8_eqs nz.read_write nl.read_write fz.read_write
        nzn.read_write nln.read_write fzn.read_write rnd.read_write bool.read_write elim!: and_then_OkE)
  show "valid_artifact vd vs vc x \<and> (\<exists>bs. write_artifact wd ws wc x = Ok bs \<and> buf = bs @ rest)"
    if "read_artifact rd rs rc buf = Ok (x, rest)" for buf x rest
    using that by (auto simp: read_artifact_def read_u8_eqs result_simps split: if_splits
        dest!: nz.read_canonical nl.read_canonical fz.read_canonical
          nzn.read_canonical nln.read_canonical fzn.read_canonical rnd.read_canonical bool.read_canonical)
  show "read_artifact rd rs rc buf \<noteq> Panic" for buf
    using nz.read_no_panic nl.read_no_panic fz.read_no_panic nzn.read_no_panic nln.read_no_panic fzn.read_no_panic
      rnd.read_no_panic bool.read_no_panic
    by (auto simp: read_artifact_def read_u8_eqs result_simps)
qed

end

text \<open>The instance with 32-byte digests and 64-byte signatures and certificates.\<close>

interpretation ed: simplex_codec write_array "read_array 32" "size_array 32" "\<lambda>xs. length xs = 32"
  write_array "read_array 64" "size_array 64" "\<lambda>xs. length xs = 64"
  write_array "read_array 64" "size_array 64" "\<lambda>xs. length xs = 64"
  by (intro simplex_codec.intro codec_array)

section \<open>The first vote of each signer\<close>

definition am_inv :: "('a \<Rightarrow> nat) \<Rightarrow> 'a attributable_map \<Rightarrow> bool" where
  "am_inv signer m \<longleftrightarrow> am_added m = card {i. i < length (am_data m) \<and> am_data m ! i \<noteq> None}
     \<and> (\<forall>i x. i < length (am_data m) \<longrightarrow> am_data m ! i = Some x \<longrightarrow> signer x = i)"

definition am_insert_all :: "('a \<Rightarrow> nat) \<Rightarrow> 'a list \<Rightarrow> 'a attributable_map \<Rightarrow> 'a attributable_map" where
  "am_insert_all signer items m = fold (\<lambda>x m. snd (am_insert signer x m)) items m"

lemma am_inv_new: "am_inv signer (am_new n)"
  by (auto simp: am_inv_def am_new_def)

lemma am_inv_clear: "am_inv signer (am_clear m)"
  by (auto simp: am_inv_def am_clear_def)

lemma length_am_insert [simp]: "length (am_data (snd (am_insert signer x m))) = length (am_data m)"
  by (simp add: am_insert_def Let_def)

lemma am_get_insert:
  "am_get (snd (am_insert signer x m)) i =
     (if i = signer x \<and> i < length (am_data m) \<and> am_get m i = None then Some x else am_get m i)"
  by (auto simp: am_insert_def am_get_def Let_def)

lemma am_inv_insert: "am_inv signer m \<Longrightarrow> am_inv signer (snd (am_insert signer x m))"
proof -
  assume inv: "am_inv signer m"
  let ?i = "signer x" and ?S = "{i. i < length (am_data m) \<and> am_data m ! i \<noteq> None}"
  show ?thesis
  proof (cases "?i < length (am_data m) \<and> am_data m ! ?i = None")
    case True
    then have "{i. i < length (am_data m) \<and> (am_data m)[?i := Some x] ! i \<noteq> None} = insert ?i ?S"
      by (auto simp: nth_list_update)
    moreover have "?i \<notin> ?S" "finite ?S" using True by auto
    ultimately show ?thesis using True inv
      by (auto simp: am_inv_def am_insert_def Let_def nth_list_update split: if_splits)
  qed (use inv in \<open>auto simp: am_insert_def Let_def\<close>)
qed

lemma am_insert_all_simps [simp]:
  "am_insert_all signer [] m = m"
  "am_insert_all signer (x # xs) m = am_insert_all signer xs (snd (am_insert signer x m))"
  by (simp_all add: am_insert_all_def)

lemma am_insert_all_length [simp]: "length (am_data (am_insert_all signer xs m)) = length (am_data m)"
  by (induction xs arbitrary: m) simp_all

lemma am_inv_insert_all: "am_inv signer m \<Longrightarrow> am_inv signer (am_insert_all signer xs m)"
  by (induction xs arbitrary: m) (simp_all add: am_inv_insert)

lemma am_get_insert_all:
  "am_get (am_insert_all signer xs m) i =
     (case am_get m i of Some y \<Rightarrow> Some y
      | None \<Rightarrow> if i < length (am_data m) then find (\<lambda>x. signer x = i) xs else None)"
  by (induction xs arbitrary: m) (auto simp: am_get_insert split: option.splits)

lemma am_iter_get: "am_iter m = List.map_filter (am_get m) [0..<length (am_data m)]"
proof -
  have "am_data m = map (am_get m) [0..<length (am_data m)]"
    by (rule nth_equalityI) (simp_all add: am_get_def)
  then have "am_iter m = List.map_filter id (map (am_get m) [0..<length (am_data m)])"
    unfolding am_iter_def by (rule arg_cong)
  then show ?thesis by (simp add: map_filter_def filter_map comp_def)
qed

section \<open>Properties\<close>

text \<open>
  C31. Journal artifacts: for any digest, signature and certificate codecs that keep the contract,
  decoding accepts exactly the encoding of a valid artifact (each of the seven kinds has its tag),
  and never panics, whatever bytes the journal holds.
\<close>

theorem artifact_decode_iff:
  assumes "codec wd rd sd vd" "codec ws rs ss vs" "codec wc rc sc vc"
  shows "(decode_cfg (read_artifact rd rs rc) bs = Ok x \<longleftrightarrow>
      valid_artifact vd vs vc x \<and> encode (write_artifact wd ws wc) (size_artifact sd ss sc) x = Ok bs)
    \<and> decode_cfg (read_artifact rd rs rc) bs \<noteq> Panic"
proof -
  note C = simplex_codec.artifact_contract [OF simplex_codec.intro [OF assms]]
  show ?thesis using codec.decode_iff_encode [OF C] codec.decode_no_panic [OF C] by blast
qed

theorem artifact_decode_iff_witness:
  "decode_cfg (read_artifact read_bool read_bool read_bool) [2, 1, 5, 1] = Ok (ACertification (Rnd 1 5) True)"
proof -
  have "unat (word_of_nat 1 :: u64) < 128" "unat (word_of_nat 5 :: u64) < 128" by simp_all
  then have e: "encode (write_artifact write_bool write_bool write_bool) (size_artifact size_bool size_bool size_bool)
      (ACertification (Rnd 1 5) True) = Ok [2, 1, 5, 1]"
    by (simp add: encode_small write_rnd_def size_rnd_def write_view_def size_view_def)
  show ?thesis
    using artifact_decode_iff [OF bool.codec_axioms bool.codec_axioms bool.codec_axioms,
        of "[2, 1, 5, 1]" "ACertification (Rnd 1 5) True"] e
    by (simp add: valid_rnd_def u64_max_def)
qed

text \<open>
  C32. Votes and certificates on the wire: the same two-sided round trip, for both message types.
\<close>

theorem wire_decode_iff:
  assumes "codec wd rd sd vd" "codec ws rs ss vs"
  shows "(decode_cfg (read_vote rd rs) bs = Ok x \<longleftrightarrow>
      valid_vote vd vs x \<and> encode (write_vote wd ws) (size_vote sd ss) x = Ok bs)
    \<and> (decode_cfg (read_certificate rd rs) bs = Ok y \<longleftrightarrow>
      valid_certificate vd vs y \<and> encode (write_certificate wd ws) (size_certificate sd ss) y = Ok bs)
    \<and> decode_cfg (read_vote rd rs) bs \<noteq> Panic \<and> decode_cfg (read_certificate rd rs) bs \<noteq> Panic"
proof -
  note L = simplex_codec.intro [OF assms assms(2)]
  note V = simplex_codec.vote_contract [OF L] and C = simplex_codec.certificate_contract [OF L]
  show ?thesis using codec.decode_iff_encode [OF V] codec.decode_no_panic [OF V]
      codec.decode_iff_encode [OF C] codec.decode_no_panic [OF C] by blast
qed

theorem wire_decode_iff_witness:
  "decode_cfg (read_certificate read_bool read_bool) [1, 1, 5, 1]
     = Ok (CNullification \<lparr>nln_round = Rnd 1 5, nln_certificate = True\<rparr>)"
proof -
  have "unat (word_of_nat 1 :: u64) < 128" "unat (word_of_nat 5 :: u64) < 128" by simp_all
  then have e: "encode (write_certificate write_bool write_bool) (size_certificate size_bool size_bool)
      (CNullification \<lparr>nln_round = Rnd 1 5, nln_certificate = True\<rparr>) = Ok [1, 1, 5, 1]"
    by (simp add: encode_small write_nullification_def size_nullification_def write_rnd_def size_rnd_def
        write_view_def size_view_def)
  show ?thesis
    using wire_decode_iff [OF bool.codec_axioms bool.codec_axioms,
        of "[1, 1, 5, 1]" undefined "CNullification \<lparr>nln_round = Rnd 1 5, nln_certificate = True\<rparr>"] e
    by (simp add: valid_rnd_def u64_max_def)
qed

text \<open>
  C33. Inserting any sequence of votes into an empty map keeps, for each participant, the first vote
  signed by that participant: later votes of the same signer and votes of unknown signers are
  dropped, the count is the number of distinct known signers, and iteration lists the kept votes in
  signer order.
\<close>

theorem attributable_map_first_vote:
  fixes signer :: "'a \<Rightarrow> nat" and n :: nat and xs :: "'a list"
  defines "m \<equiv> am_insert_all signer xs (am_new n)"
  shows "am_get m i = (if i < n then find (\<lambda>x. signer x = i) xs else None)
    \<and> am_len m = card (signer ` set xs \<inter> {..<n})
    \<and> am_iter m = List.map_filter (\<lambda>i. find (\<lambda>x. signer x = i) xs) [0..<n]"
proof -
  have get: "am_get m i = (if i < n then find (\<lambda>x. signer x = i) xs else None)" for i
    by (simp add: m_def am_get_insert_all) (simp add: am_get_def am_new_def)
  have len: "length (am_data m) = n" by (simp add: m_def) (simp add: am_new_def)
  have "am_data m ! i \<noteq> None \<longleftrightarrow> i \<in> signer ` set xs" if "i < n" for i
  proof -
    have "am_data m ! i = find (\<lambda>x. signer x = i) xs" using get [of i] that by (simp add: am_get_def len)
    then show ?thesis by (simp add: find_None_iff image_iff) blast
  qed
  then have "{i. i < n \<and> am_data m ! i \<noteq> None} = signer ` set xs \<inter> {..<n}" by auto
  moreover have "am_inv signer m" unfolding m_def by (intro am_inv_insert_all am_inv_new)
  ultimately have "am_len m = card (signer ` set xs \<inter> {..<n})" by (simp add: am_inv_def am_len_def len)
  moreover have "am_iter m = List.map_filter (\<lambda>i. find (\<lambda>x. signer x = i) xs) [0..<n]"
    unfolding am_iter_get len using get by (auto simp: map_filter_def intro!: map_cong filter_cong)
  ultimately show ?thesis using get by blast
qed

end
