(* ===== verification/Voter_Round.thy ===== *)
theory Voter_Round
  imports Simplex_Types
begin

text \<open>
  The proposal slot and the per-round state machine of the voter
  (\<open>consensus/src/simplex/actors/voter/slot.rs\<close> and \<open>round.rs\<close>). Times are numbers of nanoseconds. The
  signing scheme is a parameter: a record with the index of the local participant, the public keys
  and the signing function; an abort handle is a number.
\<close>

section \<open>The proposal slot\<close>

datatype status = StatusNone | Unverified | Verified | Equivocated

datatype 'd change =
    New
  | Unchanged
  | ChangeEquivocated (dropped: "'d proposal") (retained: "'d proposal")
  | Skipped

record 'd slot =
  slot_proposal :: "'d proposal option"
  slot_status :: status
  requested_build :: bool
  requested_verify :: bool

definition slot_new :: "'d slot" where
  "slot_new = \<lparr>slot_proposal = None, slot_status = StatusNone, requested_build = False, requested_verify = False\<rparr>"

definition slot_should_build :: "'d slot \<Rightarrow> bool" where
  "slot_should_build s \<longleftrightarrow> \<not> requested_build s \<and> slot_proposal s = None"

definition slot_set_building :: "'d slot \<Rightarrow> 'd slot" where
  "slot_set_building s = s\<lparr>requested_build := True\<rparr>"

definition slot_built :: "'d proposal \<Rightarrow> 'd slot \<Rightarrow> 'd slot" where
  "slot_built proposal s =
     (case slot_proposal s of
        Some existing \<Rightarrow> s
      | None \<Rightarrow> s\<lparr>slot_proposal := Some proposal, slot_status := Verified,
          requested_build := True, requested_verify := True\<rparr>)"

definition slot_request_verify :: "'d slot \<Rightarrow> bool \<times> 'd slot" where
  "slot_request_verify s =
     (if requested_verify s then (False, s) else (True, s\<lparr>requested_verify := True\<rparr>))"

definition slot_mark_verified :: "'d slot \<Rightarrow> bool \<times> 'd slot" where
  "slot_mark_verified s =
     (if slot_status s \<noteq> Unverified then (False, s) else (True, s\<lparr>slot_status := Verified\<rparr>))"

definition slot_update :: "'d proposal \<Rightarrow> bool \<Rightarrow> 'd slot \<Rightarrow> 'd change \<times> 'd slot" where
  "slot_update proposal recovered s =
     (if slot_status s = Equivocated then (Skipped, s)
      else case slot_proposal s of
        None \<Rightarrow> (New, s\<lparr>slot_proposal := Some proposal,
          slot_status := (if recovered then Verified else Unverified)\<rparr>)
      | Some existing \<Rightarrow>
          if existing = proposal then
            (Unchanged, if recovered then s\<lparr>slot_status := Verified\<rparr> else s)
          else if recovered then
            (ChangeEquivocated existing proposal,
             s\<lparr>slot_proposal := Some proposal, requested_build := True, requested_verify := True,
               slot_status := Equivocated\<rparr>)
          else (ChangeEquivocated proposal existing, s\<lparr>slot_status := Equivocated\<rparr>))"

section \<open>The round\<close>

record ('d, 's, 'k) scheme =
  scheme_me :: "nat option"
  scheme_participants :: "'k list"
  scheme_sign :: "bytes \<Rightarrow> 'd subject \<Rightarrow> 's attestation option"

record 'k leader =
  leader_idx :: nat
  leader_key :: 'k

datatype 'a certify_result = Ready 'a | Pending | Skip

record ('d, 's, 'c, 'k) round =
  r_start :: nat
  r_scheme :: "('d, 's, 'k) scheme"
  r_round :: rnd
  r_leader :: "'k leader option"
  r_proposal :: "'d slot"
  r_leader_deadline :: "nat option"
  r_advance_deadline :: "nat option"
  r_nullify_retry :: "nat option"
  r_notarization :: "('d, 'c) notarization option"
  r_broadcast_notarize :: bool
  r_broadcast_notarization :: bool
  r_nullification :: "'c nullification option"
  r_broadcast_nullify :: bool
  r_broadcast_nullification :: bool
  r_finalization :: "('d, 'c) finalization option"
  r_broadcast_finalize :: bool
  r_broadcast_finalization :: bool
  r_certified :: "bool option"
  r_certify_handle :: "nat option"

definition round_new :: "('d, 's, 'k) scheme \<Rightarrow> rnd \<Rightarrow> nat \<Rightarrow> ('d, 's, 'c, 'k) round" where
  "round_new scheme rnd start =
     \<lparr>r_start = start, r_scheme = scheme, r_round = rnd, r_leader = None, r_proposal = slot_new,
      r_leader_deadline = None, r_advance_deadline = None, r_nullify_retry = None,
      r_notarization = None, r_broadcast_notarize = False, r_broadcast_notarization = False,
      r_nullification = None, r_broadcast_nullify = False, r_broadcast_nullification = False,
      r_finalization = None, r_broadcast_finalize = False, r_broadcast_finalization = False,
      r_certified = None, r_certify_handle = None\<rparr>"

definition round_is_signer :: "('d, 's, 'c, 'k) round \<Rightarrow> nat \<Rightarrow> bool" where
  "round_is_signer r signer \<longleftrightarrow> scheme_me (r_scheme r) = Some signer"

definition round_propose_ready :: "('d, 's, 'c, 'k) round \<Rightarrow> 'k leader option" where
  "round_propose_ready r =
     (case r_leader r of
        None \<Rightarrow> None
      | Some leader \<Rightarrow>
          if \<not> round_is_signer r (leader_idx leader) \<or> r_broadcast_nullify r
            \<or> \<not> slot_should_build (r_proposal r)
          then None else Some leader)"

definition round_should_propose :: "('d, 's, 'c, 'k) round \<Rightarrow> bool" where
  "round_should_propose r \<longleftrightarrow> round_propose_ready r \<noteq> None"

definition round_try_propose :: "('d, 's, 'c, 'k) round \<Rightarrow> 'k leader option \<times> ('d, 's, 'c, 'k) round" where
  "round_try_propose r =
     (case round_propose_ready r of
        None \<Rightarrow> (None, r)
      | Some leader \<Rightarrow> (Some leader, r\<lparr>r_proposal := slot_set_building (r_proposal r)\<rparr>))"

definition round_verify_ready :: "('d, 's, 'c, 'k) round \<Rightarrow> 'k leader option" where
  "round_verify_ready r =
     (case r_leader r of
        None \<Rightarrow> None
      | Some leader \<Rightarrow>
          if round_is_signer r (leader_idx leader) \<or> r_broadcast_nullify r then None else Some leader)"

definition round_should_verify :: "('d, 's, 'c, 'k) round \<Rightarrow> ('k leader \<times> 'd proposal) option" where
  "round_should_verify r =
     (case round_verify_ready r of
        None \<Rightarrow> None
      | Some leader \<Rightarrow>
          (case slot_proposal (r_proposal r) of
             None \<Rightarrow> None
           | Some proposal \<Rightarrow> Some (leader, proposal)))"

definition round_try_verify :: "('d, 's, 'c, 'k) round \<Rightarrow> bool \<times> ('d, 's, 'c, 'k) round" where
  "round_try_verify r =
     (if round_verify_ready r = None then (False, r)
      else let (b, s) = slot_request_verify (r_proposal r) in (b, r\<lparr>r_proposal := s\<rparr>))"

definition round_should_certify :: "('d, 's, 'c, 'k) round \<Rightarrow> 'd proposal certify_result" where
  "round_should_certify r =
     (if r_notarization r = None \<or> r_certified r \<noteq> None \<or> r_certify_handle r \<noteq> None then Skip
      else case slot_proposal (r_proposal r) of None \<Rightarrow> Pending | Some p \<Rightarrow> Ready p)"

definition round_set_certify_handle :: "nat \<Rightarrow> ('d, 's, 'c, 'k) round \<Rightarrow> ('d, 's, 'c, 'k) round" where
  "round_set_certify_handle handle r = r\<lparr>r_certify_handle := Some handle\<rparr>"

definition round_unset_certify_handle :: "('d, 's, 'c, 'k) round \<Rightarrow> ('d, 's, 'c, 'k) round" where
  "round_unset_certify_handle r = r\<lparr>r_certify_handle := None\<rparr>"

definition round_clear_deadlines :: "('d, 's, 'c, 'k) round \<Rightarrow> ('d, 's, 'c, 'k) round" where
  "round_clear_deadlines r = r\<lparr>r_leader_deadline := None, r_advance_deadline := None\<rparr>"

definition round_set_leader :: "nat \<Rightarrow> ('d, 's, 'c, 'k) round \<Rightarrow> (('d, 's, 'c, 'k) round, unit) result" where
  "round_set_leader leader r =
     (if leader < length (scheme_participants (r_scheme r))
      then Ok (r\<lparr>r_leader := Some \<lparr>leader_idx = leader, leader_key = scheme_participants (r_scheme r) ! leader\<rparr>\<rparr>)
      else Panic)"

definition round_is_certified :: "('d, 's, 'c, 'k) round \<Rightarrow> bool" where
  "round_is_certified r \<longleftrightarrow> r_certified r = Some True"

definition round_elapsed_since_start :: "('d, 's, 'c, 'k) round \<Rightarrow> nat \<Rightarrow> nat" where
  "round_elapsed_since_start r now = now - r_start r"

definition round_proposed :: "'d proposal \<Rightarrow> ('d, 's, 'c, 'k) round \<Rightarrow> bool \<times> ('d, 's, 'c, 'k) round" where
  "round_proposed proposal r =
     (if r_broadcast_nullify r then (False, r)
      else (True, r\<lparr>r_proposal := slot_built proposal (r_proposal r), r_leader_deadline := None\<rparr>))"

definition round_verified :: "('d, 's, 'c, 'k) round \<Rightarrow> bool \<times> ('d, 's, 'c, 'k) round" where
  "round_verified r =
     (if r_broadcast_nullify r then (False, r)
      else let (marked, s) = slot_mark_verified (r_proposal r) in
        if \<not> marked then (False, r\<lparr>r_proposal := s\<rparr>)
        else (True, r\<lparr>r_proposal := s, r_leader_deadline := None\<rparr>))"

definition round_set_proposal :: "'d proposal \<Rightarrow> ('d, 's, 'c, 'k) round \<Rightarrow> bool \<times> ('d, 's, 'c, 'k) round" where
  "round_set_proposal proposal r =
     (if r_broadcast_nullify r then (False, r)
      else let (ch, s) = slot_update proposal False (r_proposal r) in
        case ch of
          New \<Rightarrow> (True, r\<lparr>r_proposal := s, r_leader_deadline := None\<rparr>)
        | Unchanged \<Rightarrow> (False, r\<lparr>r_proposal := s\<rparr>)
        | ChangeEquivocated _ _ \<Rightarrow> (False, r\<lparr>r_proposal := s\<rparr>)
        | Skipped \<Rightarrow> (False, r\<lparr>r_proposal := s\<rparr>))"

definition round_certified :: "bool \<Rightarrow> ('d, 's, 'c, 'k) round \<Rightarrow> (('d, 's, 'c, 'k) round, unit) result" where
  "round_certified is_success r =
     (if r_certified r = None \<or> r_certified r = Some is_success
      then Ok (r\<lparr>r_certified := Some is_success, r_certify_handle := None\<rparr>)
      else Panic)"

definition round_set_deadlines :: "nat \<Rightarrow> nat \<Rightarrow> ('d, 's, 'c, 'k) round \<Rightarrow> ('d, 's, 'c, 'k) round" where
  "round_set_deadlines leader_deadline advance_deadline r =
     r\<lparr>r_leader_deadline := Some leader_deadline, r_advance_deadline := Some advance_deadline\<rparr>"

definition round_construct_nullify :: "('d, 's, 'c, 'k) round \<Rightarrow> bool option \<times> ('d, 's, 'c, 'k) round" where
  "round_construct_nullify r =
     (if r_broadcast_finalize r then (None, r)
      else let retry = r_broadcast_nullify r;
               r1 = round_clear_deadlines (r\<lparr>r_broadcast_nullify := True\<rparr>)
           in (Some retry, r1\<lparr>r_nullify_retry := None\<rparr>))"

definition round_next_timeout_deadline :: "nat \<Rightarrow> nat \<Rightarrow> ('d, 's, 'c, 'k) round \<Rightarrow> nat \<times> ('d, 's, 'c, 'k) round" where
  "round_next_timeout_deadline now retry r =
     (case r_leader_deadline r of
        Some deadline \<Rightarrow> (deadline, r)
      | None \<Rightarrow>
          (case r_advance_deadline r of
             Some deadline \<Rightarrow> (deadline, r)
           | None \<Rightarrow>
               (case r_nullify_retry r of
                  Some deadline \<Rightarrow> (deadline, r)
                | None \<Rightarrow> (now + retry, r\<lparr>r_nullify_retry := Some (now + retry)\<rparr>))))"

definition round_add_recovered_proposal ::
  "'d proposal \<Rightarrow> ('d, 's, 'c, 'k) round \<Rightarrow> 'k option \<times> ('d, 's, 'c, 'k) round" where
  "round_add_recovered_proposal proposal r =
     (let (ch, s) = slot_update proposal True (r_proposal r); r1 = r\<lparr>r_proposal := s\<rparr> in
      case ch of
        New \<Rightarrow> (None, r1)
      | Unchanged \<Rightarrow> (None, r1)
      | ChangeEquivocated _ _ \<Rightarrow> (map_option leader_key (r_leader r), r1)
      | Skipped \<Rightarrow> (None, r1))"

definition round_add_notarization ::
  "('d, 'c) notarization \<Rightarrow> ('d, 's, 'c, 'k) round \<Rightarrow> (bool \<times> 'k option) \<times> ('d, 's, 'c, 'k) round" where
  "round_add_notarization notarization r =
     (if r_notarization r \<noteq> None then ((False, None), r)
      else let (equivocator, r1) =
             round_add_recovered_proposal (nzn_proposal notarization) (round_clear_deadlines r)
           in ((True, equivocator), r1\<lparr>r_notarization := Some notarization\<rparr>))"

definition round_add_nullification ::
  "'c nullification \<Rightarrow> ('d, 's, 'c, 'k) round \<Rightarrow> bool \<times> ('d, 's, 'c, 'k) round" where
  "round_add_nullification nullification r =
     (if r_nullification r \<noteq> None then (False, r)
      else (True, (round_clear_deadlines r)\<lparr>r_nullification := Some nullification\<rparr>))"

definition round_add_finalization ::
  "('d, 'c) finalization \<Rightarrow> ('d, 's, 'c, 'k) round \<Rightarrow> (bool \<times> 'k option) \<times> ('d, 's, 'c, 'k) round" where
  "round_add_finalization finalization r =
     (if r_finalization r \<noteq> None then ((False, None), r)
      else let (equivocator, r1) =
             round_add_recovered_proposal (fzn_proposal finalization) (round_clear_deadlines r)
           in ((True, equivocator), r1\<lparr>r_finalization := Some finalization\<rparr>))"

definition round_get_broadcast_notarization ::
  "('d, 's, 'c, 'k) round \<Rightarrow> ('d, 'c) notarization option \<times> ('d, 's, 'c, 'k) round" where
  "round_get_broadcast_notarization r =
     (if r_broadcast_notarization r then (None, r)
      else case r_notarization r of
        Some n \<Rightarrow> (Some n, r\<lparr>r_broadcast_notarization := True\<rparr>)
      | None \<Rightarrow> (None, r))"

definition round_get_broadcast_nullification ::
  "('d, 's, 'c, 'k) round \<Rightarrow> 'c nullification option \<times> ('d, 's, 'c, 'k) round" where
  "round_get_broadcast_nullification r =
     (if r_broadcast_nullification r then (None, r)
      else case r_nullification r of
        Some n \<Rightarrow> (Some n, r\<lparr>r_broadcast_nullification := True\<rparr>)
      | None \<Rightarrow> (None, r))"

definition round_get_broadcast_finalization ::
  "('d, 's, 'c, 'k) round \<Rightarrow> ('d, 'c) finalization option \<times> ('d, 's, 'c, 'k) round" where
  "round_get_broadcast_finalization r =
     (if r_broadcast_finalization r then (None, r)
      else case r_finalization r of
        Some n \<Rightarrow> (Some n, r\<lparr>r_broadcast_finalization := True\<rparr>)
      | None \<Rightarrow> (None, r))"

definition round_construct_notarize ::
  "('d, 's, 'c, 'k) round \<Rightarrow> 'd proposal option \<times> ('d, 's, 'c, 'k) round" where
  "round_construct_notarize r =
     (if r_broadcast_notarize r \<or> r_broadcast_nullify r then (None, r)
      else if slot_status (r_proposal r) \<noteq> Verified then (None, r)
      else (slot_proposal (r_proposal r), r\<lparr>r_broadcast_notarize := True\<rparr>))"

definition round_construct_finalize ::
  "('d, 's, 'c, 'k) round \<Rightarrow> 'd proposal option \<times> ('d, 's, 'c, 'k) round" where
  "round_construct_finalize r =
     (if r_broadcast_finalize r \<or> r_broadcast_nullify r then (None, r)
      else if \<not> r_broadcast_notarize r \<or> \<not> r_broadcast_notarization r then (None, r)
      else if slot_status (r_proposal r) \<noteq> Verified then (None, r)
      else if \<not> round_is_certified r then (None, r)
      else (slot_proposal (r_proposal r), r\<lparr>r_broadcast_finalize := True\<rparr>))"

fun round_replay :: "('d, 's, 'c) artifact \<Rightarrow> ('d, 's, 'c, 'k) round \<Rightarrow> (('d, 's, 'c, 'k) round, unit) result" where
  "round_replay (ANotarize v) r =
     (if round_is_signer r (notarize_signer v)
      then Ok (r\<lparr>r_proposal := slot_built (nz_proposal v) (r_proposal r), r_broadcast_notarize := True\<rparr>)
      else Panic)"
| "round_replay (ANullify v) r =
     (if round_is_signer r (nullify_signer v) then Ok (r\<lparr>r_broadcast_nullify := True\<rparr>) else Panic)"
| "round_replay (AFinalize v) r =
     (if round_is_signer r (finalize_signer v) then Ok (r\<lparr>r_broadcast_finalize := True\<rparr>) else Panic)"
| "round_replay (ANotarization _) r = Ok (r\<lparr>r_broadcast_notarization := True\<rparr>)"
| "round_replay (ANullification _) r = Ok (r\<lparr>r_broadcast_nullification := True\<rparr>)"
| "round_replay (AFinalization _) r = Ok (r\<lparr>r_broadcast_finalization := True\<rparr>)"
| "round_replay (ACertification _ success) r = round_certified success r"

section \<open>What a round never takes back\<close>

text \<open>
  A slot has a proposal exactly when it has a status. \<open>pinned\<close> says that the slot can no longer back
  another proposal: it holds \<open>p\<close>, or it has seen an equivocation and backs none.
\<close>

definition slot_inv :: "'d slot \<Rightarrow> bool" where
  "slot_inv s \<longleftrightarrow> (slot_proposal s = None \<longleftrightarrow> slot_status s = StatusNone)"

definition pinned :: "'d slot \<Rightarrow> 'd proposal \<Rightarrow> bool" where
  "pinned s p \<longleftrightarrow> slot_proposal s = Some p \<or> slot_status s = Equivocated"

text \<open>One slot is a later state of another, with no proposals but those in \<open>P\<close> added.\<close>

definition slot_le :: "'d proposal set \<Rightarrow> 'd slot \<Rightarrow> 'd slot \<Rightarrow> bool" where
  "slot_le P s s' \<longleftrightarrow> (\<forall>p. slot_proposal s' = Some p \<longrightarrow> slot_proposal s = Some p \<or> p \<in> P) \<and> (slot_inv s \<longrightarrow> slot_inv s') \<and> (slot_proposal s \<noteq> None \<longrightarrow> slot_proposal s' \<noteq> None)
     \<and> (slot_inv s \<longrightarrow> (\<forall>p. pinned s p \<longrightarrow> pinned s' p))
     \<and> (requested_build s \<longrightarrow> requested_build s') \<and> (requested_verify s \<longrightarrow> requested_verify s')"

named_theorems slot_ops \<open>definitions of the slot operations\<close>
named_theorems round_ops \<open>definitions of the round operations\<close>

declare slot_new_def [slot_ops] slot_should_build_def [slot_ops] slot_set_building_def [slot_ops]
  slot_built_def [slot_ops] slot_request_verify_def [slot_ops] slot_mark_verified_def [slot_ops]
  slot_update_def [slot_ops]

declare round_new_def [round_ops] round_try_propose_def [round_ops] round_try_verify_def [round_ops]
  round_set_certify_handle_def [round_ops] round_unset_certify_handle_def [round_ops]
  round_clear_deadlines_def [round_ops] round_set_leader_def [round_ops] round_proposed_def [round_ops]
  round_verified_def [round_ops] round_set_proposal_def [round_ops] round_certified_def [round_ops]
  round_set_deadlines_def [round_ops] round_construct_nullify_def [round_ops]
  round_next_timeout_deadline_def [round_ops] round_add_recovered_proposal_def [round_ops]
  round_add_notarization_def [round_ops] round_add_nullification_def [round_ops]
  round_add_finalization_def [round_ops] round_get_broadcast_notarization_def [round_ops]
  round_get_broadcast_nullification_def [round_ops] round_get_broadcast_finalization_def [round_ops]
  round_construct_notarize_def [round_ops] round_construct_finalize_def [round_ops]

lemma slot_le_refl [simp]: "slot_le P s s"
  by (simp add: slot_le_def)

lemma slot_le_trans: "slot_le P s t \<Longrightarrow> slot_le P t u \<Longrightarrow> slot_le P s u"
  unfolding slot_le_def by blast

lemma slot_inv_new: "slot_inv slot_new"
  by (simp add: slot_inv_def slot_new_def)

lemma slot_le_ops:
  "slot_le P s (slot_set_building s)" "p \<in> P \<Longrightarrow> slot_le P s (slot_built p s)" "slot_le P s (snd (slot_request_verify s))"
  "slot_le P s (snd (slot_mark_verified s))" "p \<in> P \<Longrightarrow> slot_le P s (snd (slot_update p b s))"
  by (auto simp: slot_le_def slot_ops slot_inv_def pinned_def split: option.splits)

text \<open>A notarization is one the round had, or one of a proposal in \<open>P\<close>.\<close>

definition notarized_le :: "'d proposal set \<Rightarrow> ('d, 'c) notarization option \<Rightarrow> ('d, 'c) notarization option \<Rightarrow> bool" where
  "notarized_le P n n' \<longleftrightarrow> (\<forall>x. n' = Some x \<longrightarrow> n = Some x \<or> nzn_proposal x \<in> P)"

lemma notarized_le_refl [simp]: "notarized_le P n n"
  by (simp add: notarized_le_def)

lemma notarized_le_trans: "notarized_le P n m \<Longrightarrow> notarized_le P m l \<Longrightarrow> notarized_le P n l"
  unfolding notarized_le_def by blast

lemma notarized_le_Some [simp]: "nzn_proposal x \<in> P \<Longrightarrow> notarized_le P n (Some x)"
  by (simp add: notarized_le_def)

text \<open>A nullification is one the round had, or one for a view of the proposals in \<open>P\<close>.\<close>

definition nullified_le :: "'d proposal set \<Rightarrow> 'c nullification option \<Rightarrow> 'c nullification option \<Rightarrow> bool" where
  "nullified_le P n n' \<longleftrightarrow> (\<forall>x. n' = Some x \<longrightarrow> n = Some x \<or> rnd_view (nln_round x) \<in> proposal_view ` P)"

lemma nullified_le_refl [simp]: "nullified_le P n n"
  by (simp add: nullified_le_def)

lemma nullified_le_trans: "nullified_le P n m \<Longrightarrow> nullified_le P m l \<Longrightarrow> nullified_le P n l"
  unfolding nullified_le_def by blast

lemma nullified_le_Some [simp]: "rnd_view (nln_round x) \<in> proposal_view ` P \<Longrightarrow> nullified_le P n (Some x)"
  by (simp add: nullified_le_def)

text \<open>
  One round is a later state of another: votes and certificates stay, and the slot moves forward.
\<close>

definition round_le :: "'d proposal set \<Rightarrow> ('d, 's, 'c, 'k) round \<Rightarrow> ('d, 's, 'c, 'k) round \<Rightarrow> bool" where
  "round_le P r r' \<longleftrightarrow> slot_le P (r_proposal r) (r_proposal r') \<and> r_scheme r' = r_scheme r \<and> r_round r' = r_round r
     \<and> (r_broadcast_notarize r \<longrightarrow> r_broadcast_notarize r') \<and> (r_broadcast_nullify r \<longrightarrow> r_broadcast_nullify r')
     \<and> (r_broadcast_finalize r \<longrightarrow> r_broadcast_finalize r')
     \<and> (\<forall>x. r_notarization r = Some x \<longrightarrow> r_notarization r' = Some x)
     \<and> (\<forall>x. r_nullification r = Some x \<longrightarrow> r_nullification r' = Some x)
     \<and> (\<forall>x. r_finalization r = Some x \<longrightarrow> r_finalization r' = Some x)
     \<and> (\<forall>x. r_certified r = Some x \<longrightarrow> r_certified r' = Some x)
     \<and> (\<forall>x. r_leader r = Some x \<longrightarrow> r_leader r' \<noteq> None)
     \<and> notarized_le P (r_notarization r) (r_notarization r') \<and> nullified_le P (r_nullification r) (r_nullification r')"

text \<open>What every round satisfies: certificates come with a proposal, votes in order.\<close>

definition round_inv :: "('d, 's, 'c, 'k) round \<Rightarrow> bool" where
  "round_inv r \<longleftrightarrow> slot_inv (r_proposal r)
     \<and> (r_notarization r \<noteq> None \<or> r_finalization r \<noteq> None \<longrightarrow> slot_proposal (r_proposal r) \<noteq> None)
     \<and> (r_certified r \<noteq> None \<longrightarrow> r_notarization r \<noteq> None)
     \<and> (r_broadcast_finalize r \<longrightarrow> r_broadcast_notarize r)
     \<and> \<not> (r_broadcast_finalize r \<and> r_broadcast_nullify r)"

definition round_step :: "'d proposal set \<Rightarrow> ('d, 's, 'c, 'k) round \<Rightarrow> ('d, 's, 'c, 'k) round \<Rightarrow> bool" where
  "round_step P r r' \<longleftrightarrow> round_le P r r' \<and> (round_inv r \<longrightarrow> round_inv r')"

lemma round_step_refl [simp]: "round_step P r r"
  by (simp add: round_step_def round_le_def)

lemma round_le_trans:
  assumes "round_le P r s" "round_le P s t"
  shows "round_le P r t"
proof -
  have r: "slot_le P (r_proposal r) (r_proposal s)" "notarized_le P (r_notarization r) (r_notarization s)"
      "nullified_le P (r_nullification r) (r_nullification s)" "r_leader r \<noteq> None \<longrightarrow> r_leader s \<noteq> None"
    and s: "slot_le P (r_proposal s) (r_proposal t)" "notarized_le P (r_notarization s) (r_notarization t)"
      "nullified_le P (r_nullification s) (r_nullification t)" "r_leader s \<noteq> None \<longrightarrow> r_leader t \<noteq> None"
    using assms by (simp_all add: round_le_def)
  then have "r_leader r \<noteq> None \<longrightarrow> r_leader t \<noteq> None" by blast
  then show ?thesis using slot_le_trans [OF r(1) s(1)] notarized_le_trans [OF r(2) s(2)] nullified_le_trans [OF r(3) s(3)] assms by (simp add: round_le_def)
qed

lemma round_step_trans: "round_step P r s \<Longrightarrow> round_step P s t \<Longrightarrow> round_step P r t"
  unfolding round_step_def using round_le_trans by blast

lemma round_inv_new: "round_inv (round_new sch rnd now)"
  by (simp add: round_inv_def round_new_def slot_inv_new)

lemma round_step_fields:
  "round_step P r (r\<lparr>r_leader_deadline := a\<rparr>)" "round_step P r (r\<lparr>r_advance_deadline := a\<rparr>)"
  "round_step P r (r\<lparr>r_nullify_retry := a\<rparr>)" "round_step P r (r\<lparr>r_certify_handle := h\<rparr>)"
  "round_step P r (r\<lparr>r_broadcast_notarization := True\<rparr>)" "round_step P r (r\<lparr>r_broadcast_nullification := True\<rparr>)"
  "round_step P r (r\<lparr>r_broadcast_finalization := True\<rparr>)" "round_step P r (r\<lparr>r_leader := Some l\<rparr>)"
  "round_step P r (r\<lparr>r_broadcast_notarize := True\<rparr>)"
  by (simp_all add: round_step_def round_le_def round_inv_def)

lemma slot_le_inv: "slot_le P s s' \<Longrightarrow> slot_inv s \<Longrightarrow> slot_inv s'"
  by (simp add: slot_le_def)

lemma round_step_slot:
  assumes "slot_le P (r_proposal r) s"
  shows "round_step P r (r\<lparr>r_proposal := s\<rparr>)"
  using assms by (auto simp: round_step_def round_le_def round_inv_def slot_le_inv) (auto simp: slot_le_def)

lemmas round_stepI = round_step_fields round_step_slot [OF slot_le_ops(1)] round_step_slot [OF slot_le_ops(3)]
  round_step_slot [OF slot_le_ops(4)]

lemma round_step_deadlines:
  "round_step P r (round_clear_deadlines r)" "round_step P r (round_set_deadlines a b r)"
  "round_step P r (round_set_certify_handle h r)" "round_step P r (round_unset_certify_handle r)"
  "round_step P r (snd (round_next_timeout_deadline now retry r))"
  unfolding round_clear_deadlines_def round_set_deadlines_def round_set_certify_handle_def
    round_unset_certify_handle_def round_next_timeout_deadline_def
  by (auto intro: round_step_fields round_step_trans [OF round_step_fields(1)] split: option.splits)

lemma round_step_leader: "round_set_leader l r = Ok r' \<Longrightarrow> round_step P r r'"
  by (auto simp: round_set_leader_def round_step_fields split: if_splits)

lemma round_step_propose:
  "round_step P r (snd (round_try_propose r))" "round_step P r (snd (round_try_verify r))"
  by (auto simp: round_try_propose_def round_try_verify_def case_prod_beta Let_def round_stepI split: option.splits)

lemma round_step_proposed:
  "p \<in> P \<Longrightarrow> round_step P r (snd (round_proposed p r))" "round_step P r (snd (round_verified r))"
  "p \<in> P \<Longrightarrow> round_step P r (snd (round_set_proposal p r))"
proof -
  have two: "round_step P r (r\<lparr>r_proposal := s, r_leader_deadline := None\<rparr>)" if "slot_le P (r_proposal r) s" for s
    using round_step_trans [OF round_step_slot [OF that] round_step_fields(1)] .
  show "p \<in> P \<Longrightarrow> round_step P r (snd (round_proposed p r))"
    by (simp add: round_proposed_def two slot_le_ops)
  show "round_step P r (snd (round_verified r))"
    by (simp add: round_verified_def case_prod_beta Let_def two round_step_slot slot_le_ops)
  show "p \<in> P \<Longrightarrow> round_step P r (snd (round_set_proposal p r))"
    by (simp add: round_set_proposal_def case_prod_beta Let_def two round_step_slot slot_le_ops split: change.split)
qed

lemma round_step_recovered: "p \<in> P \<Longrightarrow> round_step P r (snd (round_add_recovered_proposal p r))"
  by (simp add: round_add_recovered_proposal_def case_prod_beta Let_def round_step_slot slot_le_ops split: change.split)

lemma slot_update_proposal: "slot_inv s \<Longrightarrow> slot_proposal (snd (slot_update p b s)) \<noteq> None"
  by (auto simp: slot_update_def slot_inv_def split: option.splits)

lemma recovered_proposal: "slot_inv (r_proposal r) \<Longrightarrow>
    slot_proposal (r_proposal (snd (round_add_recovered_proposal p r))) \<noteq> None"
  using slot_update_proposal [of "r_proposal r" p True]
  by (auto simp: round_add_recovered_proposal_def case_prod_beta Let_def split: change.split)

lemma recovered_fields:
  "r_notarization (snd (round_add_recovered_proposal p r)) = r_notarization r"
  "r_finalization (snd (round_add_recovered_proposal p r)) = r_finalization r"
  by (simp_all add: round_add_recovered_proposal_def case_prod_beta Let_def split: change.split)

lemma round_step_certificates:
  "nzn_proposal n \<in> P \<Longrightarrow> round_step P r (snd (round_add_notarization n r))"
  "rnd_view (nln_round m) \<in> proposal_view ` P \<Longrightarrow> round_step P r (snd (round_add_nullification m r))"
  "fzn_proposal f \<in> P \<Longrightarrow> round_step P r (snd (round_add_finalization f r))"
proof -
  let ?c = "round_clear_deadlines r"
  let ?q = "\<lambda>p. snd (round_add_recovered_proposal p ?c)"
  have q: "round_step P r (?q p)" if "p \<in> P" for p
    using round_step_trans [OF round_step_deadlines(1) round_step_recovered [OF that]] .
  have slot: "slot_proposal (r_proposal (?q p)) \<noteq> None" if "round_inv r" for p
    using recovered_proposal [of ?c p] that by (simp add: round_inv_def round_clear_deadlines_def)
  have fields: "r_notarization (?q p) = r_notarization r" "r_finalization (?q p) = r_finalization r" for p
    by (simp_all add: recovered_fields round_clear_deadlines_def)
  have n: "round_step P r (x\<lparr>r_notarization := Some n\<rparr>)"
    if "nzn_proposal n \<in> P" "round_step P r x" "r_notarization x = None" "round_inv r \<longrightarrow> slot_proposal (r_proposal x) \<noteq> None" for x
    using that round_le_trans [of P r x "x\<lparr>r_notarization := Some n\<rparr>"] by (simp add: round_step_def) (simp add: round_le_def round_inv_def)
  have f: "round_step P r (x\<lparr>r_finalization := Some f\<rparr>)"
    if "round_step P r x" "r_finalization x = None" "round_inv r \<longrightarrow> slot_proposal (r_proposal x) \<noteq> None" for x
    using that round_le_trans [of P r x "x\<lparr>r_finalization := Some f\<rparr>"] by (simp add: round_step_def) (simp add: round_le_def round_inv_def)
  show "round_step P r (snd (round_add_notarization n r))" if "nzn_proposal n \<in> P"
    using n [OF that q [OF that]] slot fields by (simp add: round_add_notarization_def case_prod_beta Let_def)
  show "round_step P r (snd (round_add_finalization f r))" if "fzn_proposal f \<in> P"
    using f [OF q [OF that]] slot fields by (simp add: round_add_finalization_def case_prod_beta Let_def)
  show "round_step P r (snd (round_add_nullification m r))" if "rnd_view (nln_round m) \<in> proposal_view ` P"
    using that by (auto simp: round_add_nullification_def round_clear_deadlines_def round_step_def round_le_def round_inv_def)
qed

lemma round_step_broadcast:
  "round_step P r (snd (round_get_broadcast_notarization r))" "round_step P r (snd (round_get_broadcast_nullification r))"
  "round_step P r (snd (round_get_broadcast_finalization r))"
  by (auto simp: round_get_broadcast_notarization_def round_get_broadcast_nullification_def
      round_get_broadcast_finalization_def round_step_fields split: option.splits)

lemma round_step_votes:
  "round_step P r (snd (round_construct_notarize r))" "round_step P r (snd (round_construct_finalize r))"
  "round_step P r (snd (round_construct_nullify r))"
  by (auto simp: round_construct_notarize_def round_construct_finalize_def round_construct_nullify_def
      round_clear_deadlines_def Let_def round_step_def round_le_def round_inv_def)

lemma round_step_certified: "round_certified b r = Ok r' \<Longrightarrow> r_notarization r \<noteq> None \<Longrightarrow> round_step P r r'"
  by (auto simp: round_certified_def round_step_def round_le_def round_inv_def split: if_splits)

lemmas round_steps = round_step_deadlines round_step_propose round_step_proposed round_step_recovered
  round_step_certificates round_step_broadcast round_step_votes

end
