(* ===== verification/Voter_State.thy ===== *)
theory Voter_State
  imports Voter_Round
begin

text \<open>
  The state of the voter (\<open>consensus/src/simplex/actors/voter/state.rs\<close>): the rounds by view, the
  current view, the last finalized view and the operations on them. The clock is a field that does
  not advance within one operation; the elector is a function from the round and the certificate of
  the previous view to a participant index; metrics are left out. A failed \<open>expect\<close> or \<open>assert\<close> and an
  overflowing view are \<open>Panic\<close>.
\<close>

definition GENESIS_VIEW :: view where
  "GENESIS_VIEW = 0"

definition min_active :: "delta \<Rightarrow> view \<Rightarrow> view" where
  "min_active activity_timeout last_finalized = view_saturating_sub last_finalized activity_timeout"

definition interesting :: "delta \<Rightarrow> view \<Rightarrow> view \<Rightarrow> view \<Rightarrow> bool \<Rightarrow> (bool, unit) result" where
  "interesting activity_timeout last_finalized current pending allow_future =
     (if pending < min_active activity_timeout last_finalized then Ok False
      else if \<not> allow_future then
        and_then (view_next current) (\<lambda>n. if pending > n then Ok False else Ok True)
      else Ok True)"

record ('d, 's, 'c, 'k) voter =
  v_clock :: nat
  v_scheme :: "('d, 's, 'k) scheme"
  v_elector :: "rnd \<Rightarrow> 'c option \<Rightarrow> nat"
  v_namespace :: bytes
  v_epoch :: epoch
  v_activity_timeout :: delta
  v_leader_timeout :: nat
  v_notarization_timeout :: nat
  v_nullify_retry :: nat
  v_view :: view
  v_last_finalized :: view
  v_genesis :: "'d option"
  v_views :: "(view, ('d, 's, 'c, 'k) round) btree"

record ('d, 's, 'c, 'k) config =
  cfg_scheme :: "('d, 's, 'k) scheme"
  cfg_elector :: "'k list \<Rightarrow> rnd \<Rightarrow> 'c option \<Rightarrow> nat"
  cfg_namespace :: bytes
  cfg_epoch :: epoch
  cfg_activity_timeout :: delta
  cfg_leader_timeout :: nat
  cfg_notarization_timeout :: nat
  cfg_nullify_retry :: nat

definition voter_new :: "nat \<Rightarrow> ('d, 's, 'c, 'k) config \<Rightarrow> ('d, 's, 'c, 'k) voter" where
  "voter_new now cfg =
     \<lparr>v_clock = now, v_scheme = cfg_scheme cfg,
      v_elector = cfg_elector cfg (scheme_participants (cfg_scheme cfg)),
      v_namespace = cfg_namespace cfg, v_epoch = cfg_epoch cfg,
      v_activity_timeout = cfg_activity_timeout cfg, v_leader_timeout = cfg_leader_timeout cfg,
      v_notarization_timeout = cfg_notarization_timeout cfg, v_nullify_retry = cfg_nullify_retry cfg,
      v_view = GENESIS_VIEW, v_last_finalized = GENESIS_VIEW, v_genesis = None, v_views = []\<rparr>"

definition voter_min_active :: "('d, 's, 'c, 'k) voter \<Rightarrow> view" where
  "voter_min_active s = min_active (v_activity_timeout s) (v_last_finalized s)"

definition voter_is_interesting :: "('d, 's, 'c, 'k) voter \<Rightarrow> view \<Rightarrow> bool \<Rightarrow> (bool, unit) result" where
  "voter_is_interesting s pending allow_future =
     interesting (v_activity_timeout s) (v_last_finalized s) (v_view s) pending allow_future"

definition voter_is_me :: "('d, 's, 'c, 'k) voter \<Rightarrow> nat \<Rightarrow> bool" where
  "voter_is_me s idx \<longleftrightarrow> scheme_me (v_scheme s) = Some idx"

text \<open>The update of a round in place.\<close>

definition put_round :: "view \<Rightarrow> ('d, 's, 'c, 'k) round \<Rightarrow> ('d, 's, 'c, 'k) voter \<Rightarrow> ('d, 's, 'c, 'k) voter" where
  "put_round view r s = s\<lparr>v_views := bt_insert view r (v_views s)\<rparr>"

definition create_round ::
  "view \<Rightarrow> ('d, 's, 'c, 'k) voter \<Rightarrow> ('d, 's, 'c, 'k) round \<times> ('d, 's, 'c, 'k) voter" where
  "create_round view s =
     (case bt_get (v_views s) view of
        Some r \<Rightarrow> (r, s)
      | None \<Rightarrow> let r = round_new (v_scheme s) (Rnd (v_epoch s) view) (v_clock s)
                in (r, put_round view r s))"

definition enter_view :: "view \<Rightarrow> ('d, 's, 'c, 'k) voter \<Rightarrow> bool \<times> ('d, 's, 'c, 'k) voter" where
  "enter_view view s =
     (if view \<le> v_view s then (False, s)
      else let now = v_clock s;
               leader_deadline = now + v_leader_timeout s;
               advance_deadline = now + v_notarization_timeout s;
               (r, s1) = create_round view s;
               s2 = put_round view (round_set_deadlines leader_deadline advance_deadline r) s1
           in (True, s2\<lparr>v_view := view\<rparr>))"

definition set_leader ::
  "view \<Rightarrow> 'c option \<Rightarrow> ('d, 's, 'c, 'k) voter \<Rightarrow> (('d, 's, 'c, 'k) voter, unit) result" where
  "set_leader view cert s =
     (let leader = v_elector s (Rnd (v_epoch s) view) cert;
          (r, s1) = create_round view s
      in if r_leader r \<noteq> None then Ok s1
         else and_then (round_set_leader leader r) (\<lambda>r1. Ok (put_round view r1 s1)))"

definition set_genesis :: "'d \<Rightarrow> ('d, 's, 'c, 'k) voter \<Rightarrow> (('d, 's, 'c, 'k) voter, unit) result" where
  "set_genesis genesis s =
     and_then (view_next GENESIS_VIEW) (\<lambda>first.
       let (_, s1) = enter_view first (s\<lparr>v_genesis := Some genesis\<rparr>)
       in set_leader first None s1)"

definition voter_next_timeout_deadline :: "('d, 's, 'c, 'k) voter \<Rightarrow> nat \<times> ('d, 's, 'c, 'k) voter" where
  "voter_next_timeout_deadline s =
     (let (r, s1) = create_round (v_view s) s;
          (deadline, r1) = round_next_timeout_deadline (v_clock s) (v_nullify_retry s) r
      in (deadline, put_round (v_view s) r1 s1))"

definition notarize_sign ::
  "('d, 's, 'k) scheme \<Rightarrow> bytes \<Rightarrow> 'd proposal \<Rightarrow> ('d, 's) notarize option" where
  "notarize_sign scheme namespace proposal =
     map_option (\<lambda>a. \<lparr>nz_proposal = proposal, nz_attestation = a\<rparr>) (scheme_sign scheme namespace (SNotarize proposal))"

definition nullify_sign :: "('d, 's, 'k) scheme \<Rightarrow> bytes \<Rightarrow> rnd \<Rightarrow> 's nullify option" where
  "nullify_sign scheme namespace r =
     map_option (\<lambda>a. \<lparr>nl_round = r, nl_attestation = a\<rparr>) (scheme_sign scheme namespace (SNullify r))"

definition finalize_sign ::
  "('d, 's, 'k) scheme \<Rightarrow> bytes \<Rightarrow> 'd proposal \<Rightarrow> ('d, 's) finalize option" where
  "finalize_sign scheme namespace proposal =
     map_option (\<lambda>a. \<lparr>fz_proposal = proposal, fz_attestation = a\<rparr>) (scheme_sign scheme namespace (SFinalize proposal))"

definition voter_notarization :: "('d, 's, 'c, 'k) voter \<Rightarrow> view \<Rightarrow> ('d, 'c) notarization option" where
  "voter_notarization s view = Option.bind (bt_get (v_views s) view) r_notarization"

definition voter_nullification :: "('d, 's, 'c, 'k) voter \<Rightarrow> view \<Rightarrow> 'c nullification option" where
  "voter_nullification s view = Option.bind (bt_get (v_views s) view) r_nullification"

definition voter_finalization :: "('d, 's, 'c, 'k) voter \<Rightarrow> view \<Rightarrow> ('d, 'c) finalization option" where
  "voter_finalization s view = Option.bind (bt_get (v_views s) view) r_finalization"

definition voter_handle_timeout ::
  "('d, 's, 'c, 'k) voter \<Rightarrow>
   (bool \<times> 's nullify option \<times> ('d, 'c) certificate option) \<times> ('d, 's, 'c, 'k) voter" where
  "voter_handle_timeout s =
     (let view = v_view s; (r, s1) = create_round view s; (res, r1) = round_construct_nullify r;
          s2 = put_round view r1 s1
      in case res of
           None \<Rightarrow> ((False, None, None), s2)
         | Some retry \<Rightarrow>
             let nullify = nullify_sign (v_scheme s2) (v_namespace s2) (Rnd (v_epoch s2) view);
                 entry_view = (case view_previous view of Some v \<Rightarrow> v | None \<Rightarrow> GENESIS_VIEW)
             in if \<not> retry \<or> entry_view = GENESIS_VIEW then ((retry, nullify, None), s2)
                else
                  let cert =
                    (case voter_finalization s2 entry_view of
                       Some f \<Rightarrow> Some (CFinalization f)
                     | None \<Rightarrow>
                         (case voter_nullification s2 entry_view of
                            Some n \<Rightarrow> Some (CNullification n)
                          | None \<Rightarrow>
                              (case voter_notarization s2 entry_view of
                                 Some n \<Rightarrow> Some (CNotarization n)
                               | None \<Rightarrow> None)))
                  in ((retry, nullify, cert), s2))"

definition voter_add_notarization ::
  "('d, 'c) notarization \<Rightarrow> ('d, 's, 'c, 'k) voter \<Rightarrow> ((bool \<times> 'k option) \<times> ('d, 's, 'c, 'k) voter, unit) result" where
  "voter_add_notarization notarization s =
     (let view = proposal_view (nzn_proposal notarization) in
      and_then (view_next view) (\<lambda>next.
      and_then (set_leader next (Some (nzn_certificate notarization)) s) (\<lambda>s1.
        let (r, s2) = create_round view s1; (res, r1) = round_add_notarization notarization r
        in Ok (res, put_round view r1 s2))))"

definition voter_add_nullification ::
  "'c nullification \<Rightarrow> ('d, 's, 'c, 'k) voter \<Rightarrow> (bool \<times> ('d, 's, 'c, 'k) voter, unit) result" where
  "voter_add_nullification nullification s =
     (let view = rnd_view (nln_round nullification) in
      and_then (view_next view) (\<lambda>next.
        let (_, s1) = enter_view next s in
      and_then (set_leader next (Some (nln_certificate nullification)) s1) (\<lambda>s2.
        let (r, s3) = create_round view s2; (res, r1) = round_add_nullification nullification r
        in Ok (res, put_round view r1 s3))))"

definition voter_add_finalization ::
  "('d, 'c) finalization \<Rightarrow> ('d, 's, 'c, 'k) voter \<Rightarrow> ((bool \<times> 'k option) \<times> ('d, 's, 'c, 'k) voter, unit) result" where
  "voter_add_finalization finalization s =
     (let view = proposal_view (fzn_proposal finalization);
          s0 = (if view > v_last_finalized s then s\<lparr>v_last_finalized := view\<rparr> else s) in
      and_then (view_next view) (\<lambda>next.
        let (_, s1) = enter_view next s0 in
      and_then (set_leader next (Some (fzn_certificate finalization)) s1) (\<lambda>s2.
        let (r, s3) = create_round view s2; (res, r1) = round_add_finalization finalization r
        in Ok (res, put_round view r1 s3))))"

definition voter_construct_notarize ::
  "view \<Rightarrow> ('d, 's, 'c, 'k) voter \<Rightarrow> ('d, 's) notarize option \<times> ('d, 's, 'c, 'k) voter" where
  "voter_construct_notarize view s =
     (case bt_get (v_views s) view of
        None \<Rightarrow> (None, s)
      | Some r \<Rightarrow>
          let (res, r1) = round_construct_notarize r; s1 = put_round view r1 s
          in case res of None \<Rightarrow> (None, s1)
             | Some candidate \<Rightarrow> (notarize_sign (v_scheme s1) (v_namespace s1) candidate, s1))"

definition voter_construct_finalize ::
  "view \<Rightarrow> ('d, 's, 'c, 'k) voter \<Rightarrow> ('d, 's) finalize option \<times> ('d, 's, 'c, 'k) voter" where
  "voter_construct_finalize view s =
     (case bt_get (v_views s) view of
        None \<Rightarrow> (None, s)
      | Some r \<Rightarrow>
          let (res, r1) = round_construct_finalize r; s1 = put_round view r1 s
          in case res of None \<Rightarrow> (None, s1)
             | Some candidate \<Rightarrow> (finalize_sign (v_scheme s1) (v_namespace s1) candidate, s1))"

definition voter_broadcast_notarization ::
  "view \<Rightarrow> ('d, 's, 'c, 'k) voter \<Rightarrow> ('d, 'c) notarization option \<times> ('d, 's, 'c, 'k) voter" where
  "voter_broadcast_notarization view s =
     (case bt_get (v_views s) view of
        None \<Rightarrow> (None, s)
      | Some r \<Rightarrow> let (res, r1) = round_get_broadcast_notarization r in (res, put_round view r1 s))"

definition voter_broadcast_nullification ::
  "view \<Rightarrow> ('d, 's, 'c, 'k) voter \<Rightarrow> 'c nullification option \<times> ('d, 's, 'c, 'k) voter" where
  "voter_broadcast_nullification view s =
     (case bt_get (v_views s) view of
        None \<Rightarrow> (None, s)
      | Some r \<Rightarrow> let (res, r1) = round_get_broadcast_nullification r in (res, put_round view r1 s))"

definition voter_broadcast_finalization ::
  "view \<Rightarrow> ('d, 's, 'c, 'k) voter \<Rightarrow> ('d, 'c) finalization option \<times> ('d, 's, 'c, 'k) voter" where
  "voter_broadcast_finalization view s =
     (case bt_get (v_views s) view of
        None \<Rightarrow> (None, s)
      | Some r \<Rightarrow> let (res, r1) = round_get_broadcast_finalization r in (res, put_round view r1 s))"

definition voter_replay ::
  "('d, 's, 'c) artifact \<Rightarrow> ('d, 's, 'c, 'k) voter \<Rightarrow> (('d, 's, 'c, 'k) voter, unit) result" where
  "voter_replay artifact s =
     (let view = artifact_view artifact; (r, s1) = create_round view s
      in and_then (round_replay artifact r) (\<lambda>r1. Ok (put_round view r1 s1)))"

definition voter_leader_index :: "('d, 's, 'c, 'k) voter \<Rightarrow> view \<Rightarrow> nat option" where
  "voter_leader_index s view = Option.bind (bt_get (v_views s) view) (\<lambda>r. map_option leader_idx (r_leader r))"

definition voter_elapsed_since_start :: "('d, 's, 'c, 'k) voter \<Rightarrow> view \<Rightarrow> nat option" where
  "voter_elapsed_since_start s view =
     map_option (\<lambda>r. round_elapsed_since_start r (v_clock s)) (bt_get (v_views s) view)"

definition voter_expire_round :: "view \<Rightarrow> ('d, 's, 'c, 'k) voter \<Rightarrow> ('d, 's, 'c, 'k) voter" where
  "voter_expire_round view s =
     (let (r, s1) = create_round view s
      in put_round view (round_set_deadlines (v_clock s) (v_clock s) r) s1)"

definition voter_is_certified :: "('d, 's, 'c, 'k) voter \<Rightarrow> view \<Rightarrow> ('d option, unit) result" where
  "voter_is_certified s view =
     (if view = GENESIS_VIEW then
        (case v_genesis s of Some d \<Rightarrow> Ok (Some d) | None \<Rightarrow> Panic)
      else case bt_get (v_views s) view of
        None \<Rightarrow> Ok None
      | Some r \<Rightarrow>
          if r_finalization r \<noteq> None \<or> round_is_certified r then
            (case slot_proposal (r_proposal r) of Some p \<Rightarrow> Ok (Some (payload p)) | None \<Rightarrow> Panic)
          else Ok None)"

definition voter_is_nullified :: "('d, 's, 'c, 'k) voter \<Rightarrow> view \<Rightarrow> bool" where
  "voter_is_nullified s view \<longleftrightarrow>
     (if view = GENESIS_VIEW then False
      else case bt_get (v_views s) view of Some r \<Rightarrow> r_nullification r \<noteq> None | None \<Rightarrow> False)"

text \<open>The loop of \<open>find_parent\<close>; \<open>Err\<close> is the view whose certificate is missing.\<close>

function find_parent_loop :: "('d, 's, 'c, 'k) voter \<Rightarrow> view \<Rightarrow> (view \<times> 'd, view) result" where
  "find_parent_loop s cursor =
     (case voter_is_certified s cursor  of
        Ok (Some parent) \<Rightarrow> Ok (cursor, parent)
      | Ok None \<Rightarrow>
          if \<not> voter_is_nullified s cursor then Err cursor
          else (case view_previous cursor of None \<Rightarrow> Panic | Some c \<Rightarrow> find_parent_loop s c)
      | _ \<Rightarrow> Panic)"
  by pat_completeness auto
termination
  by (relation "measure snd") (auto simp: view_previous_def split: if_splits)

declare find_parent_loop.simps [simp del]

definition find_parent :: "('d, 's, 'c, 'k) voter \<Rightarrow> view \<Rightarrow> (view \<times> 'd, view) result" where
  "find_parent s view =
     find_parent_loop s (case view_previous view of Some v \<Rightarrow> v | None \<Rightarrow> GENESIS_VIEW)"

definition parent_payload :: "('d, 's, 'c, 'k) voter \<Rightarrow> 'd proposal \<Rightarrow> ('d option, unit) result" where
  "parent_payload s proposal =
     (let view = proposal_view proposal; parent = prop_parent proposal in
      if view \<le> parent then Ok None
      else if parent < v_last_finalized s then Ok None
      else and_then (view_next parent) (\<lambda>start.
        if \<not> list_all (voter_is_nullified s) (view_range_list (view_range_new start view)) then Ok None
        else voter_is_certified s parent))"

definition voter_parent_certificate :: "('d, 's, 'c, 'k) voter \<Rightarrow> view \<Rightarrow> ('d, 'c) certificate option" where
  "voter_parent_certificate s view =
     (case Option.bind (bt_get (v_views s) view) (\<lambda>r. slot_proposal (r_proposal r)) of
        None \<Rightarrow> None
      | Some p \<Rightarrow>
          (case bt_get (v_views s) (prop_parent p) of
             None \<Rightarrow> None
           | Some parent \<Rightarrow>
               (case r_finalization parent of
                  Some f \<Rightarrow> Some (CFinalization f)
                | None \<Rightarrow> map_option CNotarization (r_notarization parent))))"

definition voter_try_propose ::
  "('d, 's, 'c, 'k) voter \<Rightarrow> (('d, 'k) block_context option \<times> ('d, 's, 'c, 'k) voter, unit) result" where
  "voter_try_propose s =
     (let view = v_view s in
      if view = GENESIS_VIEW then Ok (None, s)
      else case bt_get (v_views s) view of
        None \<Rightarrow> Panic
      | Some r \<Rightarrow>
          if \<not> round_should_propose r then Ok (None, s)
          else case find_parent s view of
            Panic \<Rightarrow> Panic
          | Err missing \<Rightarrow> Ok (None, s)
          | Ok parent \<Rightarrow>
              let (leader, r1) = round_try_propose r; s1 = put_round view r1 s
              in case leader of
                   None \<Rightarrow> Ok (None, s1)
                 | Some l \<Rightarrow> Ok (Some \<lparr>ctx_round = Rnd (v_epoch s) view, ctx_leader = leader_key l, ctx_parent = parent\<rparr>, s1))"

definition voter_proposed :: "'d proposal \<Rightarrow> ('d, 's, 'c, 'k) voter \<Rightarrow> bool \<times> ('d, 's, 'c, 'k) voter" where
  "voter_proposed proposal s =
     (case bt_get (v_views s) (proposal_view proposal) of
        None \<Rightarrow> (False, s)
      | Some r \<Rightarrow> let (b, r1) = round_proposed proposal r in (b, put_round (proposal_view proposal) r1 s))"

definition voter_set_proposal ::
  "view \<Rightarrow> 'd proposal \<Rightarrow> ('d, 's, 'c, 'k) voter \<Rightarrow> bool \<times> ('d, 's, 'c, 'k) voter" where
  "voter_set_proposal view proposal s =
     (let (r, s1) = create_round view s; (b, r1) = round_set_proposal proposal r
      in (b, put_round view r1 s1))"

definition voter_try_verify ::
  "('d, 's, 'c, 'k) voter \<Rightarrow>
   ((('d, 'k) block_context \<times> 'd proposal) option \<times> ('d, 's, 'c, 'k) voter, unit) result" where
  "voter_try_verify s =
     (let view = v_view s in
      case bt_get (v_views s) view of
        None \<Rightarrow> Ok (None, s)
      | Some r \<Rightarrow>
          (case round_should_verify r of
             None \<Rightarrow> Ok (None, s)
           | Some (leader, proposal) \<Rightarrow>
               and_then (parent_payload s proposal) (\<lambda>o'.
                 case o' of
                   None \<Rightarrow> Ok (None, s)
                 | Some parent \<Rightarrow>
                     let (b, r1) = round_try_verify r; s1 = put_round view r1 s
                     in if \<not> b then Ok (None, s1)
                        else Ok (Some (\<lparr>ctx_round = prop_round proposal, ctx_leader = leader_key leader,
                               ctx_parent = (prop_parent proposal, parent)\<rparr>, proposal), s1))))"

definition voter_verified :: "view \<Rightarrow> ('d, 's, 'c, 'k) voter \<Rightarrow> bool \<times> ('d, 's, 'c, 'k) voter" where
  "voter_verified view s =
     (case bt_get (v_views s) view of
        None \<Rightarrow> (False, s)
      | Some r \<Rightarrow> let (b, r1) = round_verified r in (b, put_round view r1 s))"

definition voter_try_certify :: "('d, 's, 'c, 'k) voter \<Rightarrow> view \<Rightarrow> 'd proposal certify_result" where
  "voter_try_certify s view =
     (case bt_get (v_views s) view of None \<Rightarrow> Skip | Some r \<Rightarrow> round_should_certify r)"

definition voter_set_certify_handle :: "view \<Rightarrow> nat \<Rightarrow> ('d, 's, 'c, 'k) voter \<Rightarrow> ('d, 's, 'c, 'k) voter" where
  "voter_set_certify_handle view handle s =
     (case bt_get (v_views s) view of None \<Rightarrow> s | Some r \<Rightarrow> put_round view (round_set_certify_handle handle r) s)"

definition voter_retry_certification :: "view \<Rightarrow> ('d, 's, 'c, 'k) voter \<Rightarrow> ('d, 's, 'c, 'k) voter" where
  "voter_retry_certification view s =
     (case bt_get (v_views s) view of None \<Rightarrow> s | Some r \<Rightarrow> put_round view (round_unset_certify_handle r) s)"

definition voter_certified ::
  "view \<Rightarrow> bool \<Rightarrow> ('d, 's, 'c, 'k) voter \<Rightarrow> (('d, 'c) notarization option \<times> ('d, 's, 'c, 'k) voter, unit) result" where
  "voter_certified view is_success s =
     (case bt_get (v_views s) view of
        None \<Rightarrow> Ok (None, s)
      | Some r \<Rightarrow>
          and_then (round_certified is_success r) (\<lambda>r1.
            let s1 = put_round view r1 s in
            case r_notarization r1 of
              None \<Rightarrow> Panic
            | Some notarization \<Rightarrow>
                if is_success then
                  and_then (view_next view) (\<lambda>next. Ok (Some notarization, snd (enter_view next s1)))
                else Ok (Some notarization, voter_expire_round view s1)))"

definition voter_prune :: "('d, 's, 'c, 'k) voter \<Rightarrow> view list \<times> ('d, 's, 'c, 'k) voter" where
  "voter_prune s =
     (let (removed, kept) = bt_split_off (voter_min_active s) (v_views s)
      in (map fst removed, s\<lparr>v_views := kept\<rparr>))"

section \<open>How the state grows\<close>

text \<open>
  \<open>voter_grows V s s'\<close>: the configuration is kept, the current and the last finalized view only
  advance, every round moves forward, and the rounds that are new belong to the views in \<open>V\<close>.
\<close>

text \<open>The proposals of a view, and the round of the current view.\<close>

definition of_view :: "view \<Rightarrow> 'd proposal set" where
  "of_view v = {p. proposal_view p = v}"

definition round_at :: "view \<Rightarrow> ('d, 's, 'c, 'k) round \<Rightarrow> bool" where
  "round_at v r \<longleftrightarrow> round_inv r \<and> (\<forall>p. slot_proposal (r_proposal r) = Some p \<longrightarrow> proposal_view p = v)
     \<and> (\<forall>n. r_notarization r = Some n \<longrightarrow> proposal_view (nzn_proposal n) = v)"

definition round_of :: "('d, 's, 'c, 'k) voter \<Rightarrow> view \<Rightarrow> ('d, 's, 'c, 'k) round \<Rightarrow> bool" where
  "round_of s v r \<longleftrightarrow> round_at v r \<and> r_scheme r = v_scheme s \<and> r_round r = Rnd (v_epoch s) v"

definition null_at :: "view \<Rightarrow> ('d, 's, 'c, 'k) round \<Rightarrow> bool" where
  "null_at v r \<longleftrightarrow> (\<forall>n. r_nullification r = Some n \<longrightarrow> rnd_view (nln_round n) = v)"

definition has_current :: "('d, 's, 'c, 'k) voter \<Rightarrow> bool" where
  "has_current s \<longleftrightarrow> bt_get (v_views s) (v_view s) \<noteq> None"

definition voter_grows :: "view set \<Rightarrow> ('d, 's, 'c, 'k) voter \<Rightarrow> ('d, 's, 'c, 'k) voter \<Rightarrow> bool" where
  "voter_grows V s s' \<longleftrightarrow>
     v_scheme s' = v_scheme s \<and> v_epoch s' = v_epoch s \<and> v_elector s' = v_elector s
     \<and> v_namespace s' = v_namespace s \<and> v_activity_timeout s' = v_activity_timeout s
     \<and> v_genesis s' = v_genesis s
     \<and> v_view s \<le> v_view s' \<and> v_last_finalized s \<le> v_last_finalized s'
     \<and> (bt_inv (v_views s) \<longrightarrow> bt_inv (v_views s'))
     \<and> (\<forall>v r. bt_get (v_views s) v = Some r \<longrightarrow> (\<exists>r'. bt_get (v_views s') v = Some r' \<and> round_step (of_view v) r r'))
     \<and> (\<forall>v r'. bt_get (v_views s) v = None \<longrightarrow> bt_get (v_views s') v = Some r' \<longrightarrow> v \<in> V \<and> round_of s v r' \<and> null_at v r')
     \<and> (has_current s \<longrightarrow> has_current s')"

lemma round_step_at: "round_step (of_view v) r r' \<Longrightarrow> round_at v r \<Longrightarrow> round_at v r'"
proof -
  assume s: "round_step (of_view v) r r'" and a: "round_at v r"
  from s have "slot_le (of_view v) (r_proposal r) (r_proposal r')" "round_inv r \<longrightarrow> round_inv r'"
    by (simp_all add: round_step_def round_le_def)
  then have "\<forall>p. slot_proposal (r_proposal r') = Some p \<longrightarrow> slot_proposal (r_proposal r) = Some p \<or> proposal_view p = v"
    by (simp add: slot_le_def of_view_def)
  moreover have "\<forall>n. r_notarization r' = Some n \<longrightarrow> r_notarization r = Some n \<or> proposal_view (nzn_proposal n) = v"
    using s by (simp add: round_step_def round_le_def notarized_le_def of_view_def)
  ultimately show "round_at v r'" using a \<open>round_inv r \<longrightarrow> round_inv r'\<close> unfolding round_at_def by blast
qed

lemma round_of_step: "round_step (of_view v) r r' \<Longrightarrow> round_of s v r \<Longrightarrow> round_of s v r'"
  using round_step_at [of v r r'] by (simp add: round_of_def round_step_def round_le_def)

lemma null_at_step:
  fixes r r' :: "('d, 's, 'c, 'k) round"
  assumes "round_step (of_view v) r r'" "null_at v r"
  shows "null_at v r'"
proof -
  have n: "nullified_le (of_view v :: 'd proposal set) (r_nullification r) (r_nullification r')" using assms(1) by (simp add: round_step_def round_le_def)
  show ?thesis unfolding null_at_def
  proof (intro allI impI)
    fix x assume "r_nullification r' = Some x"
    then have "r_nullification r = Some x \<or> rnd_view (nln_round x) \<in> proposal_view ` (of_view v :: 'd proposal set)" using n by (simp add: nullified_le_def)
    then show "rnd_view (nln_round x) = v" using assms(2) by (auto simp: null_at_def of_view_def)
  qed
qed

lemma null_at_new: "null_at v (round_new sch rnd now)"
  by (simp add: null_at_def round_new_def)

lemma of_view_image: "v \<in> proposal_view ` of_view v"
  by (rule image_eqI [of _ _ "\<lparr>prop_round = Rnd 0 v, prop_parent = 0, payload = undefined\<rparr>"]) (simp_all add: of_view_def proposal_view_def)

lemma round_at_new: "round_at v (round_new sch rnd now)"
  by (simp add: round_at_def round_inv_new) (simp add: round_new_def slot_new_def)

lemma round_of_new: "round_of s v (round_new (v_scheme s) (Rnd (v_epoch s) v) now)"
  by (simp add: round_of_def round_at_new) (simp add: round_new_def)

lemma round_of_cong: "v_scheme s' = v_scheme s \<Longrightarrow> v_epoch s' = v_epoch s \<Longrightarrow> round_of s' = round_of s"
  by (simp add: round_of_def fun_eq_iff)

lemma voter_grows_refl [simp]: "voter_grows V s s"
  by (auto simp: voter_grows_def intro: round_step_refl)

lemma voter_grows_mono: "voter_grows V s s' \<Longrightarrow> V \<subseteq> W \<Longrightarrow> voter_grows W s s'"
  unfolding voter_grows_def by blast

lemma voter_grows_old:
  "voter_grows V s s' \<Longrightarrow> bt_get (v_views s) v = Some r \<Longrightarrow>
    \<exists>r'. bt_get (v_views s') v = Some r' \<and> round_step (of_view v) r r'"
  by (simp add: voter_grows_def)

lemma voter_grows_new:
  "voter_grows V s s' \<Longrightarrow> bt_get (v_views s) v = None \<Longrightarrow> bt_get (v_views s') v = Some r' \<Longrightarrow> v \<in> V \<and> round_of s v r' \<and> null_at v r'"
  by (simp add: voter_grows_def)

lemma voter_grows_trans:
  assumes "voter_grows V s t" "voter_grows W t u"
  shows "voter_grows (V \<union> W) s u"
proof -
  have cong: "round_of t = round_of s" using assms(1) by (intro round_of_cong) (simp_all add: voter_grows_def)
  have "\<exists>r'. bt_get (v_views u) v = Some r' \<and> round_step (of_view v) r r'" if "bt_get (v_views s) v = Some r" for v r
    using voter_grows_old [OF assms(1) that] voter_grows_old [OF assms(2)] round_step_trans by blast
  moreover have "v \<in> V \<union> W \<and> round_of s v r' \<and> null_at v r'" if n: "bt_get (v_views s) v = None" "bt_get (v_views u) v = Some r'" for v r'
  proof (cases "bt_get (v_views t) v")
    case None
    then show ?thesis using voter_grows_new [OF assms(2) _ n(2)] cong by auto
  next
    case (Some q)
    then show ?thesis using voter_grows_new [OF assms(1) n(1) Some] voter_grows_old [OF assms(2) Some] n(2)
      using round_of_step null_at_step by fastforce
  qed
  ultimately show ?thesis using assms by (simp add: voter_grows_def)
qed

definition nulls :: "('d, 's, 'c, 'k) voter \<Rightarrow> bool" where
  "nulls s \<longleftrightarrow> (\<forall>v r. bt_get (v_views s) v = Some r \<longrightarrow> null_at v r)"

lemma nulls_grows:
  assumes "nulls s" "voter_grows V s s'"
  shows "nulls s'"
  unfolding nulls_def
proof (intro allI impI)
  fix v r' assume r': "bt_get (v_views s') v = Some r'"
  show "null_at v r'"
  proof (cases "bt_get (v_views s) v")
    case None
    then show ?thesis using voter_grows_new [OF assms(2) None r'] by simp
  next
    case (Some r)
    then show ?thesis using voter_grows_old [OF assms(2) Some] r' assms(1) null_at_step by (fastforce simp: nulls_def)
  qed
qed

lemma voter_grows_put:
  assumes "bt_get (v_views s) v = Some r" "round_step (of_view v) r r'"
  shows "voter_grows V s (put_round v r' s)"
  using assms by (auto simp: voter_grows_def put_round_def bt_get_insert bt_inv_insert has_current_def)

lemma create_round_get: "bt_get (v_views (snd (create_round v s))) v = Some (fst (create_round v s))"
  by (auto simp: create_round_def put_round_def Let_def bt_get_insert split: option.split)

lemma create_round_old: "bt_get (v_views s) v = Some r \<Longrightarrow> create_round v s = (r, s)"
  by (simp add: create_round_def)

lemma voter_grows_create: "voter_grows {v} s (snd (create_round v s))"
  by (auto simp: voter_grows_def create_round_def put_round_def Let_def bt_get_insert bt_inv_insert round_of_new null_at_new has_current_def
      split: option.split if_splits)

lemma voter_grows_with:
  assumes "round_step (of_view v) (fst (create_round v s)) r'"
  shows "voter_grows {v} s (put_round v r' (snd (create_round v s)))"
  using voter_grows_trans [OF voter_grows_create voter_grows_put [OF create_round_get assms, of "{v}"]] by simp

lemma voter_grows_view:
  assumes "voter_grows V s t" "v_view t \<le> w" "bt_get (v_views t) w \<noteq> None"
  shows "voter_grows V s (t\<lparr>v_view := w\<rparr>)"
  using assms by (auto simp: voter_grows_def has_current_def)

lemma voter_grows_finalized: "v_last_finalized s \<le> w \<Longrightarrow> voter_grows V s (s\<lparr>v_last_finalized := w\<rparr>)"
  by (auto simp: voter_grows_def has_current_def intro: round_step_refl)

section \<open>Every operation grows the state\<close>

lemma grows_enter_view: "voter_grows {w} s (snd (enter_view w s))"
proof (cases "w \<le> v_view s")
  case False
  let ?s2 = "put_round w (round_set_deadlines (v_clock s + v_leader_timeout s) (v_clock s + v_notarization_timeout s)
    (fst (create_round w s))) (snd (create_round w s))"
  have g: "voter_grows {w} s ?s2" by (rule voter_grows_with [OF round_step_deadlines(2)])
  have "v_view ?s2 = v_view s" by (simp add: put_round_def create_round_def Let_def split: option.split)
  moreover have "bt_get (v_views ?s2) w \<noteq> None" by (simp add: put_round_def bt_get_insert)
  ultimately have "voter_grows {w} s (?s2\<lparr>v_view := w\<rparr>)" using False by (intro voter_grows_view [OF g]) auto
  then show ?thesis using False by (simp add: enter_view_def Let_def case_prod_beta)
qed (simp add: enter_view_def)

lemma enter_view_view: "v_view (snd (enter_view w s)) = max w (v_view s)"
  by (auto simp: enter_view_def Let_def case_prod_beta)

lemma enter_view_finalized: "v_last_finalized (snd (enter_view w s)) = v_last_finalized s"
  by (auto simp: enter_view_def Let_def case_prod_beta put_round_def create_round_def split: option.split)

lemma grows_set_leader: "set_leader w c s = Ok s' \<Longrightarrow> voter_grows {w} s s'"
proof -
  assume a: "set_leader w c s = Ok s'"
  show ?thesis
  proof (cases "r_leader (fst (create_round w s)) = None")
    case True
    then obtain r1 where "round_step (of_view w) (fst (create_round w s)) r1" "s' = put_round w r1 (snd (create_round w s))"
      using a by (auto simp: set_leader_def Let_def case_prod_beta result_simps dest!: round_step_leader [where P = "of_view w"])
    then show ?thesis using voter_grows_with by blast
  next
    case False
    then have "s' = snd (create_round w s)" using a by (auto simp: set_leader_def Let_def case_prod_beta)
    then show ?thesis using voter_grows_create by blast
  qed
qed

lemma set_leader_finalized: "set_leader w c s = Ok s' \<Longrightarrow> v_last_finalized s' = v_last_finalized s"
  by (auto simp: set_leader_def Let_def case_prod_beta result_simps put_round_def create_round_def
      split: option.splits if_splits)

lemma set_leader_both:
  "set_leader w c s = Ok s' \<Longrightarrow> voter_grows {w} s s' \<and> v_last_finalized s' = v_last_finalized s"
  by (simp add: grows_set_leader set_leader_finalized)

lemma grows_simple:
  "voter_grows {v_view s} s (snd (voter_next_timeout_deadline s))"
  "voter_grows {v_view s} s (snd (voter_handle_timeout s))"
  "voter_grows {w} s (voter_expire_round w s)"
  "proposal_view p = w \<Longrightarrow> voter_grows {w} s (snd (voter_set_proposal w p s))"
  by (auto simp: voter_next_timeout_deadline_def voter_handle_timeout_def voter_expire_round_def voter_set_proposal_def
      case_prod_beta Let_def of_view_def intro!: voter_grows_with round_steps split: option.split)

lemma grows_get:
  "voter_grows {} s (snd (voter_construct_notarize w s))" "voter_grows {} s (snd (voter_construct_finalize w s))"
  "voter_grows {} s (snd (voter_broadcast_notarization w s))" "voter_grows {} s (snd (voter_broadcast_nullification w s))"
  "voter_grows {} s (snd (voter_broadcast_finalization w s))" "voter_grows {} s (snd (voter_proposed p s))"
  "voter_grows {} s (snd (voter_verified w s))" "voter_grows {} s (voter_set_certify_handle w h s)"
  "voter_grows {} s (voter_retry_certification w s)"
  by (auto simp: voter_construct_notarize_def voter_construct_finalize_def voter_broadcast_notarization_def
      voter_broadcast_nullification_def voter_broadcast_finalization_def voter_proposed_def voter_verified_def
      voter_set_certify_handle_def voter_retry_certification_def
      case_prod_beta Let_def of_view_def intro!: voter_grows_put round_steps split: option.split)

lemma grows_try_propose: "voter_try_propose s = Ok (c, s') \<Longrightarrow> voter_grows {} s s'"
  by (auto simp: voter_try_propose_def case_prod_beta Let_def intro!: voter_grows_put round_steps
      split: option.splits if_splits result.splits)

lemma grows_try_verify: "voter_try_verify s = Ok (c, s') \<Longrightarrow> voter_grows {} s s'"
  by (auto simp: voter_try_verify_def case_prod_beta Let_def result_simps intro!: voter_grows_put round_steps
      split: option.splits if_splits)


lemma grows_add_notarization:
  assumes "voter_add_notarization n s = Ok (b, s')"
  shows "voter_grows {proposal_view (nzn_proposal n), proposal_view (nzn_proposal n) + 1} s s'"
proof -
  let ?w = "proposal_view (nzn_proposal n)"
  obtain s1 where s1: "voter_grows {?w + 1} s s1"
    and s': "s' = put_round ?w (snd (round_add_notarization n (fst (create_round ?w s1)))) (snd (create_round ?w s1))"
    using assms by (auto simp: voter_add_notarization_def Let_def case_prod_beta result_simps view_next_eq_Ok
        dest!: grows_set_leader)
  have "voter_grows {?w} s1 s'" unfolding s' by (rule voter_grows_with [OF round_step_certificates(1)]) (simp add: of_view_def)
  from voter_grows_trans [OF s1 this] show ?thesis by (simp add: insert_commute)
qed

lemma grows_add_nullification:
  assumes "voter_add_nullification n s = Ok (b, s')"
  shows "voter_grows {rnd_view (nln_round n), rnd_view (nln_round n) + 1} s s'
    \<and> rnd_view (nln_round n) + 1 \<le> v_view s'"
proof -
  let ?w = "rnd_view (nln_round n)"
  obtain s2 where s2: "voter_grows {?w + 1} (snd (enter_view (?w + 1) s)) s2"
    and s': "s' = put_round ?w (snd (round_add_nullification n (fst (create_round ?w s2)))) (snd (create_round ?w s2))"
    using assms by (auto simp: voter_add_nullification_def Let_def case_prod_beta result_simps view_next_eq_Ok
        dest!: grows_set_leader)
  have "voter_grows {?w} s2 s'" unfolding s' by (rule voter_grows_with [OF round_step_certificates(2) [OF of_view_image]])
  note g = voter_grows_trans [OF s2 this]
  from voter_grows_trans [OF grows_enter_view g] have "voter_grows {?w, ?w + 1} s s'" by (simp add: insert_commute)
  moreover have "?w + 1 \<le> v_view s'" using g by (simp add: voter_grows_def enter_view_view)
  ultimately show ?thesis ..
qed

lemma grows_add_finalization:
  assumes "voter_add_finalization f s = Ok (b, s')"
  shows "voter_grows {proposal_view (fzn_proposal f), proposal_view (fzn_proposal f) + 1} s s'
    \<and> proposal_view (fzn_proposal f) + 1 \<le> v_view s'
    \<and> v_last_finalized s' = max (v_last_finalized s) (proposal_view (fzn_proposal f))"
proof -
  let ?w = "proposal_view (fzn_proposal f)"
  define s0 where "s0 = (if ?w > v_last_finalized s then s\<lparr>v_last_finalized := ?w\<rparr> else s)"
  have s0: "voter_grows {} s s0" "v_last_finalized s0 = max (v_last_finalized s) ?w"
    by (auto simp: s0_def intro: voter_grows_finalized)
  obtain s2 where s2: "voter_grows {?w + 1} (snd (enter_view (?w + 1) s0)) s2"
    "v_last_finalized s2 = v_last_finalized s0"
    and s': "s' = put_round ?w (snd (round_add_finalization f (fst (create_round ?w s2)))) (snd (create_round ?w s2))"
    using assms by (auto simp: voter_add_finalization_def Let_def case_prod_beta result_simps view_next_eq_Ok
        s0_def [symmetric] enter_view_finalized dest!: set_leader_both)
  have "voter_grows {?w} s2 s'" unfolding s' by (rule voter_grows_with [OF round_step_certificates(3)]) (simp add: of_view_def)
  note g = voter_grows_trans [OF s2(1) this]
  from voter_grows_trans [OF s0(1) voter_grows_trans [OF grows_enter_view g]]
  have "voter_grows {?w, ?w + 1} s s'" by (simp add: insert_commute)
  moreover have "?w + 1 \<le> v_view s'" using g by (simp add: voter_grows_def enter_view_view)
  moreover have "v_last_finalized s' = v_last_finalized s2"
    by (simp add: s' put_round_def create_round_def Let_def split: option.split)
  ultimately show ?thesis using s2 s0 by simp
qed

lemma grows_certified:
  assumes "voter_certified w b s = Ok (n, s')"
  shows "voter_grows {w, w + 1} s s' \<and> v_last_finalized s' = v_last_finalized s"
proof (cases "bt_get (v_views s) w")
  case None
  then show ?thesis using assms by (simp add: voter_certified_def)
next
  case (Some r)
  then obtain r1 where c: "round_certified b r = Ok r1" and n: "r_notarization r1 \<noteq> None" and
    s': "s' = (if b then snd (enter_view (w + 1) (put_round w r1 s)) else voter_expire_round w (put_round w r1 s))"
    using assms by (auto simp: voter_certified_def Let_def result_simps view_next_eq_Ok split: option.splits if_splits)
  have "r_notarization r \<noteq> None" using c n by (auto simp: round_certified_def split: if_splits)
  with c have r1: "round_step (of_view w) r r1" by (rule round_step_certified)
  have p: "voter_grows {} s (put_round w r1 s)" by (rule voter_grows_put [OF Some r1])
  have "voter_grows {w, w + 1} (put_round w r1 s) s'"
    using grows_enter_view [of "w + 1" "put_round w r1 s"] grows_simple(3) [of w "put_round w r1 s"]
    by (auto simp: s' intro: voter_grows_mono)
  from voter_grows_trans [OF p this] show ?thesis
    by (simp add: s' enter_view_finalized voter_expire_round_def case_prod_beta Let_def put_round_def create_round_def
        split: option.split)
qed

section \<open>The invariant\<close>

definition voter_inv :: "('d, 's, 'c, 'k) voter \<Rightarrow> bool" where
  "voter_inv s \<longleftrightarrow> bt_inv (v_views s) \<and> (\<forall>v r. bt_get (v_views s) v = Some r \<longrightarrow> round_of s v r)
     \<and> v_genesis s \<noteq> None \<and> v_last_finalized s < v_view s \<and> has_current s"

lemma voter_inv_of: "voter_inv s \<Longrightarrow> bt_get (v_views s) v = Some r \<Longrightarrow> round_of s v r"
  by (simp add: voter_inv_def)

lemma voter_inv_round: "voter_inv s \<Longrightarrow> bt_get (v_views s) v = Some r \<Longrightarrow> round_at v r"
  by (simp add: voter_inv_def round_of_def)

lemma voter_inv_grows:
  assumes "voter_inv s" "voter_grows V s s'" "v_last_finalized s' < v_view s'"
  shows "voter_inv s'"
proof -
  have cong: "round_of s' = round_of s" using assms(2) by (intro round_of_cong) (simp_all add: voter_grows_def)
  have "round_of s v r" if r: "bt_get (v_views s') v = Some r" for v r
  proof (cases "bt_get (v_views s) v")
    case None
    then show ?thesis using voter_grows_new [OF assms(2) None r] by simp
  next
    case (Some q)
    then show ?thesis using voter_grows_old [OF assms(2) Some] voter_inv_of [OF assms(1) Some] round_of_step r by fastforce
  qed
  then show ?thesis using assms cong by (simp add: voter_inv_def voter_grows_def)
qed

lemma min_active_less: "voter_inv s \<Longrightarrow> voter_min_active s < v_view s"
  by (auto simp: voter_inv_def voter_min_active_def min_active_def view_saturating_sub_def)

lemma min_active_grows: "voter_grows V s s' \<Longrightarrow> voter_min_active s \<le> voter_min_active s'"
  by (simp add: voter_grows_def voter_min_active_def min_active_def view_saturating_sub_def diff_le_mono)

lemma create_round_same:
  "v_view (snd (create_round w s)) = v_view s" "v_last_finalized (snd (create_round w s)) = v_last_finalized s"
  "v_view (put_round w r s) = v_view s" "v_last_finalized (put_round w r s) = v_last_finalized s"
  by (simp_all add: put_round_def create_round_def Let_def split: option.split)

lemma voter_genesis_inv:
  assumes "set_genesis d (voter_new now cfg) = Ok s"
  shows "voter_inv s \<and> v_last_finalized s = 0 \<and> v_scheme s = cfg_scheme cfg
    \<and> v_activity_timeout s = cfg_activity_timeout cfg \<and> v_namespace s = cfg_namespace cfg \<and> v_epoch s = cfg_epoch cfg"
proof -
  let ?s0 = "(voter_new now cfg)\<lparr>v_genesis := Some d\<rparr>"
  have l: "set_leader 1 None (snd (enter_view 1 ?s0)) = Ok s"
    using assms by (auto simp: set_genesis_def GENESIS_VIEW_def Let_def case_prod_beta result_simps view_next_eq_Ok)
  note g = voter_grows_trans [OF grows_enter_view grows_set_leader [OF l]]
  have s0: "bt_inv (v_views ?s0)" "v_views ?s0 = []" "v_last_finalized ?s0 = 0" "v_genesis ?s0 = Some d"
    by (simp_all add: voter_new_def GENESIS_VIEW_def)
  have "has_current (snd (enter_view 1 ?s0))"
    by (simp add: enter_view_def Let_def case_prod_beta has_current_def put_round_def bt_get_insert voter_new_def GENESIS_VIEW_def)
  then have "has_current s" using grows_set_leader [OF l] by (simp add: voter_grows_def)
  moreover have "v_last_finalized s = 0" using set_leader_finalized [OF l] s0 by (simp add: enter_view_finalized)
  moreover have "1 \<le> v_view s" using grows_set_leader [OF l] by (simp add: voter_grows_def enter_view_view)
  moreover have "round_of s = round_of ?s0" using g by (intro round_of_cong) (simp_all add: voter_grows_def)
  moreover have "round_of ?s0 v r" if "bt_get (v_views s) v = Some r" for v r
    using voter_grows_new [OF g _ that] s0(2) by (auto simp: bt_get_def)
  ultimately show ?thesis using g s0 by (simp add: voter_inv_def voter_grows_def) (simp add: voter_new_def)
qed

text \<open>Pruning never removes the current view.\<close>

lemma prune_views:
  "bt_get (v_views (snd (voter_prune s))) v = (if voter_min_active s \<le> v then bt_get (v_views s) v else None)"
  by (simp add: voter_prune_def case_prod_beta Let_def bt_split_off_get)

lemma prune_same:
  "v_last_finalized (snd (voter_prune s)) = v_last_finalized s" "v_view (snd (voter_prune s)) = v_view s"
  "voter_min_active (snd (voter_prune s)) = voter_min_active s" "v_genesis (snd (voter_prune s)) = v_genesis s"
  "v_scheme (snd (voter_prune s)) = v_scheme s"
  by (simp_all add: voter_prune_def case_prod_beta Let_def voter_min_active_def)

lemma voter_inv_prune:
  assumes "voter_inv s"
  shows "voter_inv (snd (voter_prune s))"
proof -
  have "bt_inv (v_views (snd (voter_prune s)))"
    using assms bt_split_off_inv [of "v_views s" "voter_min_active s"]
    by (simp add: voter_inv_def voter_prune_def case_prod_beta Let_def)
  moreover have "has_current (snd (voter_prune s))"
    using assms min_active_less [OF assms] by (simp add: has_current_def prune_views prune_same voter_inv_def)
  moreover have "round_of (snd (voter_prune s)) = round_of s"
    by (intro round_of_cong) (simp_all add: voter_prune_def case_prod_beta Let_def)
  ultimately show ?thesis using assms by (simp add: voter_inv_def prune_views prune_same)
qed

section \<open>Votes\<close>

text \<open>
  The votes a voter has cast so far are a set. It is consistent when the voter supports at most one
  proposal per view and never both a finalization and a nullification of a view.
\<close>

fun agree :: "('d, 's) vote \<Rightarrow> ('d, 's) vote \<Rightarrow> bool" where
  "agree (VNotarize m) (VNotarize n) \<longleftrightarrow> nz_proposal m = nz_proposal n"
| "agree (VNotarize m) (VFinalize n) \<longleftrightarrow> nz_proposal m = fz_proposal n"
| "agree (VFinalize m) (VNotarize n) \<longleftrightarrow> fz_proposal m = nz_proposal n"
| "agree (VFinalize m) (VFinalize n) \<longleftrightarrow> fz_proposal m = fz_proposal n"
| "agree (VFinalize m) (VNullify n) \<longleftrightarrow> False"
| "agree (VNullify m) (VFinalize n) \<longleftrightarrow> False"
| "agree _ _ \<longleftrightarrow> True"

definition consistent :: "('d, 's) vote set \<Rightarrow> bool" where
  "consistent H \<longleftrightarrow> (\<forall>x \<in> H. \<forall>y \<in> H. vote_view x = vote_view y \<longrightarrow> agree x y)"

fun vote_backed :: "('d, 's) vote \<Rightarrow> ('d, 's, 'c, 'k) round \<Rightarrow> bool" where
  "vote_backed (VNotarize n) r \<longleftrightarrow> r_broadcast_notarize r \<and> pinned (r_proposal r) (nz_proposal n)"
| "vote_backed (VNullify n) r \<longleftrightarrow> r_broadcast_nullify r"
| "vote_backed (VFinalize n) r \<longleftrightarrow> r_broadcast_finalize r \<and> pinned (r_proposal r) (fz_proposal n)"

lemma agree_sym: "agree x y \<longleftrightarrow> agree y x"
  by (cases x; cases y) auto

lemma consistent_insert:
  "consistent (insert x H) \<longleftrightarrow> consistent H \<and> agree x x \<and> (\<forall>y \<in> H. vote_view y = vote_view x \<longrightarrow> agree x y)"
  unfolding consistent_def using agree_sym by (metis insert_iff)

lemma agree_refl [simp]: "agree x x"
  by (cases x) auto

lemma put_round_get [simp]: "bt_get (v_views (put_round w r s)) v = (if v = w then Some r else bt_get (v_views s) v)"
  by (simp add: put_round_def bt_get_insert)

lemma slot_invD: "slot_inv s \<Longrightarrow> slot_status s = Verified \<Longrightarrow> pinned s p \<Longrightarrow> slot_proposal s = Some p"
  by (auto simp: slot_inv_def pinned_def)

lemma construct_notarize_vote:
  assumes "voter_construct_notarize w s = (Some n, s')" "voter_inv s"
  obtains r r' where "bt_get (v_views s) w = Some r" "bt_get (v_views s') w = Some r'" "proposal_view (nz_proposal n) = w"
    "\<not> r_broadcast_notarize r" "\<not> r_broadcast_nullify r" "vote_backed (VNotarize n) r'" "slot_status (r_proposal r) = Verified"
    "slot_proposal (r_proposal r) = Some (nz_proposal n)" "round_inv r"
proof -
  obtain r p where r: "bt_get (v_views s) w = Some r" and p: "round_construct_notarize r = (Some p, r\<lparr>r_broadcast_notarize := True\<rparr>)"
      "slot_proposal (r_proposal r) = Some p" "\<not> r_broadcast_notarize r" "\<not> r_broadcast_nullify r" "slot_status (r_proposal r) = Verified"
    using assms(1) by (auto simp: voter_construct_notarize_def round_construct_notarize_def Let_def split: option.splits if_splits prod.splits)
  have "s' = put_round w (r\<lparr>r_broadcast_notarize := True\<rparr>) s" "nz_proposal n = p"
    using assms(1) r p(1) by (auto simp: voter_construct_notarize_def notarize_sign_def Let_def split: prod.splits)
  then show thesis using that [OF r] p voter_inv_round [OF assms(2) r] by (simp add: pinned_def round_at_def)
qed

lemma construct_finalize_vote:
  assumes "voter_construct_finalize w s = (Some n, s')" "voter_inv s"
  obtains r r' where "bt_get (v_views s) w = Some r" "bt_get (v_views s') w = Some r'" "proposal_view (fz_proposal n) = w"
    "\<not> r_broadcast_finalize r" "\<not> r_broadcast_nullify r" "r_broadcast_notarize r" "vote_backed (VFinalize n) r'"
    "slot_status (r_proposal r) = Verified" "slot_proposal (r_proposal r) = Some (fz_proposal n)" "round_inv r" "round_is_certified r"
proof -
  let ?r' = "\<lambda>r. r\<lparr>r_broadcast_finalize := True\<rparr>"
  obtain r p where r: "bt_get (v_views s) w = Some r" and p: "round_construct_finalize r = (Some p, ?r' r)"
      "slot_proposal (r_proposal r) = Some p" "\<not> r_broadcast_finalize r" "\<not> r_broadcast_nullify r" "r_broadcast_notarize r"
      "slot_status (r_proposal r) = Verified" "round_is_certified r"
    using assms(1) by (auto simp: voter_construct_finalize_def round_construct_finalize_def Let_def split: option.splits if_splits prod.splits)
  have "s' = put_round w (?r' r) s" "fz_proposal n = p"
    using assms(1) r p(1) by (auto simp: voter_construct_finalize_def finalize_sign_def Let_def split: prod.splits)
  then show thesis using that [OF r] p voter_inv_round [OF assms(2) r] by (simp add: pinned_def round_at_def)
qed

lemma handle_timeout_vote:
  assumes "voter_handle_timeout s = ((retry, Some n, c), s')" "voter_inv s"
  obtains r r' where "bt_get (v_views s) (v_view s) = Some r" "bt_get (v_views s') (v_view s) = Some r'"
    "rnd_view (nl_round n) = v_view s" "\<not> r_broadcast_finalize r" "r_broadcast_nullify r'" "retry = r_broadcast_nullify r"
proof -
  obtain r where r: "bt_get (v_views s) (v_view s) = Some r" using assms(2) by (auto simp: voter_inv_def has_current_def)
  then have c: "create_round (v_view s) s = (r, s)" by (rule create_round_old)
  have f: "\<not> r_broadcast_finalize r"
    using assms(1) c by (auto simp: voter_handle_timeout_def round_construct_nullify_def Let_def)
  let ?r' = "snd (round_construct_nullify r)"
  have "fst (round_construct_nullify r) = Some (r_broadcast_nullify r)" "r_broadcast_nullify ?r'"
    using f by (simp_all add: round_construct_nullify_def round_clear_deadlines_def Let_def)
  moreover from this have "s' = put_round (v_view s) ?r' s" "rnd_view (nl_round n) = v_view s" "retry = r_broadcast_nullify r"
    using assms(1) c by (auto simp: voter_handle_timeout_def nullify_sign_def Let_def case_prod_beta split: if_splits)
  ultimately show thesis using that [OF r] f by simp
qed

section \<open>Parents\<close>

lemma is_certified_genesis: "voter_inv s \<Longrightarrow> \<exists>d. voter_is_certified s 0 = Ok (Some d)"
  by (auto simp: voter_is_certified_def voter_inv_def GENESIS_VIEW_def)

lemma is_certified_cases:
  assumes "voter_inv s"
  shows "voter_is_certified s v = Ok None \<or> (\<exists>d. voter_is_certified s v = Ok (Some d))"
proof (cases "bt_get (v_views s) v")
  case (Some r)
  then have "round_inv r" using voter_inv_round [OF assms] by (simp add: round_at_def)
  then show ?thesis using assms Some
    by (auto simp: voter_is_certified_def voter_inv_def round_inv_def round_is_certified_def split: option.split)
qed (use assms in \<open>auto simp: voter_is_certified_def voter_inv_def\<close>)

definition skippable :: "('d, 's, 'c, 'k) voter \<Rightarrow> view \<Rightarrow> bool" where
  "skippable s u \<longleftrightarrow> voter_is_certified s u = Ok None \<and> voter_is_nullified s u"

lemma find_parent_loop_correct:
  assumes "voter_inv s"
  shows "case find_parent_loop s c of
      Ok (v, d) \<Rightarrow> v \<le> c \<and> voter_is_certified s v = Ok (Some d) \<and> (\<forall>u. v < u \<longrightarrow> u \<le> c \<longrightarrow> skippable s u)
    | Err v \<Rightarrow> 0 < v \<and> v \<le> c \<and> voter_is_certified s v = Ok None \<and> \<not> voter_is_nullified s v
        \<and> (\<forall>u. v < u \<longrightarrow> u \<le> c \<longrightarrow> skippable s u)
    | Panic \<Rightarrow> False"
proof (induction c)
  case 0
  then show ?case using is_certified_genesis [OF assms] by (auto simp: find_parent_loop.simps [of s 0])
next
  case (Suc c)
  show ?case
  proof (cases "skippable s (Suc c)")
    case True
    then have "find_parent_loop s (Suc c) = find_parent_loop s c"
      by (simp add: find_parent_loop.simps [of s "Suc c"] skippable_def view_previous_def)
    then show ?thesis using Suc True by (auto simp: le_Suc_eq split: result.splits)
  next
    case False
    then show ?thesis using is_certified_cases [OF assms, of "Suc c"]
      by (auto simp: find_parent_loop.simps [of s "Suc c"] skippable_def)
  qed
qed

text \<open>The last finalized view keeps its certificate.\<close>

definition final_inv :: "('d, 's, 'c, 'k) voter \<Rightarrow> bool" where
  "final_inv s \<longleftrightarrow> v_last_finalized s = 0
     \<or> (\<exists>r. bt_get (v_views s) (v_last_finalized s) = Some r \<and> r_finalization r \<noteq> None)"

lemma final_inv_grows:
  assumes "final_inv s" "voter_grows V s s'" "v_last_finalized s' = v_last_finalized s"
  shows "final_inv s'"
  using assms voter_grows_old [OF assms(2), of "v_last_finalized s"]
  by (fastforce simp: final_inv_def round_step_def round_le_def)

lemma final_inv_prune: "final_inv s \<Longrightarrow> final_inv (snd (voter_prune s))"
  by (auto simp: final_inv_def prune_views prune_same voter_min_active_def min_active_def view_saturating_sub_def)

lemma final_certified:
  assumes "voter_inv s" "final_inv s"
  shows "\<exists>d. voter_is_certified s (v_last_finalized s) = Ok (Some d)"
  using assms is_certified_genesis [OF assms(1)] is_certified_cases [OF assms(1), of "v_last_finalized s"]
  by (auto simp: final_inv_def voter_is_certified_def split: if_splits option.splits)

end
