(* ===== verification/Voter_Run.thy ===== *)
theory Voter_Run
  imports Voter_State
begin

text \<open>
  Runs of the voter state: every operation of \<open>state.rs\<close> that changes the state, as data, and their
  execution one after the other in any order. Two of them are called with arguments that fit the state:
  \<open>replay\<close> with the artifacts of a journal in the order in which they were written, and \<open>set_proposal\<close> with the view of the
  proposal; \<open>op_legal\<close> says so, and \<open>Voter_Safety\<close> shows the invariant of the state of the whole actor, with no such condition. The properties of the voter state that hold in every
  run are here: the invariant, the choice of parents and the timeouts.
\<close>

section \<open>Replaying an artifact\<close>

text \<open>What the votes and certificates already replayed give for the next artifact.\<close>

fun replay_ok :: "('d, 's, 'c) artifact \<Rightarrow> ('d, 's, 'c, 'k) round \<Rightarrow> bool" where
  "replay_ok (ANullify n) r \<longleftrightarrow> \<not> r_broadcast_finalize r"
| "replay_ok (AFinalize f) r \<longleftrightarrow> r_broadcast_notarize r \<and> \<not> r_broadcast_nullify r"
| "replay_ok (ACertification rnd b) r \<longleftrightarrow> r_notarization r \<noteq> None"
| "replay_ok _ r \<longleftrightarrow> True"

lemma round_step_replay:
  assumes "round_replay x r = Ok r'" "replay_ok x r"
  shows "round_step (of_view (artifact_view x)) r r'"
proof (cases x)
  case (ANotarize n)
  have "round_step (of_view (artifact_view x)) r (r\<lparr>r_proposal := slot_built (nz_proposal n) (r_proposal r)\<rparr>)"
    by (rule round_step_slot [OF slot_le_ops(2)]) (simp add: ANotarize of_view_def)
  from round_step_trans [OF this round_step_fields(9)] show ?thesis using assms ANotarize by (auto split: if_splits)
next
  case (ANullify n)
  then show ?thesis using assms by (auto simp: round_step_def round_le_def round_inv_def split: if_splits)
next
  case (AFinalize f)
  then show ?thesis using assms by (auto simp: round_step_def round_le_def round_inv_def split: if_splits)
qed (use assms in \<open>auto simp: round_step_fields round_step_certified\<close>)

lemma voter_replay_eq:
  assumes "voter_replay x s = Ok s'"
  obtains r' where "round_replay x (fst (create_round (artifact_view x) s)) = Ok r'"
    "s' = put_round (artifact_view x) r' (snd (create_round (artifact_view x) s))"
  using assms by (auto simp: voter_replay_def Let_def case_prod_beta elim!: and_then_OkE)

lemma grows_replay:
  assumes "voter_replay x s = Ok s'" "replay_ok x (fst (create_round (artifact_view x) s))"
  shows "voter_grows {artifact_view x} s s'"
proof -
  obtain r' where r: "round_replay x (fst (create_round (artifact_view x) s)) = Ok r'"
    "s' = put_round (artifact_view x) r' (snd (create_round (artifact_view x) s))" using voter_replay_eq [OF assms(1)] .
  show ?thesis unfolding r(2) by (rule voter_grows_with [OF round_step_replay [OF r(1) assms(2)]])
qed

lemma voter_replay_same: "voter_replay x s = Ok s' \<Longrightarrow> v_view s' = v_view s \<and> v_last_finalized s' = v_last_finalized s"
  by (auto elim!: voter_replay_eq simp: create_round_same)

section \<open>Operations\<close>

datatype ('d, 's, 'c) voter_op =
    OTick nat
  | ONextTimeoutDeadline
  | OHandleTimeout
  | OAddNotarization "('d, 'c) notarization"
  | OAddNullification "'c nullification"
  | OAddFinalization "('d, 'c) finalization"
  | OConstructNotarize view
  | OConstructFinalize view
  | OBroadcastNotarization view
  | OBroadcastNullification view
  | OBroadcastFinalization view
  | OExpireRound view
  | OTryPropose
  | OProposed "'d proposal"
  | OSetProposal view "'d proposal"
  | OTryVerify
  | OVerified view
  | OSetCertifyHandle view nat
  | ORetryCertification view
  | OCertified view bool
  | OPrune
  | OReplay "('d, 's, 'c) artifact"

fun voter_apply :: "('d, 's, 'c) voter_op \<Rightarrow> ('d, 's, 'c, 'k) voter \<Rightarrow> (('d, 's, 'c, 'k) voter, unit) result" where
  "voter_apply (OTick t) s = Ok (s\<lparr>v_clock := v_clock s + t\<rparr>)"
| "voter_apply ONextTimeoutDeadline s = Ok (snd (voter_next_timeout_deadline s))"
| "voter_apply OHandleTimeout s = Ok (snd (voter_handle_timeout s))"
| "voter_apply (OAddNotarization n) s = and_then (voter_add_notarization n s) (\<lambda>(_, s'). Ok s')"
| "voter_apply (OAddNullification n) s = and_then (voter_add_nullification n s) (\<lambda>(_, s'). Ok s')"
| "voter_apply (OAddFinalization f) s = and_then (voter_add_finalization f s) (\<lambda>(_, s'). Ok s')"
| "voter_apply (OConstructNotarize v) s = Ok (snd (voter_construct_notarize v s))"
| "voter_apply (OConstructFinalize v) s = Ok (snd (voter_construct_finalize v s))"
| "voter_apply (OBroadcastNotarization v) s = Ok (snd (voter_broadcast_notarization v s))"
| "voter_apply (OBroadcastNullification v) s = Ok (snd (voter_broadcast_nullification v s))"
| "voter_apply (OBroadcastFinalization v) s = Ok (snd (voter_broadcast_finalization v s))"
| "voter_apply (OExpireRound v) s = Ok (voter_expire_round v s)"
| "voter_apply OTryPropose s = and_then (voter_try_propose s) (\<lambda>(_, s'). Ok s')"
| "voter_apply (OProposed p) s = Ok (snd (voter_proposed p s))"
| "voter_apply (OSetProposal v p) s = Ok (snd (voter_set_proposal v p s))"
| "voter_apply OTryVerify s = and_then (voter_try_verify s) (\<lambda>(_, s'). Ok s')"
| "voter_apply (OVerified v) s = Ok (snd (voter_verified v s))"
| "voter_apply (OSetCertifyHandle v h) s = Ok (voter_set_certify_handle v h s)"
| "voter_apply (ORetryCertification v) s = Ok (voter_retry_certification v s)"
| "voter_apply (OCertified v b) s = and_then (voter_certified v b s) (\<lambda>(_, s'). Ok s')"
| "voter_apply OPrune s = Ok (snd (voter_prune s))"
| "voter_apply (OReplay x) s = voter_replay x s"


text \<open>
  The arguments the callers pass: a proposal is set for its own view, and an artifact is replayed into a
  round that is ready for it (a finalize vote after a notarize vote and not after a nullify vote, a nullify vote not after a
  finalize vote, a certification after the notarization).
\<close>

fun op_legal :: "('d, 's, 'c) voter_op \<Rightarrow> ('d, 's, 'c, 'k) voter \<Rightarrow> bool" where
  "op_legal (OSetProposal v p) s \<longleftrightarrow> proposal_view p = v"
| "op_legal (OReplay x) s \<longleftrightarrow> replay_ok x (fst (create_round (artifact_view x) s))"
| "op_legal _ s \<longleftrightarrow> True"


section \<open>The invariant in every run\<close>

text \<open>Only a finalization moves the last finalized view.\<close>

lemma finalized_same:
  "v_last_finalized (snd (voter_next_timeout_deadline s)) = v_last_finalized s"
  "v_last_finalized (snd (voter_handle_timeout s)) = v_last_finalized s"
  "v_last_finalized (snd (voter_construct_notarize w s)) = v_last_finalized s"
  "v_last_finalized (snd (voter_construct_finalize w s)) = v_last_finalized s"
  "v_last_finalized (snd (voter_broadcast_notarization w s)) = v_last_finalized s"
  "v_last_finalized (snd (voter_broadcast_nullification w s)) = v_last_finalized s"
  "v_last_finalized (snd (voter_broadcast_finalization w s)) = v_last_finalized s"
  "v_last_finalized (voter_expire_round w s) = v_last_finalized s"
  "v_last_finalized (snd (voter_proposed p s)) = v_last_finalized s"
  "v_last_finalized (snd (voter_set_proposal w p s)) = v_last_finalized s"
  "v_last_finalized (snd (voter_verified w s)) = v_last_finalized s"
  "v_last_finalized (voter_set_certify_handle w h s) = v_last_finalized s"
  "v_last_finalized (voter_retry_certification w s) = v_last_finalized s"
  by (simp_all add: voter_next_timeout_deadline_def voter_handle_timeout_def voter_construct_notarize_def
      voter_construct_finalize_def voter_broadcast_notarization_def voter_broadcast_nullification_def
      voter_broadcast_finalization_def voter_expire_round_def voter_proposed_def voter_set_proposal_def
      voter_verified_def voter_set_certify_handle_def voter_retry_certification_def
      Let_def case_prod_beta create_round_same split: option.split)

lemma finalized_propose: "voter_try_propose s = Ok (c, s') \<Longrightarrow> v_last_finalized s' = v_last_finalized s"
  by (auto simp: voter_try_propose_def Let_def case_prod_beta create_round_same split: option.splits result.splits if_splits)

lemma finalized_verify:
  assumes "voter_try_verify s = Ok (x, s')"
  shows "v_last_finalized s' = v_last_finalized s"
proof (cases "bt_get (v_views s) (v_view s)")
  case (Some r)
  then show ?thesis
  proof (cases "round_should_verify r")
    case (Some lp)
    then show ?thesis using assms \<open>bt_get (v_views s) (v_view s) = Some r\<close>
      by (cases lp) (auto simp: voter_try_verify_def Let_def case_prod_beta create_round_same split: option.splits if_splits elim!: and_then_OkE)
  qed (use assms Some in \<open>simp add: voter_try_verify_def\<close>)
qed (use assms in \<open>simp add: voter_try_verify_def\<close>)

lemma finalized_notarization: "voter_add_notarization n s = Ok (b, s') \<Longrightarrow> v_last_finalized s' = v_last_finalized s"
  by (auto simp: voter_add_notarization_def Let_def case_prod_beta result_simps create_round_same dest!: set_leader_finalized)

lemma finalized_nullification: "voter_add_nullification m s = Ok (c, s') \<Longrightarrow> v_last_finalized s' = v_last_finalized s"
  by (auto simp: voter_add_nullification_def Let_def case_prod_beta result_simps
      create_round_same enter_view_finalized dest!: set_leader_finalized)

lemmas finalized_try = finalized_propose finalized_verify
lemmas finalized_add = finalized_notarization finalized_nullification

lemma final_inv_add:
  assumes "voter_add_finalization f s = Ok (b, s')" "final_inv s"
  shows "final_inv s'"
proof (cases "proposal_view (fzn_proposal f) > v_last_finalized s")
  case True
  have g: "v_last_finalized s' = proposal_view (fzn_proposal f)" using grows_add_finalization [OF assms(1)] True by simp
  obtain s2 where "s' = put_round (proposal_view (fzn_proposal f)) (snd (round_add_finalization f
      (fst (create_round (proposal_view (fzn_proposal f)) s2)))) (snd (create_round (proposal_view (fzn_proposal f)) s2))"
    using assms(1) by (auto simp: voter_add_finalization_def Let_def case_prod_beta result_simps)
  then show ?thesis using g
    by (auto simp: final_inv_def round_add_finalization_def Let_def case_prod_beta)
next
  case False
  then show ?thesis using grows_add_finalization [OF assms(1)] final_inv_grows [OF assms(2)] by (auto simp: max_def)
qed

definition run_inv :: "('d, 's, 'c, 'k) voter \<Rightarrow> bool" where
  "run_inv s \<longleftrightarrow> voter_inv s \<and> final_inv s"

lemma run_inv_grows:
  assumes "run_inv s" "voter_grows V s s'" "v_last_finalized s' = v_last_finalized s"
  shows "run_inv s'"
proof -
  have "v_last_finalized s' < v_view s'" using assms by (simp add: run_inv_def voter_inv_def voter_grows_def)
  then show ?thesis using assms voter_inv_grows final_inv_grows by (metis run_inv_def)
qed

lemma run_inv_add_finalization:
  assumes "run_inv s" "voter_add_finalization f s = Ok (b, s')"
  shows "run_inv s'"
proof -
  note g = grows_add_finalization [OF assms(2)]
  have "v_last_finalized s < v_view s'" using assms(1) g by (auto simp: run_inv_def voter_inv_def voter_grows_def)
  then have "v_last_finalized s' < v_view s'" using g by simp
  then show ?thesis using assms g voter_inv_grows final_inv_add by (metis run_inv_def)
qed

lemma run_inv_tick: "run_inv (s\<lparr>v_clock := t\<rparr>) = run_inv s"
  by (simp add: run_inv_def voter_inv_def final_inv_def has_current_def round_of_def)

lemmas run_inv_ops =
  run_inv_grows [OF _ grows_simple(1) finalized_same(1)] run_inv_grows [OF _ grows_simple(2) finalized_same(2)]
  run_inv_grows [OF _ grows_get(1) finalized_same(3)] run_inv_grows [OF _ grows_get(2) finalized_same(4)]
  run_inv_grows [OF _ grows_get(3) finalized_same(5)] run_inv_grows [OF _ grows_get(4) finalized_same(6)]
  run_inv_grows [OF _ grows_get(5) finalized_same(7)] run_inv_grows [OF _ grows_simple(3) finalized_same(8)]
  run_inv_grows [OF _ grows_get(6) finalized_same(9)] run_inv_grows [OF _ grows_simple(4) finalized_same(10)]
  run_inv_grows [OF _ grows_get(7) finalized_same(11)] run_inv_grows [OF _ grows_get(8) finalized_same(12)]
  run_inv_grows [OF _ grows_get(9) finalized_same(13)] run_inv_tick [THEN iffD2]

lemma run_inv_prune: "run_inv s \<Longrightarrow> run_inv (snd (voter_prune s))"
  by (simp add: run_inv_def voter_inv_prune final_inv_prune)

lemmas run_inv_try = run_inv_grows [OF _ grows_try_propose finalized_try(1)]
  run_inv_grows [OF _ grows_try_verify finalized_try(2)]
  run_inv_grows [OF _ grows_add_notarization finalized_add(1)]
  run_inv_grows [OF _ grows_add_nullification [THEN conjunct1] finalized_add(2)]
  run_inv_grows [OF _ grows_certified [THEN conjunct1] grows_certified [THEN conjunct2]]
  run_inv_add_finalization

lemma run_inv_replay: "run_inv s \<Longrightarrow> voter_replay x s = Ok s' \<Longrightarrow> replay_ok x (fst (create_round (artifact_view x) s)) \<Longrightarrow> run_inv s'"
  using run_inv_grows [OF _ grows_replay] voter_replay_same by blast

lemma run_inv_apply:
  assumes "voter_apply x s = Ok s'" "run_inv s" "op_legal x s"
  shows "run_inv s'"
proof (cases x)
  case (OReplay y)
  then show ?thesis using assms run_inv_replay by simp
qed (use assms in \<open>auto simp: result_simps run_inv_ops run_inv_prune intro: run_inv_try\<close>)


lemma run_inv_genesis: "set_genesis d (voter_new now cfg) = Ok s \<Longrightarrow> run_inv s"
  using voter_genesis_inv by (fastforce simp: run_inv_def final_inv_def)

section \<open>When an operation panics\<close>

text \<open>
  \<open>op_panics\<close> lists the panics of the operations: a view after the largest \<open>u64\<close>, a certification of a view that is not
  notarized or was certified the other way, and the replay of a vote of someone else or of a certification that contradicts
  the one of the round. Under the invariant, with an elector that names a participant and a current view in \<open>u64\<close>, there
  are no others.
\<close>

definition elector_ok :: "('d, 's, 'c, 'k) voter \<Rightarrow> bool" where
  "elector_ok s \<longleftrightarrow> (\<forall>rnd c. v_elector s rnd c < length (scheme_participants (v_scheme s)))"

fun replay_panics :: "('d, 's, 'c) artifact \<Rightarrow> ('d, 's, 'c, 'k) round \<Rightarrow> bool" where
  "replay_panics (ANotarize n) r \<longleftrightarrow> scheme_me (r_scheme r) \<noteq> Some (notarize_signer n)"
| "replay_panics (ANullify n) r \<longleftrightarrow> scheme_me (r_scheme r) \<noteq> Some (nullify_signer n)"
| "replay_panics (AFinalize f) r \<longleftrightarrow> scheme_me (r_scheme r) \<noteq> Some (finalize_signer f)"
| "replay_panics (ACertification rnd b) r \<longleftrightarrow> r_certified r = Some (\<not> b)"
| "replay_panics _ r \<longleftrightarrow> False"

fun op_panics :: "('d, 's, 'c) voter_op \<Rightarrow> ('d, 's, 'c, 'k) voter \<Rightarrow> bool" where
  "op_panics (OAddNotarization n) s \<longleftrightarrow> u64_max \<le> proposal_view (nzn_proposal n)"
| "op_panics (OAddNullification n) s \<longleftrightarrow> u64_max \<le> rnd_view (nln_round n)"
| "op_panics (OAddFinalization f) s \<longleftrightarrow> u64_max \<le> proposal_view (fzn_proposal f)"
| "op_panics (OCertified v b) s \<longleftrightarrow> (case bt_get (v_views s) v of None \<Rightarrow> False
     | Some r \<Rightarrow> r_certified r = Some (\<not> b) \<or> r_notarization r = None \<or> b \<and> u64_max \<le> v)"
| "op_panics (OReplay x) s \<longleftrightarrow> replay_panics x (fst (create_round (artifact_view x) s))"
| "op_panics _ s \<longleftrightarrow> False"

definition rounds_ok :: "('d, 's, 'c, 'k) voter \<Rightarrow> bool" where
  "rounds_ok s \<longleftrightarrow> (\<forall>v r. bt_get (v_views s) v = Some r \<longrightarrow> r_scheme r = v_scheme s)"

lemma rounds_ok_inv: "voter_inv s \<Longrightarrow> rounds_ok s"
  by (simp add: rounds_ok_def voter_inv_def round_of_def)

lemma rounds_ok_create: "rounds_ok s \<Longrightarrow> r_scheme (fst (create_round w s)) = v_scheme s"
  by (auto simp: rounds_ok_def create_round_def Let_def round_new_def split: option.split)

lemma rounds_ok_enter: "rounds_ok s \<Longrightarrow> rounds_ok (snd (enter_view w s))"
  using rounds_ok_create [of s w]
  by (auto simp: enter_view_def Let_def case_prod_beta rounds_ok_def put_round_def bt_get_insert round_set_deadlines_def
      create_round_def round_new_def split: option.split)

lemma elector_ok_cong: "v_elector s' = v_elector s \<Longrightarrow> v_scheme s' = v_scheme s \<Longrightarrow> elector_ok s' = elector_ok s"
  by (simp add: elector_ok_def)

lemma set_leader_total: "rounds_ok s \<Longrightarrow> elector_ok s \<Longrightarrow> \<exists>s'. set_leader w c s = Ok s'"
  using rounds_ok_create [of s w]
  by (auto simp: set_leader_def Let_def case_prod_beta round_set_leader_def elector_ok_def)

lemma set_leader_entered:
  "rounds_ok s \<Longrightarrow> elector_ok s \<Longrightarrow> \<exists>s'. set_leader w c (snd (enter_view w s)) = Ok s'"
  using grows_enter_view [of w s] by (intro set_leader_total rounds_ok_enter) (simp_all add: elector_ok_def voter_grows_def)

lemma parent_payload_total:
  assumes "voter_inv s" "proposal_view p \<le> u64_max"
  shows "\<exists>o'. parent_payload s p = Ok o'"
proof (cases "prop_parent p < proposal_view p")
  case True
  then have "prop_parent p < u64_max" using assms(2) by simp
  then show ?thesis using is_certified_cases [OF assms(1), of "prop_parent p"]
    by (auto simp: parent_payload_def Let_def view_next_Ok)
qed (simp add: parent_payload_def)

lemma try_verify_total:
  assumes "voter_inv s" "v_view s \<le> u64_max"
  shows "\<exists>s'. voter_try_verify s = Ok s'"
proof (cases "bt_get (v_views s) (v_view s)")
  case (Some r)
  have "\<exists>o'. parent_payload s p = Ok o'" if "round_should_verify r = Some (l, p)" for l p
    using that voter_inv_round [OF assms(1) Some] assms(2)
    by (intro parent_payload_total [OF assms(1)])
      (auto simp: round_should_verify_def round_at_def split: option.splits)
  then show ?thesis using Some
    by (fastforce simp: voter_try_verify_def Let_def case_prod_beta split: option.split)
qed (simp add: voter_try_verify_def)

lemma try_propose_total:
  assumes "voter_inv s"
  shows "\<exists>s'. voter_try_propose s = Ok s'"
proof -
  have "find_parent s (v_view s) \<noteq> Panic"
    using find_parent_loop_correct [OF assms, of "case view_previous (v_view s) of Some v \<Rightarrow> v | None \<Rightarrow> GENESIS_VIEW"]
    by (auto simp: find_parent_def)
  then show ?thesis using assms
    by (auto simp: voter_try_propose_def Let_def case_prod_beta voter_inv_def has_current_def split: option.split result.split)
qed

lemma add_total:
  assumes "rounds_ok s" "elector_ok s"
  shows "proposal_view (nzn_proposal n) < u64_max \<Longrightarrow> \<exists>x. voter_add_notarization n s = Ok x"
    "rnd_view (nln_round m) < u64_max \<Longrightarrow> \<exists>x. voter_add_nullification m s = Ok x"
  using set_leader_total [OF assms, of "proposal_view (nzn_proposal n) + 1" "Some (nzn_certificate n)"]
    set_leader_entered [OF assms, of "rnd_view (nln_round m) + 1" "Some (nln_certificate m)"]
  by (auto simp: voter_add_notarization_def voter_add_nullification_def Let_def case_prod_beta view_next_Ok)

lemma add_finalization_total:
  assumes "rounds_ok s" "elector_ok s" "proposal_view (fzn_proposal f) < u64_max"
  shows "\<exists>x. voter_add_finalization f s = Ok x"
proof -
  define s0 where "s0 = (if proposal_view (fzn_proposal f) > v_last_finalized s
    then s\<lparr>v_last_finalized := proposal_view (fzn_proposal f)\<rparr> else s)"
  have "rounds_ok s0" "elector_ok s0" using assms by (simp_all add: s0_def rounds_ok_def elector_ok_def)
  from set_leader_entered [OF this, of "proposal_view (fzn_proposal f) + 1" "Some (fzn_certificate f)"]
  show ?thesis using assms(3)
    by (auto simp: voter_add_finalization_def Let_def case_prod_beta view_next_Ok s0_def [symmetric])
qed

lemma view_next_Panic: "u64_max \<le> v \<Longrightarrow> view_next v = Panic"
  by (simp add: view_next_def u64_add_def)

lemma add_panics:
  "u64_max \<le> proposal_view (nzn_proposal n) \<Longrightarrow> voter_add_notarization n s = Panic"
  "u64_max \<le> rnd_view (nln_round m) \<Longrightarrow> voter_add_nullification m s = Panic"
  "u64_max \<le> proposal_view (fzn_proposal f) \<Longrightarrow> voter_add_finalization f s = Panic"
  by (simp_all add: voter_add_notarization_def voter_add_nullification_def voter_add_finalization_def view_next_Panic Let_def)

lemma certified_cases:
  "op_panics (OCertified v b) s \<Longrightarrow> voter_certified v b s = Panic"
  "\<not> op_panics (OCertified v b) s \<Longrightarrow> \<exists>x. voter_certified v b s = Ok x"
  by (auto simp: voter_certified_def round_certified_def Let_def view_next_Ok view_next_Panic split: option.splits)

lemma replay_Panic: "replay_panics x r \<Longrightarrow> round_replay x r = Panic"
  by (cases x) (simp_all add: round_is_signer_def round_certified_def)

lemma replay_Ok: "\<not> replay_panics x r \<Longrightarrow> \<exists>r'. round_replay x r = Ok r'"
  by (cases x; cases "r_certified r") (auto simp: round_is_signer_def round_certified_def)

lemma voter_apply_panics:
  assumes "op_panics x s"
  shows "voter_apply x s = Panic"
proof (cases x)
  case (OCertified v b)
  then show ?thesis using assms certified_cases(1) [of v b s] by simp
qed (use assms in \<open>simp_all add: add_panics replay_Panic voter_replay_def case_prod_beta Let_def\<close>)

lemma voter_apply_Ok:
  assumes "run_inv s" "elector_ok s" "v_view s \<le> u64_max" "\<not> op_panics x s"
  shows "\<exists>s'. voter_apply x s = Ok s'"
proof -
  have i: "voter_inv s" "rounds_ok s" using assms(1) by (simp_all add: run_inv_def rounds_ok_inv)
  note total = add_total [OF i(2) assms(2)] add_finalization_total [OF i(2) assms(2)] try_propose_total [OF i(1)] try_verify_total [OF i(1) assms(3)]
  show ?thesis
  proof (cases x)
    case (OReplay y)
    then show ?thesis using assms(4) replay_Ok [of y "fst (create_round (artifact_view y) s)"] by (auto simp: voter_replay_def case_prod_beta Let_def)
  next
    case (OCertified v b)
    then obtain y where "voter_certified v b s = Ok y" using assms(4) certified_cases(2) [of v b s] by blast
    then show ?thesis using OCertified by (cases y) simp
  next
    case (OAddNotarization n)
    then obtain y where "voter_add_notarization n s = Ok y" using assms(4) total(1) [of n] by auto
    then show ?thesis using OAddNotarization by (cases y) simp
  next
    case (OAddNullification n)
    then obtain y where "voter_add_nullification n s = Ok y" using assms(4) total(2) [of n] by auto
    then show ?thesis using OAddNullification by (cases y) simp
  next
    case (OAddFinalization f)
    then obtain y where "voter_add_finalization f s = Ok y" using assms(4) total(3) [of f] by auto
    then show ?thesis using OAddFinalization by (cases y) simp
  next
    case OTryPropose
    obtain y where "voter_try_propose s = Ok y" using total(4) by blast
    then show ?thesis using OTryPropose by (cases y) simp
  next
    case OTryVerify
    obtain y where "voter_try_verify s = Ok y" using total(5) by blast
    then show ?thesis using OTryVerify by (cases y) simp
  qed simp_all
qed

lemma grows_mono: "voter_grows V s s' \<Longrightarrow> v_view s \<le> v_view s' \<and> v_last_finalized s \<le> v_last_finalized s'"
  by (simp add: voter_grows_def)

lemmas mono_ops = grows_simple [THEN grows_mono] grows_get [THEN grows_mono]
lemmas mono_try = grows_try_propose [THEN grows_mono] grows_try_verify [THEN grows_mono]
  grows_add_notarization [THEN grows_mono] grows_add_nullification [THEN conjunct1, THEN grows_mono]
  grows_certified [THEN conjunct1, THEN grows_mono] grows_add_finalization [THEN conjunct1, THEN grows_mono]

lemma voter_apply_mono: "voter_apply x s = Ok s' \<Longrightarrow> op_legal x s \<Longrightarrow> v_view s \<le> v_view s' \<and> v_last_finalized s \<le> v_last_finalized s'"
  by (cases x) (auto simp: result_simps mono_ops prune_same dest!: mono_try voter_replay_same)

lemma parent_payload_cases:
  assumes "voter_inv s" "proposal_view p \<le> u64_max"
  shows "parent_payload s p = Ok (Some d) \<longleftrightarrow> v_last_finalized s \<le> prop_parent p \<and> prop_parent p < proposal_view p
    \<and> voter_is_certified s (prop_parent p) = Ok (Some d)
    \<and> (\<forall>u. prop_parent p < u \<longrightarrow> u < proposal_view p \<longrightarrow> voter_is_nullified s u)"
proof (cases "prop_parent p < proposal_view p")
  case True
  then have "prop_parent p < u64_max" using assms(2) by simp
  then show ?thesis using True
    by (auto simp: parent_payload_def Let_def view_next_Ok view_range_list_def view_range_new_def list_all_iff Suc_le_eq)
qed (simp add: parent_payload_def)

lemma bt_insert_same: "bt_inv m \<Longrightarrow> bt_get m k = Some v \<Longrightarrow> bt_insert k v m = m"
  by (induction m) (force simp: bt_get_def bt_inv_def dest: map_of_SomeD split: if_splits)+

section \<open>A sample voter\<close>

definition sample_scheme :: "(nat, nat, nat) scheme" where
  "sample_scheme = \<lparr>scheme_me = Some 0, scheme_participants = [10, 11, 12, 13],
     scheme_sign = (\<lambda>_ _. Some \<lparr>att_signer = 0, att_signature = 7\<rparr>)\<rparr>"

definition sample_config :: "(nat, nat, nat, nat) config" where
  "sample_config = \<lparr>cfg_scheme = sample_scheme, cfg_elector = (\<lambda>ps r c. rnd_view r mod length ps),
     cfg_namespace = [], cfg_epoch = 1, cfg_activity_timeout = 2, cfg_leader_timeout = 10,
     cfg_notarization_timeout = 20, cfg_nullify_retry = 5\<rparr>"

lemmas voter_eval = sample_config_def sample_scheme_def set_genesis_def voter_new_def GENESIS_VIEW_def view_next_def
  u64_add_def u64_max_def enter_view_def create_round_def put_round_def set_leader_def round_set_leader_def
  round_new_def round_set_deadlines_def slot_new_def bt_get_def Let_def

definition sample_voter :: "(nat, nat, nat, nat) voter" where
  "sample_voter = (case set_genesis 0 (voter_new 0 sample_config) of Ok s \<Rightarrow> s | _ \<Rightarrow> voter_new 0 sample_config)"

lemma sample_genesis: "set_genesis 0 (voter_new 0 sample_config) = Ok sample_voter"
  by (simp add: sample_voter_def voter_eval)

lemma sample_inv: "voter_inv sample_voter" "final_inv sample_voter"
  using run_inv_genesis [OF sample_genesis] by (simp_all add: run_inv_def)

lemma sample_elector: "elector_ok sample_voter"
proof -
  have "v_elector sample_voter = (\<lambda>r c. rnd_view r mod 4)" "scheme_participants (v_scheme sample_voter) = [10, 11, 12, 13]"
    by (simp_all add: sample_voter_def voter_eval)
  moreover have "x mod 4 < length [10::nat, 11, 12, 13]" for x :: nat by simp
  ultimately show ?thesis by (simp only: elector_ok_def) blast
qed

lemma sample_view: "v_view sample_voter = 1" "v_last_finalized sample_voter = 0"
  by (simp_all add: sample_voter_def voter_eval)

section \<open>Properties\<close>





text \<open>
  C10. When the operations of the voter state panic. On a state with the invariant whose elector names a
  participant and whose current view is a \<open>u64\<close>, an operation panics exactly in these cases: a certificate, or a successful certification, whose view
  is the largest \<open>u64\<close>; a certification for a round without a notarization or certified the other way; the replay of
  a vote with another signer, or of a certification that contradicts the one of the round. Every other operation
  returns, and when its arguments are legal in the sense of \<open>op_legal\<close>, it keeps the invariant and views only advance.
\<close>

theorem voter_apply_total:
  assumes "voter_inv s" "final_inv s" "elector_ok s" "v_view s \<le> u64_max"
  shows "(voter_apply x s = Panic \<longleftrightarrow> op_panics x s)
    \<and> (\<not> op_panics x s \<longrightarrow> (\<exists>s'. voter_apply x s = Ok s'
        \<and> (op_legal x s \<longrightarrow> voter_inv s' \<and> final_inv s' \<and> v_view s \<le> v_view s' \<and> v_last_finalized s \<le> v_last_finalized s')))"
proof -
  have r: "run_inv s" using assms by (simp add: run_inv_def)
  show ?thesis
  proof (cases "op_panics x s")
    case True
    then show ?thesis using voter_apply_panics by blast
  next
    case False
    then obtain s' where s': "voter_apply x s = Ok s'" using voter_apply_Ok [OF r assms(3,4)] by blast
    then show ?thesis using False run_inv_apply [OF s' r] voter_apply_mono [OF s'] by (simp add: run_inv_def)
  qed
qed

theorem voter_apply_total_witness:
  "\<exists>s'. voter_apply (OAddFinalization \<lparr>fzn_proposal = \<lparr>prop_round = Rnd 1 6, prop_parent = 0, payload = 4\<rparr>,
      fzn_certificate = 9\<rparr> :: (nat, nat, nat) voter_op) sample_voter = Ok s' \<and> voter_inv s' \<and> 1 \<le> v_view s'
    \<and> voter_apply (OReplay (ANullify \<lparr>nl_round = Rnd 1 1, nl_attestation = \<lparr>att_signer = 3, att_signature = 7\<rparr>\<rparr>)) sample_voter = Panic"
proof -
  let ?f = "OAddFinalization \<lparr>fzn_proposal = \<lparr>prop_round = Rnd 1 6, prop_parent = 0, payload = 4\<rparr>, fzn_certificate = 9\<rparr> :: (nat, nat, nat) voter_op"
  let ?r = "OReplay (ANullify \<lparr>nl_round = Rnd 1 1, nl_attestation = \<lparr>att_signer = 3, att_signature = 7\<rparr>\<rparr>) :: (nat, nat, nat) voter_op"
  have v: "v_view sample_voter \<le> u64_max" by (simp add: sample_view u64_max_def)
  have "op_panics ?r sample_voter"
    by (simp add: sample_voter_def voter_eval nullify_signer_def)
  then show ?thesis
    using voter_apply_total [OF sample_inv sample_elector v, of ?f] voter_apply_total [OF sample_inv sample_elector v, of ?r]
    by (auto simp: proposal_view_def sample_view u64_max_def)
qed

text \<open>
  C11. The search for the parent of a view ends without a panic: it returns the greatest certified view
  below it, with its payload, if every view in between is nullified, and otherwise the greatest view
  below it that is neither certified nor nullified.
\<close>

theorem find_parent_correct:
  assumes "voter_inv s" "0 < w"
  shows "case find_parent s w of
      Ok (v, d) \<Rightarrow> v < w \<and> voter_is_certified s v = Ok (Some d)
        \<and> (\<forall>u. v < u \<longrightarrow> u < w \<longrightarrow> voter_is_certified s u = Ok None \<and> voter_is_nullified s u)
    | Err v \<Rightarrow> 0 < v \<and> v < w \<and> voter_is_certified s v = Ok None \<and> \<not> voter_is_nullified s v
        \<and> (\<forall>u. v < u \<longrightarrow> u < w \<longrightarrow> voter_is_certified s u = Ok None \<and> voter_is_nullified s u)
    | Panic \<Rightarrow> False"
proof -
  have f: "find_parent s w = find_parent_loop s (w - 1)" using assms(2) by (simp add: find_parent_def view_previous_def)
  have le: "u \<le> w - Suc 0 \<longleftrightarrow> u < w" for u using assms(2) by auto
  show ?thesis using find_parent_loop_correct [OF assms(1), of "w - 1"]
    unfolding f by (cases "find_parent_loop s (w - 1)") (auto simp: skippable_def le)
qed

theorem find_parent_correct_witness: "find_parent sample_voter 1 = Ok (0, 0) \<and> find_parent sample_voter 2 = Err 1"
proof -
  have "voter_is_certified sample_voter 0 = Ok (Some 0)" "voter_is_certified sample_voter 1 = Ok None"
      "\<not> voter_is_nullified sample_voter 1" "\<not> voter_is_nullified sample_voter 0"
    by (simp_all add: sample_voter_def voter_eval voter_is_certified_def voter_is_nullified_def round_is_certified_def)
  moreover from this have "\<not> (v < 2 \<and> 0 < v \<and> v \<noteq> 1)" for v :: nat by auto
  ultimately show ?thesis
    using find_parent_correct [OF sample_inv(1), of 1] find_parent_correct [OF sample_inv(1), of 2]
    by (auto split: result.splits simp: less_2_cases_iff)
qed

text \<open>
  C12. A proposal is accepted exactly when its parent is a certified view at or after the last finalized
  one, below the view of the proposal, with every view in between nullified; and the parent the voter
  itself chooses for its current view is always accepted.
\<close>

theorem parent_payload_accepts:
  assumes "voter_inv s" "final_inv s" "proposal_view p \<le> u64_max"
  shows "(parent_payload s p = Ok (Some d) \<longleftrightarrow> v_last_finalized s \<le> prop_parent p \<and> prop_parent p < proposal_view p
      \<and> voter_is_certified s (prop_parent p) = Ok (Some d)
      \<and> (\<forall>u. prop_parent p < u \<longrightarrow> u < proposal_view p \<longrightarrow> voter_is_nullified s u))
    \<and> (proposal_view p = v_view s \<and> find_parent s (v_view s) = Ok (prop_parent p, d) \<longrightarrow> parent_payload s p = Ok (Some d))"
proof -
  have lt: "v_last_finalized s < v_view s" using assms(1) by (simp add: voter_inv_def)
  have "v_last_finalized s \<le> v \<and> v < v_view s \<and> voter_is_certified s v = Ok (Some d)
      \<and> (\<forall>u. v < u \<longrightarrow> u < v_view s \<longrightarrow> voter_is_nullified s u)" if "find_parent s (v_view s) = Ok (v, d)" for v
  proof -
    have "find_parent_loop s (v_view s - 1) = Ok (v, d)" using that lt by (simp add: find_parent_def view_previous_def)
    with find_parent_loop_correct [OF assms(1), of "v_view s - 1"]
    have c: "v \<le> v_view s - 1" "voter_is_certified s v = Ok (Some d)" "\<forall>u. v < u \<longrightarrow> u \<le> v_view s - 1 \<longrightarrow> skippable s u"
      by simp_all
    have "\<not> skippable s (v_last_finalized s)" using final_certified [OF assms(1,2)] by (auto simp: skippable_def)
    then have "v_last_finalized s \<le> v" using c(3) lt by (metis Suc_diff_1 Suc_leI leI diff_Suc_1 less_Suc_eq_le not_less0 neq0_conv One_nat_def)
    then show ?thesis using c lt by (auto simp: skippable_def)
  qed
  then show ?thesis using parent_payload_cases [OF assms(1,3), of d] by simp
qed

theorem parent_payload_accepts_witness:
  "parent_payload sample_voter \<lparr>prop_round = Rnd 1 1, prop_parent = 0, payload = 8\<rparr> = Ok (Some 0)"
proof -
  have "voter_is_certified sample_voter 0 = Ok (Some 0)"
    by (simp add: sample_voter_def voter_eval voter_is_certified_def)
  then show ?thesis
    using parent_payload_accepts [OF sample_inv, of "\<lparr>prop_round = Rnd 1 1, prop_parent = 0, payload = 8\<rparr>" 0]
    by (simp add: proposal_view_def sample_view u64_max_def)
qed

text \<open>
  C13. The timeout of the current view is stable: asking for the deadline again, at any later time, gives
  the same deadline and changes nothing, so polling never postpones a timeout. After a timeout in a
  view the voter has not voted to finalize, the next deadline is one retry period away.
\<close>

theorem timeout_deadline_stable:
  assumes "voter_inv s" "voter_next_timeout_deadline s = (t, s1)"
  shows "voter_next_timeout_deadline (s1\<lparr>v_clock := now\<rparr>) = (t, s1\<lparr>v_clock := now\<rparr>)
    \<and> (fst (voter_handle_timeout s) \<noteq> (False, None, None) \<longrightarrow>
        fst (voter_next_timeout_deadline (snd (voter_handle_timeout s))) = v_clock s + v_nullify_retry s)"
proof -
  obtain r where r: "bt_get (v_views s) (v_view s) = Some r" using assms(1) by (auto simp: voter_inv_def has_current_def)
  let ?d = "round_next_timeout_deadline (v_clock s) (v_nullify_retry s) r"
  have s1: "t = fst ?d" "s1 = put_round (v_view s) (snd ?d) s"
    using assms(2) r by (auto simp: voter_next_timeout_deadline_def create_round_old case_prod_beta)
  have "round_next_timeout_deadline now (v_nullify_retry s) (snd ?d) = (fst ?d, snd ?d)"
    by (auto simp: round_next_timeout_deadline_def split: option.split)
  moreover have "bt_insert (v_view s) (snd ?d) (bt_insert (v_view s) (snd ?d) (v_views s)) = bt_insert (v_view s) (snd ?d) (v_views s)"
    using assms(1) by (intro bt_insert_same) (simp_all add: voter_inv_def bt_inv_insert bt_get_insert)
  ultimately have "voter_next_timeout_deadline (s1\<lparr>v_clock := now\<rparr>) = (t, s1\<lparr>v_clock := now\<rparr>)"
    unfolding s1 by (simp add: voter_next_timeout_deadline_def create_round_def put_round_def bt_get_insert case_prod_beta Let_def)
  moreover have "fst (voter_next_timeout_deadline (snd (voter_handle_timeout s))) = v_clock s + v_nullify_retry s"
    if "fst (voter_handle_timeout s) \<noteq> (False, None, None)"
    using that r by (auto simp: voter_handle_timeout_def create_round_old round_construct_nullify_def Let_def
        voter_next_timeout_deadline_def create_round_def put_round_def bt_get_insert case_prod_beta round_clear_deadlines_def
        round_next_timeout_deadline_def split: if_splits)
  ultimately show ?thesis by simp
qed

theorem timeout_deadline_stable_witness:
  "fst (voter_next_timeout_deadline sample_voter) = 10
   \<and> fst (voter_next_timeout_deadline ((snd (voter_next_timeout_deadline sample_voter))\<lparr>v_clock := 7\<rparr>)) = 10"
proof -
  have "fst (voter_next_timeout_deadline sample_voter) = 10"
    by (simp add: sample_voter_def voter_eval voter_next_timeout_deadline_def round_next_timeout_deadline_def)
  then show ?thesis using timeout_deadline_stable [OF sample_inv(1) surjective_pairing, of 7] by simp
qed

text \<open>
  C14. Pruning removes exactly the rounds below the activity window, reports their views, and never
  touches the round of the current view or that of the last finalized one.
\<close>

theorem prune_keeps_window:
  assumes "voter_inv s" "final_inv s" "voter_prune s = (removed, s')"
  shows "set removed = {v. v < voter_min_active s \<and> bt_get (v_views s) v \<noteq> None}
    \<and> (\<forall>v. bt_get (v_views s') v = (if v < voter_min_active s then None else bt_get (v_views s) v))
    \<and> bt_get (v_views s') (v_view s') \<noteq> None
    \<and> bt_get (v_views s') (v_last_finalized s) = bt_get (v_views s) (v_last_finalized s)
    \<and> voter_inv s' \<and> final_inv s'"
proof -
  have s': "s' = snd (voter_prune s)" using assms(3) by simp
  have "set removed = {v. v < voter_min_active s \<and> v \<in> fst ` set (v_views s)}"
    using assms(3) by (force simp: voter_prune_def bt_split_off_def)
  moreover have "v \<in> fst ` set (v_views s) \<longleftrightarrow> bt_get (v_views s) v \<noteq> None" for v
    by (simp add: bt_get_def map_of_eq_None_iff)
  moreover have "voter_min_active s \<le> v_last_finalized s"
    by (simp add: voter_min_active_def min_active_def view_saturating_sub_def)
  moreover have "voter_inv s'" "final_inv s'" using assms(1,2) s' voter_inv_prune final_inv_prune by auto
  ultimately show ?thesis by (auto simp: s' prune_views not_less voter_inv_def has_current_def)
qed

theorem prune_keeps_window_witness:
  "bt_get (v_views (snd (voter_prune sample_voter))) 1 \<noteq> None"
  using prune_keeps_window [OF sample_inv surjective_pairing] unfolding prune_same sample_view by blast

end
