(* ===== verification/Voter_Actor.thy ===== *)
theory Voter_Actor
  imports Voter_Run
begin

text \<open>
  The voter actor (\<open>consensus/src/simplex/actors/voter/actor.rs\<close>): what it does to its journal and sends
  to the other actors and the network, in order, is a list of effects that grows with every step. A
  panic keeps the effects up to it: it is \<open>Err\<close> of the actor at that point. The automaton, the
  network, the batcher and the resolver are the events the loop receives. The journal is a flag: the
  actor appends to it only once the replay is over.
\<close>

section \<open>Effects\<close>

datatype ('d, 's, 'c) activity =
    ReportVote "('d, 's) vote"
  | ReportCertificate "('d, 'c) certificate"
  | ReportCertification "('d, 'c) notarization"

datatype ('d, 's, 'c, 'k) effect =
    Append view "('d, 's, 'c) artifact"
  | Sync view
  | PruneJournal view
  | SendVote "('d, 's) vote"
  | SendCertificate "('d, 'c) certificate"
  | BlockPeer 'k
  | BatcherConstructed "('d, 's) vote"
  | BatcherUpdate view nat view
  | ResolverUpdated "('d, 'c) certificate"
  | ResolverCertified view bool
  | AutomatonPropose "('d, 'k) block_context"
  | AutomatonVerify "('d, 'k) block_context" 'd
  | AutomatonCertify 'd
  | RelayBroadcast 'd
  | Report "('d, 's, 'c) activity"

datatype resolved = ResolvedNone | ResolvedNotarization | ResolvedNullification | ResolvedFinalization

record ('d, 's, 'c, 'k) actor =
  a_state :: "('d, 's, 'c, 'k) voter"
  a_journal :: bool
  a_candidates :: "view list"
  a_pending_propose :: "('d, 'k) block_context option"
  a_pending_verify :: "('d, 'k) block_context option"
  a_pool :: "rnd list"
  a_out :: "('d, 's, 'c, 'k) effect list"

definition emit :: "('d, 's, 'c, 'k) effect \<Rightarrow> ('d, 's, 'c, 'k) actor \<Rightarrow> ('d, 's, 'c, 'k) actor" where
  "emit e a = a\<lparr>a_out := a_out a @ [e]\<rparr>"

text \<open>An operation of the state that panics takes the actor down.\<close>

fun run_state :: "('x, unit) result \<Rightarrow> ('d, 's, 'c, 'k) actor \<Rightarrow> ('x, ('d, 's, 'c, 'k) actor) result" where
  "run_state (Ok x) a = Ok x"
| "run_state (Err _) a = Err a"
| "run_state Panic a = Err a"

definition actor_new :: "nat \<Rightarrow> ('d, 's, 'c, 'k) config \<Rightarrow> (('d, 's, 'c, 'k) actor, unit) result" where
  "actor_new now cfg =
     (if cfg_leader_timeout cfg > cfg_notarization_timeout cfg then Panic
      else Ok \<lparr>a_state = voter_new now cfg, a_journal = False, a_candidates = [],
             a_pending_propose = None, a_pending_verify = None, a_pool = [], a_out = []\<rparr>)"

definition prune_views :: "('d, 's, 'c, 'k) actor \<Rightarrow> ('d, 's, 'c, 'k) actor" where
  "prune_views a =
     (let (removed, s) = voter_prune (a_state a); a1 = a\<lparr>a_state := s\<rparr> in
      if removed = [] then a1
      else if a_journal a1 then emit (PruneJournal (voter_min_active s)) a1 else a1)"

definition append_journal ::
  "view \<Rightarrow> ('d, 's, 'c) artifact \<Rightarrow> ('d, 's, 'c, 'k) actor \<Rightarrow> ('d, 's, 'c, 'k) actor" where
  "append_journal view artifact a = (if a_journal a then emit (Append view artifact) a else a)"

definition sync_journal :: "view \<Rightarrow> ('d, 's, 'c, 'k) actor \<Rightarrow> ('d, 's, 'c, 'k) actor" where
  "sync_journal view a = (if a_journal a then emit (Sync view) a else a)"

definition broadcast_vote :: "('d, 's) vote \<Rightarrow> ('d, 's, 'c, 'k) actor \<Rightarrow> ('d, 's, 'c, 'k) actor" where
  "broadcast_vote vote a = emit (SendVote vote) a"

definition broadcast_certificate :: "('d, 'c) certificate \<Rightarrow> ('d, 's, 'c, 'k) actor \<Rightarrow> ('d, 's, 'c, 'k) actor" where
  "broadcast_certificate certificate a = emit (SendCertificate certificate) a"

definition block_equivocator :: "'k option \<Rightarrow> ('d, 's, 'c, 'k) actor \<Rightarrow> ('d, 's, 'c, 'k) actor" where
  "block_equivocator equivocator a = (case equivocator of None \<Rightarrow> a | Some k \<Rightarrow> emit (BlockPeer k) a)"

section \<open>Requests to the automaton\<close>

definition try_propose ::
  "('d, 's, 'c, 'k) actor \<Rightarrow>
   (('d, 'k) block_context option \<times> ('d, 's, 'c, 'k) actor, ('d, 's, 'c, 'k) actor) result" where
  "try_propose a =
     and_then (run_state (voter_try_propose (a_state a)) a) (\<lambda>(res, s).
       let a1 = a\<lparr>a_state := s\<rparr> in
       case res of
         None \<Rightarrow> Ok (None, a1)
       | Some ctx \<Rightarrow> Ok (Some ctx, emit (AutomatonPropose ctx) a1))"

definition try_verify ::
  "('d, 's, 'c, 'k) actor \<Rightarrow>
   (('d, 'k) block_context option \<times> ('d, 's, 'c, 'k) actor, ('d, 's, 'c, 'k) actor) result" where
  "try_verify a =
     and_then (run_state (voter_try_verify (a_state a)) a) (\<lambda>(res, s).
       let a1 = a\<lparr>a_state := s\<rparr> in
       case res of
         None \<Rightarrow> Ok (None, a1)
       | Some (ctx, proposal) \<Rightarrow> Ok (Some ctx, emit (AutomatonVerify ctx (payload proposal)) a1))"

definition try_certify :: "view \<Rightarrow> ('d, 's, 'c, 'k) actor \<Rightarrow> rnd option \<times> ('d, 's, 'c, 'k) actor" where
  "try_certify view a =
     (case voter_try_certify (a_state a) view of
        Ready proposal \<Rightarrow> (Some (prop_round proposal), emit (AutomatonCertify (payload proposal)) a)
      | Pending \<Rightarrow> (None, a\<lparr>a_candidates := bs_insert view (a_candidates a)\<rparr>)
      | Skip \<Rightarrow> (None, a))"

section \<open>Handlers\<close>

definition handle_nullify :: "'s nullify \<Rightarrow> ('d, 's, 'c, 'k) actor \<Rightarrow> ('d, 's, 'c, 'k) actor" where
  "handle_nullify nullify a = append_journal (rnd_view (nl_round nullify)) (ANullify nullify) a"

definition handle_timeout :: "('d, 's, 'c, 'k) actor \<Rightarrow> ('d, 's, 'c, 'k) actor" where
  "handle_timeout a =
     (let ((retry, nullify, entry), s) = voter_handle_timeout (a_state a);
          a1 = a\<lparr>a_state := s\<rparr>;
          a2 = (case nullify of
                  None \<Rightarrow> a1
                | Some n \<Rightarrow>
                    let a' = (if \<not> retry then
                                sync_journal (rnd_view (nl_round n))
                                  (handle_nullify n (emit (BatcherConstructed (VNullify n)) a1))
                              else a1)
                    in broadcast_vote (VNullify n) a')
      in case entry of None \<Rightarrow> a2 | Some certificate \<Rightarrow> broadcast_certificate certificate a2)"

definition handle_nullification ::
  "'c nullification \<Rightarrow> ('d, 's, 'c, 'k) actor \<Rightarrow>
   (('d, 'c) certificate option \<times> ('d, 's, 'c, 'k) actor, ('d, 's, 'c, 'k) actor) result" where
  "handle_nullification nullification a =
     (let view = rnd_view (nln_round nullification) in
      and_then (run_state (voter_add_nullification nullification (a_state a)) a) (\<lambda>(added, s).
        let a1 = a\<lparr>a_state := s\<rparr> in
        if \<not> added then Ok (None, a1)
        else
          let a2 = append_journal view (ANullification nullification) a1;
              floor = (case voter_leader_index s view of
                         None \<Rightarrow> None
                       | Some leader \<Rightarrow> if voter_is_me s leader then voter_parent_certificate s view else None)
          in Ok (floor, a2)))"

definition handle_notarize :: "('d, 's) notarize \<Rightarrow> ('d, 's, 'c, 'k) actor \<Rightarrow> ('d, 's, 'c, 'k) actor" where
  "handle_notarize notarize a = append_journal (proposal_view (nz_proposal notarize)) (ANotarize notarize) a"

definition handle_notarization ::
  "('d, 'c) notarization \<Rightarrow> ('d, 's, 'c, 'k) actor \<Rightarrow> (('d, 's, 'c, 'k) actor, ('d, 's, 'c, 'k) actor) result" where
  "handle_notarization notarization a =
     (let view = proposal_view (nzn_proposal notarization) in
      and_then (run_state (voter_add_notarization notarization (a_state a)) a) (\<lambda>((added, equivocator), s).
        let a1 = a\<lparr>a_state := s\<rparr>;
            a2 = (if added then
                    append_journal view (ANotarization notarization)
                      (a1\<lparr>a_candidates := bs_insert view (a_candidates a1)\<rparr>)
                  else a1)
        in Ok (block_equivocator equivocator a2)))"

definition handle_certification ::
  "view \<Rightarrow> bool \<Rightarrow> ('d, 's, 'c, 'k) actor \<Rightarrow>
   (('d, 'c) notarization option \<times> ('d, 's, 'c, 'k) actor, ('d, 's, 'c, 'k) actor) result" where
  "handle_certification view success a =
     and_then (run_state (voter_certified view success (a_state a)) a) (\<lambda>(res, s).
       let a1 = a\<lparr>a_state := s\<rparr> in
       case res of
         None \<Rightarrow> Ok (None, a1)
       | Some notarization \<Rightarrow>
           let a2 = a1\<lparr>a_candidates := removeAll view (a_candidates a1)\<rparr>;
               a3 = append_journal view (ACertification (Rnd (v_epoch s) view) success) a2
           in Ok (Some notarization, sync_journal view a3))"

definition handle_finalize :: "('d, 's) finalize \<Rightarrow> ('d, 's, 'c, 'k) actor \<Rightarrow> ('d, 's, 'c, 'k) actor" where
  "handle_finalize finalize a = append_journal (proposal_view (fz_proposal finalize)) (AFinalize finalize) a"

definition handle_finalization ::
  "('d, 'c) finalization \<Rightarrow> ('d, 's, 'c, 'k) actor \<Rightarrow> (('d, 's, 'c, 'k) actor, ('d, 's, 'c, 'k) actor) result" where
  "handle_finalization finalization a =
     (let view = proposal_view (fzn_proposal finalization) in
      and_then (run_state (voter_add_finalization finalization (a_state a)) a) (\<lambda>((added, equivocator), s).
        let a1 = a\<lparr>a_state := s\<rparr>;
            a2 = (if added then append_journal view (AFinalization finalization) a1 else a1);
            a3 = block_equivocator equivocator a2
        in Ok (a3\<lparr>a_candidates := filter (\<lambda>v. v > v_last_finalized s) (a_candidates a3)\<rparr>)))"

section \<open>Votes and certificates that became available\<close>

definition try_broadcast_notarize :: "view \<Rightarrow> ('d, 's, 'c, 'k) actor \<Rightarrow> ('d, 's, 'c, 'k) actor" where
  "try_broadcast_notarize view a =
     (let (res, s) = voter_construct_notarize view (a_state a); a1 = a\<lparr>a_state := s\<rparr> in
      case res of
        None \<Rightarrow> a1
      | Some n \<Rightarrow>
          broadcast_vote (VNotarize n)
            (sync_journal view (handle_notarize n (emit (BatcherConstructed (VNotarize n)) a1))))"

definition try_broadcast_notarization ::
  "view \<Rightarrow> resolved \<Rightarrow> ('d, 's, 'c, 'k) actor \<Rightarrow> (('d, 's, 'c, 'k) actor, ('d, 's, 'c, 'k) actor) result" where
  "try_broadcast_notarization view resolved a =
     (let (res, s) = voter_broadcast_notarization view (a_state a); a1 = a\<lparr>a_state := s\<rparr> in
      case res of
        None \<Rightarrow> Ok a1
      | Some n \<Rightarrow>
          let a2 = (if resolved \<noteq> ResolvedNotarization then emit (ResolverUpdated (CNotarization n)) a1 else a1) in
          and_then (handle_notarization n a2) (\<lambda>a3.
            Ok (emit (Report (ReportCertificate (CNotarization n)))
                 (broadcast_certificate (CNotarization n) (sync_journal view a3)))))"

definition try_broadcast_nullification ::
  "view \<Rightarrow> resolved \<Rightarrow> ('d, 's, 'c, 'k) actor \<Rightarrow> (('d, 's, 'c, 'k) actor, ('d, 's, 'c, 'k) actor) result" where
  "try_broadcast_nullification view resolved a =
     (let (res, s) = voter_broadcast_nullification view (a_state a); a1 = a\<lparr>a_state := s\<rparr> in
      case res of
        None \<Rightarrow> Ok a1
      | Some n \<Rightarrow>
          let a2 = (if resolved \<noteq> ResolvedNullification then emit (ResolverUpdated (CNullification n)) a1 else a1) in
          and_then (handle_nullification n a2) (\<lambda>(floor, a3).
            let a4 = (case floor of None \<Rightarrow> a3 | Some c \<Rightarrow> broadcast_certificate c a3) in
            Ok (emit (Report (ReportCertificate (CNullification n)))
                 (broadcast_certificate (CNullification n) (sync_journal view a4)))))"

definition try_broadcast_finalize :: "view \<Rightarrow> ('d, 's, 'c, 'k) actor \<Rightarrow> ('d, 's, 'c, 'k) actor" where
  "try_broadcast_finalize view a =
     (let (res, s) = voter_construct_finalize view (a_state a); a1 = a\<lparr>a_state := s\<rparr> in
      case res of
        None \<Rightarrow> a1
      | Some f \<Rightarrow>
          broadcast_vote (VFinalize f)
            (sync_journal view (handle_finalize f (emit (BatcherConstructed (VFinalize f)) a1))))"

definition try_broadcast_finalization ::
  "view \<Rightarrow> resolved \<Rightarrow> ('d, 's, 'c, 'k) actor \<Rightarrow> (('d, 's, 'c, 'k) actor, ('d, 's, 'c, 'k) actor) result" where
  "try_broadcast_finalization view resolved a =
     (let (res, s) = voter_broadcast_finalization view (a_state a); a1 = a\<lparr>a_state := s\<rparr> in
      case res of
        None \<Rightarrow> Ok a1
      | Some f \<Rightarrow>
          let a2 = (if resolved \<noteq> ResolvedFinalization then emit (ResolverUpdated (CFinalization f)) a1 else a1) in
          and_then (handle_finalization f a2) (\<lambda>a3.
            Ok (emit (Report (ReportCertificate (CFinalization f)))
                 (broadcast_certificate (CFinalization f) (sync_journal view a3)))))"

definition notify ::
  "view \<Rightarrow> resolved \<Rightarrow> ('d, 's, 'c, 'k) actor \<Rightarrow> (('d, 's, 'c, 'k) actor, ('d, 's, 'c, 'k) actor) result" where
  "notify view resolved a =
     and_then (try_broadcast_notarization view resolved (try_broadcast_notarize view a)) (\<lambda>a1.
     and_then (try_broadcast_nullification view resolved a1) (\<lambda>a2.
       try_broadcast_finalization view resolved (try_broadcast_finalize view a2)))"

section \<open>Start\<close>

text \<open>One artifact of the replay.\<close>

fun replay_handle ::
  "('d, 's, 'c) artifact \<Rightarrow> ('d, 's, 'c, 'k) actor \<Rightarrow> (('d, 's, 'c, 'k) actor, ('d, 's, 'c, 'k) actor) result" where
  "replay_handle (ANotarize n) a = Ok (emit (Report (ReportVote (VNotarize n))) (handle_notarize n a))"
| "replay_handle (ANotarization n) a =
     and_then (handle_notarization n a) (\<lambda>a1.
       Ok (emit (Report (ReportCertificate (CNotarization n))) (emit (ResolverUpdated (CNotarization n)) a1)))"
| "replay_handle (ACertification r success) a =
     and_then (handle_certification (rnd_view r) success a) (\<lambda>(res, a1).
       case res of
         None \<Rightarrow> Ok a1
       | Some n \<Rightarrow>
           let a2 = emit (ResolverCertified (rnd_view r) success) a1
           in Ok (if success then emit (Report (ReportCertification n)) a2 else a2))"
| "replay_handle (ANullify n) a = Ok (emit (Report (ReportVote (VNullify n))) (handle_nullify n a))"
| "replay_handle (ANullification n) a =
     and_then (handle_nullification n a) (\<lambda>(_, a1).
       Ok (emit (Report (ReportCertificate (CNullification n))) (emit (ResolverUpdated (CNullification n)) a1)))"
| "replay_handle (AFinalize f) a = Ok (emit (Report (ReportVote (VFinalize f))) (handle_finalize f a))"
| "replay_handle (AFinalization f) a =
     and_then (handle_finalization f a) (\<lambda>a1.
       Ok (emit (Report (ReportCertificate (CFinalization f))) (emit (ResolverUpdated (CFinalization f)) a1)))"

definition replay_artifact ::
  "('d, 's, 'c) artifact \<Rightarrow> ('d, 's, 'c, 'k) actor \<Rightarrow> (('d, 's, 'c, 'k) actor, ('d, 's, 'c, 'k) actor) result" where
  "replay_artifact artifact a =
     and_then (run_state (voter_replay artifact (a_state a)) a) (\<lambda>s. replay_handle artifact (a\<lparr>a_state := s\<rparr>))"

fun replay_all ::
  "('d, 's, 'c) artifact list \<Rightarrow> ('d, 's, 'c, 'k) actor \<Rightarrow> (('d, 's, 'c, 'k) actor, ('d, 's, 'c, 'k) actor) result" where
  "replay_all [] a = Ok a"
| "replay_all (x # xs) a = and_then (replay_artifact x a) (replay_all xs)"

text \<open>Everything \<open>run\<close> does before its loop; \<open>stream\<close> is what the journal holds.\<close>

definition actor_start ::
  "'d \<Rightarrow> ('d, 's, 'c) artifact list \<Rightarrow> ('d, 's, 'c, 'k) actor \<Rightarrow>
   (('d, 's, 'c, 'k) actor, ('d, 's, 'c, 'k) actor) result" where
  "actor_start genesis stream a =
     and_then (run_state (set_genesis genesis (a_state a)) a) (\<lambda>s0.
     and_then (replay_all stream (a\<lparr>a_state := s0\<rparr>)) (\<lambda>a1.
       let observed_view = v_view (a_state a1);
           s = voter_expire_round observed_view (a_state a1);
           a2 = a1\<lparr>a_journal := True, a_state := s\<rparr>
       in case voter_leader_index s observed_view of
            None \<Rightarrow> Err a2
          | Some leader \<Rightarrow> Ok (emit (BatcherUpdate observed_view leader (v_last_finalized s)) a2)))"

section \<open>The loop\<close>

text \<open>The certification requests at the top of the loop; the handle of a request is its place in the
  pool when it is made.\<close>

definition certify_one :: "view \<Rightarrow> ('d, 's, 'c, 'k) actor \<Rightarrow> ('d, 's, 'c, 'k) actor" where
  "certify_one v a =
     (case try_certify v a of
        (None, a1) \<Rightarrow> a1
      | (Some ctx, a1) \<Rightarrow>
          a1\<lparr>a_pool := a_pool a1 @ [ctx],
             a_state := voter_set_certify_handle (rnd_view ctx) (length (a_pool a1)) (a_state a1)\<rparr>)"

definition loop_top :: "('d, 's, 'c, 'k) actor \<Rightarrow> (('d, 's, 'c, 'k) actor, ('d, 's, 'c, 'k) actor) result" where
  "loop_top a =
     (let current = v_view (a_state a);
          drop_stale = (\<lambda>p. case p of Some ctx \<Rightarrow> if rnd_view (ctx_round ctx) \<noteq> current then None else p | None \<Rightarrow> None);
          a1 = a\<lparr>a_pending_propose := drop_stale (a_pending_propose a),
                 a_pending_verify := drop_stale (a_pending_verify a)\<rparr> in
      and_then (if a_pending_propose a1 = None
                then and_then (try_propose a1) (\<lambda>(pp, a'). Ok (a'\<lparr>a_pending_propose := pp\<rparr>)) else Ok a1) (\<lambda>a2.
      and_then (if a_pending_verify a2 = None
                then and_then (try_verify a2) (\<lambda>(pv, a'). Ok (a'\<lparr>a_pending_verify := pv\<rparr>)) else Ok a2) (\<lambda>a3.
      and_then (run_state (view_next (v_last_finalized (a_state a3))) a3) (\<lambda>floor.
        let candidates = filter (\<lambda>v. floor \<le> v) (a_candidates a3);
            a4 = fold certify_one candidates (a3\<lparr>a_candidates := []\<rparr>)
        in Ok (a4\<lparr>a_state := snd (voter_next_timeout_deadline (a_state a4))\<rparr>)))))"

text \<open>
  What the loop waits for. A failed request is \<open>None\<close>; a certification result names the request it
  completes by its place in the pool, and \<open>None\<close> there is an aborted request.
\<close>

datatype ('d, 'c) event =
    EvTimeout
  | EvProposed "'d option"
  | EvVerified "bool option"
  | EvCertified nat "bool option option"
  | EvProposal "'d proposal"
  | EvCertificate "('d, 'c) certificate" bool

text \<open>A branch of the select gives the view to notify, or \<open>None\<close> where the code continues the loop.\<close>

type_synonym ('d, 's, 'c, 'k) branch =
  "((view \<times> resolved) option \<times> ('d, 's, 'c, 'k) actor, ('d, 's, 'c, 'k) actor) result"

definition on_proposed :: "'d option \<Rightarrow> ('d, 's, 'c, 'k) actor \<Rightarrow> ('d, 's, 'c, 'k) branch" where
  "on_proposed res a =
     (case a_pending_propose a of
        None \<Rightarrow> Ok (None, a)
      | Some ctx \<Rightarrow>
          let a1 = a\<lparr>a_pending_propose := None\<rparr>; s = a_state a in
          case res of
            None \<Rightarrow> Ok (None, a1)
          | Some proposed \<Rightarrow>
              if Rnd (v_epoch s) (v_view s) \<noteq> ctx_round ctx then Ok (None, a1)
              else
                let proposal = \<lparr>prop_round = ctx_round ctx, prop_parent = fst (ctx_parent ctx), payload = proposed\<rparr>;
                    (b, s1) = voter_proposed proposal s; a2 = a1\<lparr>a_state := s1\<rparr>
                in if \<not> b then Ok (None, a2)
                   else Ok (Some (v_view s1, ResolvedNone), emit (RelayBroadcast proposed) a2))"

definition on_verified :: "bool option \<Rightarrow> ('d, 's, 'c, 'k) actor \<Rightarrow> ('d, 's, 'c, 'k) branch" where
  "on_verified res a =
     (case a_pending_verify a of
        None \<Rightarrow> Ok (None, a)
      | Some ctx \<Rightarrow>
          let a1 = a\<lparr>a_pending_verify := None\<rparr>; view = rnd_view (ctx_round ctx);
              a2 = (case res of
                      Some True \<Rightarrow> a1\<lparr>a_state := snd (voter_verified view (a_state a1))\<rparr>
                    | Some False \<Rightarrow> handle_timeout a1
                    | None \<Rightarrow> a1)
          in Ok (Some (view, ResolvedNone), a2))"

definition on_certified :: "nat \<Rightarrow> bool option option \<Rightarrow> ('d, 's, 'c, 'k) actor \<Rightarrow> ('d, 's, 'c, 'k) branch" where
  "on_certified i res a =
     (if length (a_pool a) \<le> i then Ok (None, a)
      else
        let view = rnd_view (a_pool a ! i); a0 = a\<lparr>a_pool := take i (a_pool a) @ drop (Suc i) (a_pool a)\<rparr> in
        case res of
          None \<Rightarrow> Ok (None, a0)
        | Some (Some success) \<Rightarrow>
            and_then (handle_certification view success a0) (\<lambda>(o', a1).
              case o' of
                None \<Rightarrow> Ok (None, a1)
              | Some notarization \<Rightarrow>
                  let a2 = emit (ResolverCertified view success) a1;
                      a3 = (if success then emit (Report (ReportCertification notarization)) a2 else a2)
                  in Ok (Some (view, ResolvedNone), a3))
        | Some None \<Rightarrow>
            Ok (Some (view, ResolvedNone),
                a0\<lparr>a_state := voter_retry_certification view (a_state a0),
                   a_candidates := bs_insert view (a_candidates a0)\<rparr>))"

definition on_proposal :: "'d proposal \<Rightarrow> ('d, 's, 'c, 'k) actor \<Rightarrow> ('d, 's, 'c, 'k) branch" where
  "on_proposal proposal a =
     (let view = proposal_view proposal in
      and_then (run_state (voter_is_interesting (a_state a) view False) a) (\<lambda>interesting.
        if \<not> interesting then Ok (None, a)
        else
          let (b, s) = voter_set_proposal view proposal (a_state a); a1 = a\<lparr>a_state := s\<rparr>
          in if \<not> b then Ok (None, a1) else Ok (Some (view, ResolvedNone), a1)))"

definition on_certificate :: "('d, 'c) certificate \<Rightarrow> bool \<Rightarrow> ('d, 's, 'c, 'k) actor \<Rightarrow> ('d, 's, 'c, 'k) branch" where
  "on_certificate certificate from_resolver a =
     (let view = certificate_view certificate in
      and_then (run_state (voter_is_interesting (a_state a) view True) a) (\<lambda>interesting.
        if \<not> interesting then Ok (None, a)
        else case certificate of
          CNotarization n \<Rightarrow>
            and_then (handle_notarization n a) (\<lambda>a1.
              Ok (Some (view, if from_resolver then ResolvedNotarization else ResolvedNone), a1))
        | CNullification n \<Rightarrow>
            and_then (handle_nullification n a) (\<lambda>(floor, a1).
              let a2 = (case floor of None \<Rightarrow> a1 | Some c \<Rightarrow> broadcast_certificate c a1)
              in Ok (Some (view, if from_resolver then ResolvedNullification else ResolvedNone), a2))
        | CFinalization f \<Rightarrow>
            and_then (handle_finalization f a) (\<lambda>a1.
              Ok (Some (view, if from_resolver then ResolvedFinalization else ResolvedNone), a1))))"

fun on_event :: "('d, 'c) event \<Rightarrow> ('d, 's, 'c, 'k) actor \<Rightarrow> ('d, 's, 'c, 'k) branch" where
  "on_event EvTimeout a = (let a1 = handle_timeout a in Ok (Some (v_view (a_state a1), ResolvedNone), a1))"
| "on_event (EvProposed res) a = on_proposed res a"
| "on_event (EvVerified res) a = on_verified res a"
| "on_event (EvCertified i res) a = on_certified i res a"
| "on_event (EvProposal proposal) a = on_proposal proposal a"
| "on_event (EvCertificate certificate from_resolver) a = on_certificate certificate from_resolver a"

text \<open>The end of an iteration: the batcher learns of a new view and says whether its leader is active.\<close>

definition loop_bottom ::
  "view \<Rightarrow> bool \<Rightarrow> ('d, 's, 'c, 'k) actor \<Rightarrow> (('d, 's, 'c, 'k) actor, ('d, 's, 'c, 'k) actor) result" where
  "loop_bottom start is_active a =
     (let s = a_state a; current_view = v_view s in
      if current_view > start then
        case voter_leader_index s current_view of
          None \<Rightarrow> Err a
        | Some leader \<Rightarrow>
            let a1 = emit (BatcherUpdate current_view leader (v_last_finalized s)) a
            in if \<not> is_active \<and> \<not> voter_is_me s leader
               then Ok (a1\<lparr>a_state := voter_expire_round current_view s\<rparr>) else Ok a1
      else Ok a)"

definition loop_iteration ::
  "nat \<Rightarrow> ('d, 'c) event \<Rightarrow> bool \<Rightarrow> ('d, 's, 'c, 'k) actor \<Rightarrow>
   (('d, 's, 'c, 'k) actor, ('d, 's, 'c, 'k) actor) result" where
  "loop_iteration now event is_active a =
     and_then (loop_top (a\<lparr>a_state := (a_state a)\<lparr>v_clock := now\<rparr>\<rparr>)) (\<lambda>a1.
       let start = v_view (a_state a1) in
       and_then (on_event event a1) (\<lambda>(target, a2).
         case target of
           None \<Rightarrow> Ok a2
         | Some (view, resolved) \<Rightarrow>
             and_then (notify view resolved a2) (\<lambda>a3. loop_bottom start is_active (prune_views a3))))"

end
