(* ===== verification/Voter_Core.thy ===== *)
theory Voter_Core
  imports Voter_Run
begin

text \<open>
  Which operations of the voter state touch what the journal must account for: the votes cast in a
  round, its finalization and whether that was broadcast. Each operation not listed here as changing
  one of these leaves all of them alone, in every view.
\<close>

definition core :: "('d, 's, 'c, 'k) round \<Rightarrow> bool \<times> bool \<times> ('d, 'c) finalization option \<times> bool" where
  "core r = (r_broadcast_notarize r, r_broadcast_nullify r, r_finalization r, r_broadcast_finalization r)"

definition core_at :: "('d, 's, 'c, 'k) voter \<Rightarrow> view \<Rightarrow> bool \<times> bool \<times> ('d, 'c) finalization option \<times> bool" where
  "core_at s v = (case bt_get (v_views s) v of None \<Rightarrow> (False, False, None, False) | Some r \<Rightarrow> core r)"

lemma core_new [simp]: "core (round_new sch rnd now) = (False, False, None, False)"
  by (simp add: core_def round_new_def)

lemma core_set_leader: "round_set_leader l r = Ok r' \<Longrightarrow> core r' = core r"
  by (auto simp: core_def round_set_leader_def split: if_splits)

lemma core_certified: "round_certified b r = Ok r' \<Longrightarrow> core r' = core r"
  by (auto simp: core_def round_certified_def split: if_splits)

lemma core_rounds [simp]:
  "core (round_set_deadlines x y r) = core r" "core (round_clear_deadlines r) = core r"
  "core (round_set_certify_handle h r) = core r" "core (round_unset_certify_handle r) = core r"
  "core (snd (round_next_timeout_deadline now t r)) = core r" "core (snd (round_try_propose r)) = core r"
  "core (snd (round_try_verify r)) = core r" "core (snd (round_proposed p r)) = core r"
  "core (snd (round_verified r)) = core r" "core (snd (round_set_proposal p r)) = core r"
  "core (snd (round_add_notarization n r)) = core r" "core (snd (round_add_nullification m r)) = core r"
  "core (snd (round_get_broadcast_notarization r)) = core r" "core (snd (round_get_broadcast_nullification r)) = core r"
  "core (snd (round_construct_finalize r)) = core r"
  by (auto simp: core_def round_set_deadlines_def round_clear_deadlines_def round_set_certify_handle_def
      round_unset_certify_handle_def round_next_timeout_deadline_def round_try_propose_def round_try_verify_def
      round_proposed_def round_verified_def round_set_proposal_def round_add_notarization_def
      round_add_recovered_proposal_def round_add_nullification_def round_get_broadcast_notarization_def
      round_get_broadcast_nullification_def round_construct_finalize_def Let_def case_prod_beta
      split: option.split change.split)

text \<open>Writing a round back, and creating one, keeps the core of every view if it keeps that of the round.\<close>

lemma core_at_put: "core r = core_at s w \<Longrightarrow> core_at (put_round w r s) = core_at s"
  by (auto simp: core_at_def put_round_def bt_get_insert)

lemma core_at_upd: "core_at (put_round w r s) = (core_at s)(w := core r)"
  by (auto simp: core_at_def put_round_def bt_get_insert)

lemma core_at_create [simp]: "core_at (snd (create_round w s)) = core_at s"
  by (auto simp: core_at_def create_round_def put_round_def bt_get_insert Let_def split: option.split)

lemma core_create [simp]: "core (fst (create_round w s)) = core_at s w"
  by (auto simp: core_at_def create_round_def Let_def split: option.split)

lemma core_at_with: "core r = core_at s w \<Longrightarrow> core_at (put_round w r (snd (create_round w s))) = core_at s"
  by (simp add: core_at_put)

lemma core_at_get: "bt_get (v_views s) w = Some r \<Longrightarrow> core r' = core r \<Longrightarrow> core_at (put_round w r' s) = core_at s"
  by (simp add: core_at_put core_at_def)

lemma core_at_fields [simp]:
  "core_at (s\<lparr>v_view := x\<rparr>) = core_at s" "core_at (s\<lparr>v_last_finalized := x\<rparr>) = core_at s"
  "core_at (s\<lparr>v_clock := c\<rparr>) = core_at s"
  by (simp_all add: core_at_def fun_eq_iff)

lemma core_at_enter_view [simp]: "core_at (snd (enter_view w s)) = core_at s"
  by (simp add: enter_view_def Let_def case_prod_beta core_at_with)

lemma core_at_set_leader: "set_leader w c s = Ok s' \<Longrightarrow> core_at s' = core_at s"
  by (auto simp: set_leader_def Let_def case_prod_beta core_set_leader core_at_with split: if_splits elim!: and_then_OkE)

lemma core_at_ops [simp]:
  "core_at (snd (voter_next_timeout_deadline s)) = core_at s" "core_at (voter_expire_round w s) = core_at s"
  "core_at (snd (voter_set_proposal w p s)) = core_at s" "core_at (snd (voter_construct_finalize w s)) = core_at s"
  "core_at (snd (voter_broadcast_notarization w s)) = core_at s" "core_at (snd (voter_broadcast_nullification w s)) = core_at s"
  "core_at (snd (voter_proposed p s)) = core_at s" "core_at (snd (voter_verified w s)) = core_at s"
  "core_at (voter_set_certify_handle w h s) = core_at s" "core_at (voter_retry_certification w s) = core_at s"
  by (simp_all add: voter_next_timeout_deadline_def voter_expire_round_def voter_set_proposal_def
      voter_construct_finalize_def voter_broadcast_notarization_def voter_broadcast_nullification_def voter_proposed_def
      voter_verified_def voter_set_certify_handle_def voter_retry_certification_def Let_def case_prod_beta
      core_at_with core_at_get split: option.split)

lemma core_at_try_propose: "voter_try_propose s = Ok (c, s') \<Longrightarrow> core_at s' = core_at s"
  by (auto simp: voter_try_propose_def Let_def case_prod_beta core_at_get split: option.splits result.splits if_splits)

lemma core_at_try_verify:
  assumes "voter_try_verify s = Ok (x, s')"
  shows "core_at s' = core_at s"
proof (cases "bt_get (v_views s) (v_view s)")
  case (Some r)
  then show ?thesis
  proof (cases "round_should_verify r")
    case (Some lp)
    then show ?thesis using assms \<open>bt_get (v_views s) (v_view s) = Some r\<close>
      by (cases lp) (auto simp: voter_try_verify_def Let_def case_prod_beta core_at_get split: option.splits if_splits elim!: and_then_OkE)
  qed (use assms Some in \<open>simp add: voter_try_verify_def\<close>)
qed (use assms in \<open>simp add: voter_try_verify_def\<close>)

lemma core_at_add_notarization: "voter_add_notarization n s = Ok (b, s') \<Longrightarrow> core_at s' = core_at s"
  by (auto simp: voter_add_notarization_def Let_def case_prod_beta core_at_with elim!: and_then_OkE dest!: core_at_set_leader)

lemma core_at_add_nullification: "voter_add_nullification n s = Ok (b, s') \<Longrightarrow> core_at s' = core_at s"
  by (auto simp: voter_add_nullification_def Let_def case_prod_beta core_at_with elim!: and_then_OkE dest!: core_at_set_leader)

lemma core_at_certified: "voter_certified w b s = Ok (n, s') \<Longrightarrow> core_at s' = core_at s"
  by (auto simp: voter_certified_def Let_def core_at_get core_certified split: option.splits if_splits elim!: and_then_OkE)

section \<open>The operations that change it\<close>

lemma core_at_handle_timeout:
  "core_at (snd (voter_handle_timeout s)) = (core_at s)(v_view s :=
     (let (n, l, f, b) = core_at s (v_view s) in
        (n, l \<or> \<not> r_broadcast_finalize (fst (create_round (v_view s) s)), f, b)))"
  by (auto simp: voter_handle_timeout_def round_construct_nullify_def round_clear_deadlines_def Let_def case_prod_beta
      core_at_def core_def create_round_def put_round_def bt_get_insert round_new_def fun_eq_iff split: option.split)

text \<open>Signing fails exactly for a scheme without a local participant.\<close>

definition scheme_ok :: "('d, 's, 'k) scheme \<Rightarrow> bool" where
  "scheme_ok sch \<longleftrightarrow> (\<forall>ns x. scheme_sign sch ns x = None \<longleftrightarrow> scheme_me sch = None)"

lemma core_at_construct_notarize:
  assumes "voter_construct_notarize w s = (n, s')" "voter_inv s" "scheme_ok (v_scheme s)"
  shows "\<exists>x. core_at s' = (core_at s)(w := (x, snd (core_at s w)))
    \<and> (x \<longrightarrow> fst (core_at s w) \<or> n \<noteq> None \<or> scheme_me (v_scheme s) = None)"
proof (cases "bt_get (v_views s) w")
  case None
  then show ?thesis using assms(1) by (intro exI [of _ "fst (core_at s w)"]) (auto simp: voter_construct_notarize_def)
next
  case (Some r)
  let ?c = "round_construct_notarize r"
  have s': "s' = put_round w (snd ?c) s" and n: "n = (case fst ?c of None \<Rightarrow> None | Some p \<Rightarrow> notarize_sign (v_scheme s) (v_namespace s) p)"
    using assms(1) Some
    by (auto simp: voter_construct_notarize_def Let_def case_prod_beta put_round_def split: option.splits)
  have "fst ?c \<noteq> None" if "r_broadcast_notarize (snd ?c)" "\<not> r_broadcast_notarize r"
    using that voter_inv_round [OF assms(2) Some]
    by (auto simp: round_construct_notarize_def round_at_def round_inv_def slot_inv_def split: if_splits)
  then have "r_broadcast_notarize (snd ?c) \<Longrightarrow> r_broadcast_notarize r \<or> n \<noteq> None \<or> scheme_me (v_scheme s) = None"
    using assms(3) unfolding n by (cases "r_broadcast_notarize r") (auto simp: notarize_sign_def scheme_ok_def split: option.split)
  moreover have "core (snd ?c) = (r_broadcast_notarize (snd ?c), snd (core r))"
    by (auto simp: round_construct_notarize_def core_def)
  ultimately show ?thesis using Some
    by (intro exI [of _ "r_broadcast_notarize (snd ?c)"]) (auto simp: s' core_at_def put_round_def bt_get_insert fun_eq_iff core_def)
qed

lemma core_add_finalization:
  "core (snd (round_add_finalization fin r)) = (let (n, l, f, b) = core r in (n, l, Some (case f of None \<Rightarrow> fin | Some x \<Rightarrow> x), b))"
  "fst (fst (round_add_finalization fin r)) \<longleftrightarrow> fst (snd (snd (core r))) = None"
  by (auto simp: core_def round_add_finalization_def round_add_recovered_proposal_def round_clear_deadlines_def Let_def
      case_prod_beta split: change.split option.split)

lemma core_at_add_finalization:
  assumes "voter_add_finalization fin s = Ok (b, s')"
  shows "core_at s' = (core_at s)(proposal_view (fzn_proposal fin) :=
     (let (n, l, f, b) = core_at s (proposal_view (fzn_proposal fin)) in (n, l, Some (case f of None \<Rightarrow> fin | Some x \<Rightarrow> x), b)))
    \<and> (fst b \<longleftrightarrow> fst (snd (snd (core_at s (proposal_view (fzn_proposal fin))))) = None)"
proof -
  let ?w = "proposal_view (fzn_proposal fin)"
  define s0 where "s0 = (if ?w > v_last_finalized s then s\<lparr>v_last_finalized := ?w\<rparr> else s)"
  obtain s2 where s2: "set_leader (?w + 1) (Some (fzn_certificate fin)) (snd (enter_view (?w + 1) s0)) = Ok s2"
    and s': "s' = put_round ?w (snd (round_add_finalization fin (fst (create_round ?w s2)))) (snd (create_round ?w s2))"
    and b: "b = fst (round_add_finalization fin (fst (create_round ?w s2)))"
    using assms by (auto simp: voter_add_finalization_def Let_def case_prod_beta view_next_eq_Ok s0_def [symmetric]
        elim!: and_then_OkE)
  have c: "core_at s2 = core_at s" using core_at_set_leader [OF s2] by (simp add: s0_def)
  have "core (fst (create_round ?w s2)) = core_at s ?w" using c by simp
  with core_add_finalization [of fin "fst (create_round ?w s2)"] show ?thesis
    using c by (simp only: s' b core_at_upd core_at_create)
qed

lemma core_at_broadcast_finalization:
  assumes "voter_broadcast_finalization w s = (res, s')"
  shows "core_at s' = (core_at s)(w := (let (n, l, f, b) = core_at s w in (n, l, f, b \<or> res \<noteq> None)))
    \<and> (case res of Some x \<Rightarrow> fst (snd (snd (core_at s w))) = Some x
        | None \<Rightarrow> snd (snd (snd (core_at s w))) \<or> fst (snd (snd (core_at s w))) = None)"
proof (cases "bt_get (v_views s) w")
  case (Some r)
  have "res = fst (round_get_broadcast_finalization r)" "s' = put_round w (snd (round_get_broadcast_finalization r)) s"
    using assms Some by (simp_all add: voter_broadcast_finalization_def case_prod_beta)
  then show ?thesis using Some
    by (simp add: core_at_upd) (simp add: core_at_def core_def round_get_broadcast_finalization_def split: option.split)
qed (use assms in \<open>auto simp: voter_broadcast_finalization_def core_at_def fun_eq_iff\<close>)

lemma core_at_prune:
  "core_at (snd (voter_prune s)) v = (if voter_min_active s \<le> v then core_at s v else (False, False, None, False))"
  by (simp add: core_at_def Voter_State.prune_views)

end
