(* ===== verification/Voter_Journal.thy ===== *)
theory Voter_Journal
  imports Voter_Actor Voter_Core
begin

text \<open>
  What the effects of the voter actor leave behind: the sections of its journal, with how much of each
  is durable, and the votes it has sent. A crash loses what was appended to a section after its last
  sync, from some point on. A section is well ordered when the votes recorded in it agree with each
  other and with the certificates recorded before them.
\<close>

section \<open>The journal and the network\<close>

record ('d, 's, 'c) world =
  w_sections :: "(view, ('d, 's, 'c) artifact list \<times> nat) btree"
  w_floor :: view
  w_sent :: "('d, 's) vote set"

definition w_empty :: "('d, 's, 'c) world" where
  "w_empty = \<lparr>w_sections = [], w_floor = 0, w_sent = {}\<rparr>"

definition entries :: "('d, 's, 'c) world \<Rightarrow> view \<Rightarrow> ('d, 's, 'c) artifact list" where
  "entries w v = (case bt_get (w_sections w) v of None \<Rightarrow> [] | Some (es, _) \<Rightarrow> es)"

definition synced :: "('d, 's, 'c) world \<Rightarrow> view \<Rightarrow> nat" where
  "synced w v = (case bt_get (w_sections w) v of None \<Rightarrow> 0 | Some (_, n) \<Rightarrow> n)"

definition durable :: "('d, 's, 'c) world \<Rightarrow> view \<Rightarrow> ('d, 's, 'c) artifact set" where
  "durable w v = set (take (synced w v) (entries w v))"

definition stream :: "('d, 's, 'c) world \<Rightarrow> ('d, 's, 'c) artifact list" where
  "stream w = concat (map (fst \<circ> snd) (w_sections w))"

fun exec :: "('d, 's, 'c, 'k) effect \<Rightarrow> ('d, 's, 'c) world \<Rightarrow> ('d, 's, 'c) world" where
  "exec (Append v x) w = w\<lparr>w_sections := bt_insert v (entries w v @ [x], synced w v) (w_sections w)\<rparr>"
| "exec (Sync v) w =
     (case bt_get (w_sections w) v of
        None \<Rightarrow> w
      | Some (es, _) \<Rightarrow> w\<lparr>w_sections := bt_insert v (es, length es) (w_sections w)\<rparr>)"
| "exec (PruneJournal m) w =
     w\<lparr>w_sections := snd (bt_split_off m (w_sections w)), w_floor := max m (w_floor w)\<rparr>"
| "exec (SendVote x) w = w\<lparr>w_sent := insert x (w_sent w)\<rparr>"
| "exec _ w = w"

definition execs :: "('d, 's, 'c, 'k) effect list \<Rightarrow> ('d, 's, 'c) world \<Rightarrow> ('d, 's, 'c) world" where
  "execs = fold exec"

text \<open>A crash keeps the durable part of every section and possibly more of it.\<close>

definition survives :: "('d, 's, 'c) world \<Rightarrow> ('d, 's, 'c) world \<Rightarrow> bool" where
  "survives w w' \<longleftrightarrow> bt_inv (w_sections w') \<and> w_floor w' = w_floor w \<and> w_sent w' = w_sent w
     \<and> (\<forall>v. \<exists>k. synced w v \<le> k \<and> entries w' v = take k (entries w v) \<and> synced w' v = length (entries w' v))"

section \<open>Well-ordered sections\<close>

definition proposals_of :: "('d, 's, 'c) artifact set \<Rightarrow> 'd proposal set" where
  "proposals_of S = {p. \<exists>x \<in> S. (\<exists>n. x = ANotarize n \<and> p = nz_proposal n) \<or> (\<exists>n. x = ANotarization n \<and> p = nzn_proposal n)
     \<or> (\<exists>f. x = AFinalization f \<and> p = fzn_proposal f)}"

fun ordered :: "('d, 's, 'c) artifact \<Rightarrow> ('d, 's, 'c) artifact set \<Rightarrow> bool" where
  "ordered (ANotarize n) S \<longleftrightarrow> (\<forall>p \<in> proposals_of S. p = nz_proposal n)"
| "ordered (AFinalize f) S \<longleftrightarrow> (\<exists>n. ANotarize n \<in> S \<and> nz_proposal n = fz_proposal f) \<and> (\<forall>n. ANullify n \<notin> S)"
| "ordered (ANullify n) S \<longleftrightarrow> (\<forall>f. AFinalize f \<notin> S)"
| "ordered (ANotarization n) S \<longleftrightarrow> (\<forall>m. ANotarization m \<notin> S)"
| "ordered (AFinalization f) S \<longleftrightarrow> (\<forall>g. AFinalization g \<notin> S)"
| "ordered _ S \<longleftrightarrow> True"

fun section_ok :: "view \<Rightarrow> ('d, 's, 'c) artifact set \<Rightarrow> ('d, 's, 'c) artifact list \<Rightarrow> bool" where
  "section_ok v S [] \<longleftrightarrow> True"
| "section_ok v S (x # xs) \<longleftrightarrow> artifact_view x = v \<and> ordered x S \<and> section_ok v (insert x S) xs"

text \<open>The artifact that records a vote, up to the signature.\<close>

fun records :: "('d, 's, 'c) artifact \<Rightarrow> ('d, 's) vote \<Rightarrow> bool" where
  "records (ANotarize m) (VNotarize n) \<longleftrightarrow> nz_proposal m = nz_proposal n"
| "records (ANullify m) (VNullify n) \<longleftrightarrow> rnd_view (nl_round m) = rnd_view (nl_round n)"
| "records (AFinalize m) (VFinalize n) \<longleftrightarrow> fz_proposal m = fz_proposal n"
| "records _ _ \<longleftrightarrow> False"

lemma section_ok_append: "section_ok v S (xs @ ys) \<longleftrightarrow> section_ok v S xs \<and> section_ok v (S \<union> set xs) ys"
  by (induction xs arbitrary: S) simp_all

lemma section_ok_snoc: "section_ok v S (xs @ [x]) \<longleftrightarrow> section_ok v S xs \<and> artifact_view x = v \<and> ordered x (S \<union> set xs)"
  by (simp add: section_ok_append)

lemma section_ok_take: "section_ok v S xs \<Longrightarrow> section_ok v S (take k xs)"
  using section_ok_append [of v S "take k xs" "drop k xs"] by simp

lemma section_ok_view: "section_ok v S xs \<Longrightarrow> x \<in> set xs \<Longrightarrow> artifact_view x = v"
  by (induction xs arbitrary: S) auto

lemma proposals_of_mono: "S \<subseteq> T \<Longrightarrow> proposals_of S \<subseteq> proposals_of T"
  by (auto simp: proposals_of_def)

lemma proposals_of_notarize: "ANotarize n \<in> S \<Longrightarrow> nz_proposal n \<in> proposals_of S"
  by (auto simp: proposals_of_def)

lemma section_split:
  assumes "section_ok v S es" "x \<in> set es"
  obtains xs ys where "es = xs @ x # ys" "ordered x (S \<union> set xs)"
proof -
  obtain xs ys where "es = xs @ x # ys" using assms(2) by (auto simp: in_set_conv_decomp)
  then show thesis using that assms(1) by (simp add: section_ok_append)
qed

lemma section_notarize_unique:
  assumes "section_ok v {} es" "ANotarize m \<in> set es" "ANotarize n \<in> set es"
  shows "nz_proposal m = nz_proposal n"
proof -
  obtain xs ys where m: "es = xs @ ANotarize m # ys" "ordered (ANotarize m) (set xs)"
    using section_split [OF assms(1,2)] by auto
  obtain us vs where n: "es = us @ ANotarize n # vs" "ordered (ANotarize n) (set us)"
    using section_split [OF assms(1,3)] by auto
  have "ANotarize n \<in> set xs \<or> ANotarize n = ANotarize m \<or> ANotarize m \<in> set us"
    using m(1) n(1) by (auto simp: append_eq_append_conv2 append_eq_Cons_conv Cons_eq_append_conv)
  then show ?thesis using m(2) n(2) by (auto dest: proposals_of_notarize)
qed

lemma section_finalize_backed:
  assumes "section_ok v {} es" "AFinalize f \<in> set es"
  shows "\<exists>n. ANotarize n \<in> set es \<and> nz_proposal n = fz_proposal f"
proof -
  obtain xs ys where "es = xs @ AFinalize f # ys" "ordered (AFinalize f) ({} \<union> set xs)"
    using section_split [OF assms] .
  then show ?thesis by auto
qed

lemma section_finalize_notarize:
  assumes "section_ok v {} es" "AFinalize f \<in> set es" "ANotarize n \<in> set es"
  shows "fz_proposal f = nz_proposal n"
proof -
  obtain m where "ANotarize m \<in> set es" "nz_proposal m = fz_proposal f"
    using section_finalize_backed [OF assms(1,2)] by blast
  then show ?thesis using section_notarize_unique [OF assms(1) _ assms(3)] by metis
qed

lemma section_finalize_nullify:
  assumes "section_ok v {} es" "AFinalize f \<in> set es"
  shows "ANullify n \<notin> set es"
proof
  assume n: "ANullify n \<in> set es"
  obtain xs ys where f: "es = xs @ AFinalize f # ys" "ordered (AFinalize f) (set xs)"
    using section_split [OF assms] by auto
  obtain us vs where m: "es = us @ ANullify n # vs" "ordered (ANullify n) (set us)"
    using section_split [OF assms(1) n] by auto
  have "ANullify n \<in> set xs \<or> AFinalize f \<in> set us"
    using m(1) f(1) by (auto simp: append_eq_append_conv2 append_eq_Cons_conv Cons_eq_append_conv)
  then show False using m(2) f(2) by auto
qed

lemma records_iff:
  "records x (VNotarize n) \<longleftrightarrow> (\<exists>m. x = ANotarize m \<and> nz_proposal m = nz_proposal n)"
  "records x (VNullify l) \<longleftrightarrow> (\<exists>m. x = ANullify m \<and> rnd_view (nl_round m) = rnd_view (nl_round l))"
  "records x (VFinalize f) \<longleftrightarrow> (\<exists>m. x = AFinalize m \<and> fz_proposal m = fz_proposal f)"
  by (cases x; simp)+

lemma section_finalize_unique:
  assumes "section_ok v {} es" "AFinalize f \<in> set es" "AFinalize g \<in> set es"
  shows "fz_proposal f = fz_proposal g"
  using section_finalize_backed [OF assms(1,2)] section_finalize_notarize [OF assms(1)] assms(2,3) by metis

lemma section_agree:
  assumes "section_ok v {} es" "x \<in> set es" "y \<in> set es" "records x a" "records y b"
  shows "agree a b"
proof -
  note nn = section_notarize_unique [OF assms(1)] and fn = section_finalize_notarize [OF assms(1)]
    and ff = section_finalize_unique [OF assms(1)] and fl = section_finalize_nullify [OF assms(1)]
  show ?thesis
  proof (cases a)
    case (VNotarize m)
    then obtain m' where x: "ANotarize m' \<in> set es" "nz_proposal m' = nz_proposal m" using assms(2,4) by (auto simp: records_iff)
    show ?thesis using assms(3,5) VNotarize x(2) nn [OF x(1)] fn [OF _ x(1)]
      by (cases b) (fastforce simp: records_iff)+
  next
    case (VNullify m)
    then show ?thesis using assms(2-5) fl by (cases b) (auto simp: records_iff)
  next
    case (VFinalize m)
    then obtain m' where x: "AFinalize m' \<in> set es" "fz_proposal m' = fz_proposal m" using assms(2,4) by (auto simp: records_iff)
    show ?thesis using assms(3,5) VFinalize x(2) fn [OF x(1)] ff [OF x(1)] fl [OF x(1)]
      by (cases b) (fastforce simp: records_iff)+
  qed
qed

section \<open>The world is accounted for\<close>

text \<open>
  The votes sent are consistent and, above the prune floor, durable in the journal; the sections are
  well ordered; and the floor is the activity window of a durable finalization. \<open>T\<close> is the activity
  timeout.
\<close>

definition floor_ok :: "delta \<Rightarrow> ('d, 's, 'c) world \<Rightarrow> view \<Rightarrow> bool" where
  "floor_ok T w m \<longleftrightarrow> m = 0 \<or> (\<exists>v f. AFinalization f \<in> durable w v \<and> m \<le> v - T)"

definition world_ok :: "delta \<Rightarrow> ('d, 's, 'c) world \<Rightarrow> bool" where
  "world_ok T w \<longleftrightarrow> bt_inv (w_sections w) \<and> consistent (w_sent w) \<and> (\<forall>v. section_ok v {} (entries w v))
     \<and> (\<forall>v. synced w v \<le> length (entries w v))
     \<and> (\<forall>x \<in> w_sent w. vote_view x < w_floor w \<or> (\<exists>a \<in> durable w (vote_view x). records a x))
     \<and> floor_ok T w (w_floor w)"

lemma exec_entries:
  "entries (exec (Append v x) w) u = (if u = v then entries w v @ [x] else entries w u)"
  "entries (exec (Sync v) w) u = entries w u"
  "entries (exec (PruneJournal m) w) u = (if m \<le> u then entries w u else [])"
  "entries (exec (SendVote y) w) u = entries w u"
  by (auto simp: entries_def bt_get_insert bt_split_off_get split: option.split)

lemma exec_synced:
  "synced (exec (Append v x) w) u = synced w u"
  "synced (exec (Sync v) w) u = (if u = v then length (entries w v) else synced w u)"
  "synced (exec (PruneJournal m) w) u = (if m \<le> u then synced w u else 0)"
  "synced (exec (SendVote y) w) u = synced w u"
  by (auto simp: entries_def synced_def bt_get_insert bt_split_off_get split: option.split)

lemma exec_others:
  "w_sent (exec (Append v x) w) = w_sent w" "w_sent (exec (Sync v) w) = w_sent w" "w_sent (exec (PruneJournal m) w) = w_sent w"
  "w_floor (exec (Append v x) w) = w_floor w" "w_floor (exec (Sync v) w) = w_floor w" "w_floor (exec (SendVote y) w) = w_floor w"
  "w_floor (exec (PruneJournal m) w) = max m (w_floor w)" "w_sent (exec (SendVote y) w) = insert y (w_sent w)"
  by (auto split: option.split)

lemma exec_bt_inv: "bt_inv (w_sections w) \<Longrightarrow> bt_inv (w_sections (exec e w))"
  by (cases e) (auto simp: bt_inv_insert bt_split_off_inv split: option.split)

declare exec.simps(1-4) [simp del]

lemma durable_entries: "durable w v \<subseteq> set (entries w v)"
  by (simp add: durable_def set_take_subset)

lemma durable_append: "synced w v \<le> length (entries w v) \<Longrightarrow> durable (exec (Append u x) w) v = durable w v"
  by (auto simp: durable_def exec_entries exec_synced)

lemma durable_sync: "durable (exec (Sync u) w) v = (if v = u then set (entries w v) else durable w v)"
  by (simp add: durable_def exec_entries exec_synced)

lemma durable_sync_mono: "durable w v \<subseteq> durable (exec (Sync u) w) v"
  using durable_entries by (auto simp: durable_sync)

lemma durable_prune: "durable (exec (PruneJournal m) w) v = (if m \<le> v then durable w v else {})"
  by (simp add: durable_def exec_entries exec_synced)

lemma durable_send: "durable (exec (SendVote y) w) v = durable w v"
  by (simp add: durable_def exec_entries exec_synced)

lemma floor_ok_mono: "floor_ok T w m \<Longrightarrow> (\<And>v. durable w v \<subseteq> durable w' v) \<Longrightarrow> floor_ok T w' m"
  unfolding floor_ok_def by blast

lemma world_okD:
  assumes "world_ok T w"
  shows "bt_inv (w_sections w)" "consistent (w_sent w)" "section_ok v {} (entries w v)" "synced w v \<le> length (entries w v)"
    "x \<in> w_sent w \<Longrightarrow> vote_view x < w_floor w \<or> (\<exists>a \<in> durable w (vote_view x). records a x)" "floor_ok T w (w_floor w)"
  using assms by (simp_all add: world_ok_def)

lemma world_okI:
  assumes "bt_inv (w_sections w)" "consistent (w_sent w)" "\<And>v. section_ok v {} (entries w v)"
    "\<And>v. synced w v \<le> length (entries w v)" "floor_ok T w (w_floor w)"
    "\<And>x. x \<in> w_sent w \<Longrightarrow> vote_view x < w_floor w \<or> (\<exists>a \<in> durable w (vote_view x). records a x)"
  shows "world_ok T w"
  using assms by (simp add: world_ok_def)

lemma world_ok_append:
  assumes "world_ok T w" "artifact_view x = v" "ordered x (set (entries w v))"
  shows "world_ok T (exec (Append v x) w)"
proof (rule world_okI)
  note w = world_okD [OF assms(1)]
  note d = durable_append [OF w(4)]
  show "floor_ok T (exec (Append v x) w) (w_floor (exec (Append v x) w))"
    unfolding exec_others by (rule floor_ok_mono [OF w(6)]) (simp only: d)
  show "section_ok u {} (entries (exec (Append v x) w) u)" for u
    using w(3) assms(2,3) by (simp add: exec_entries section_ok_snoc)
  show "synced (exec (Append v x) w) u \<le> length (entries (exec (Append v x) w) u)" for u
    using w(4) [of u] by (auto simp: exec_synced exec_entries)
qed (use world_okD [OF assms(1)] in \<open>simp_all add: exec_others exec_bt_inv durable_append\<close>)

lemma world_ok_sync:
  assumes "world_ok T w"
  shows "world_ok T (exec (Sync v) w)"
proof (rule world_okI)
  note w = world_okD [OF assms]
  show "floor_ok T (exec (Sync v) w) (w_floor (exec (Sync v) w))"
    unfolding exec_others by (rule floor_ok_mono [OF w(6) durable_sync_mono])
  show "synced (exec (Sync v) w) u \<le> length (entries (exec (Sync v) w) u)" for u
    using w(4) [of u] by (simp add: exec_synced exec_entries)
  show "vote_view x < w_floor (exec (Sync v) w) \<or> (\<exists>a \<in> durable (exec (Sync v) w) (vote_view x). records a x)"
    if "x \<in> w_sent (exec (Sync v) w)" for x
    using w(5) [of x] that durable_sync_mono unfolding exec_others by blast
qed (use world_okD [OF assms] in \<open>simp_all add: exec_others exec_bt_inv exec_entries\<close>)

lemma floor_ok_prune:
  assumes "floor_ok T w n" "m \<le> n"
  shows "floor_ok T (exec (PruneJournal m) w) n"
proof (cases "n = 0")
  case False
  then obtain v f where "AFinalization f \<in> durable w v" "n \<le> v - T" using assms(1) by (auto simp: floor_ok_def)
  moreover from this have "m \<le> v" using assms(2) by simp
  ultimately show ?thesis unfolding floor_ok_def durable_prune by auto
qed (simp add: floor_ok_def)

lemma world_ok_prune:
  assumes "world_ok T w" "floor_ok T w m"
  shows "world_ok T (exec (PruneJournal m) w)"
proof (rule world_okI)
  note w = world_okD [OF assms(1)]
  show "floor_ok T (exec (PruneJournal m) w) (w_floor (exec (PruneJournal m) w))"
    unfolding exec_others max_def by (simp add: floor_ok_prune [OF w(6)] floor_ok_prune [OF assms(2)])
  show "vote_view x < w_floor (exec (PruneJournal m) w) \<or> (\<exists>a \<in> durable (exec (PruneJournal m) w) (vote_view x). records a x)"
    if "x \<in> w_sent (exec (PruneJournal m) w)" for x
    using w(5) [of x] that unfolding exec_others durable_prune by auto
  show "synced (exec (PruneJournal m) w) u \<le> length (entries (exec (PruneJournal m) w) u)" for u
    using w(4) [of u] by (simp add: exec_synced exec_entries)
qed (use world_okD [OF assms(1)] in \<open>simp_all add: exec_others exec_bt_inv exec_entries\<close>)

lemma world_ok_send:
  assumes "world_ok T w" "w_floor w \<le> vote_view x" "a \<in> durable w (vote_view x)" "records a x"
  shows "world_ok T (exec (SendVote x) w)"
proof (rule world_okI)
  note w = world_okD [OF assms(1)]
  have "agree x y" if y: "y \<in> w_sent w" "vote_view y = vote_view x" for y
  proof -
    obtain b where "b \<in> durable w (vote_view x)" "records b y" using w(5) [OF y(1)] y(2) assms(2) by auto
    then show ?thesis using section_agree [OF w(3) _ _ assms(4)] assms(3) durable_entries by blast
  qed
  then show "consistent (w_sent (exec (SendVote x) w))" using w(2) by (simp add: consistent_insert exec_others)
  show "floor_ok T (exec (SendVote x) w) (w_floor (exec (SendVote x) w))"
    unfolding exec_others by (rule floor_ok_mono [OF w(6)]) (simp only: durable_send)
  show "synced (exec (SendVote x) w) u \<le> length (entries (exec (SendVote x) w) u)" for u
    using w(4) [of u] by (simp only: exec_synced exec_entries)
  show "vote_view y < w_floor (exec (SendVote x) w) \<or> (\<exists>a \<in> durable (exec (SendVote x) w) (vote_view y). records a y)"
    if "y \<in> w_sent (exec (SendVote x) w)" for y
    using w(5) [of y] that assms(3,4) unfolding exec_others durable_send by auto
qed (use world_okD [OF assms(1)] in \<open>simp_all add: exec_bt_inv exec_entries\<close>)

lemma survives_section:
  assumes "survives w w'" "synced w v \<le> length (entries w v)"
  shows "durable w v \<subseteq> durable w' v \<and> durable w' v = set (entries w' v) \<and> synced w' v = length (entries w' v)
    \<and> (\<exists>k. entries w' v = take k (entries w v))"
proof -
  obtain k where k: "synced w v \<le> k" "entries w' v = take k (entries w v)" "synced w' v = length (entries w' v)"
    using assms(1) unfolding survives_def by blast
  have "durable w' v = set (entries w' v)" by (simp only: durable_def k(3) take_all order_refl)
  moreover have "set (take (synced w v) (entries w v)) \<subseteq> set (take k (entries w v))"
    by (rule set_take_subset_set_take [OF k(1)])
  ultimately show ?thesis using k(2,3) by (auto simp only: durable_def)
qed

lemma world_ok_survives:
  assumes "world_ok T w" "survives w w'"
  shows "world_ok T w'"
proof (rule world_okI)
  note w = world_okD [OF assms(1)]
  note k = survives_section [OF assms(2) w(4)]
  have f: "w_floor w' = w_floor w" "w_sent w' = w_sent w" using assms(2) by (simp_all add: survives_def)
  show "section_ok v {} (entries w' v)" for v using k [of v] section_ok_take [OF w(3) [of v]] by auto
  show "floor_ok T w' (w_floor w')" unfolding f by (rule floor_ok_mono [OF w(6)]) (use k in blast)
  show "vote_view x < w_floor w' \<or> (\<exists>a \<in> durable w' (vote_view x). records a x)" if "x \<in> w_sent w'" for x
    using w(5) [of x] that k [of "vote_view x"] unfolding f by blast
  show "synced w' v \<le> length (entries w' v)" for v using k [of v] by simp
qed (use assms in \<open>simp_all add: survives_def world_ok_def\<close>)

lemma world_ok_empty: "world_ok T w_empty"
  by (simp add: world_ok_def w_empty_def consistent_def entries_def synced_def bt_get_def floor_ok_def)

end
