(* ===== verification/Voter_Live.thy ===== *)
theory Voter_Live
  imports Voter_Journal "HOL-Library.Sublist"
begin

text \<open>
  The invariant that ties the voter actor to its journal while it runs: what the journal holds in the
  activity window, the rounds back; what the rounds have voted, the journal holds durably. Every
  handler of the actor keeps it, after every single effect.
\<close>

section \<open>Postconditions\<close>

text \<open>A handler ends normally with \<open>P\<close>, or panics with \<open>Q\<close> of the actor at that point.\<close>

definition outcome :: "('x \<Rightarrow> bool) \<Rightarrow> ('e \<Rightarrow> bool) \<Rightarrow> ('x, 'e) result \<Rightarrow> bool" where
  "outcome P Q r \<longleftrightarrow> (case r of Ok x \<Rightarrow> P x | Err e \<Rightarrow> Q e | Panic \<Rightarrow> False)"

lemma outcome_simps [simp]: "outcome P Q (Ok x) = P x" "outcome P Q (Err e) = Q e" "outcome P Q Panic = False"
  by (simp_all add: outcome_def)

lemma outcome_bind:
  "outcome P Q r \<Longrightarrow> (\<And>x. P x \<Longrightarrow> outcome R Q (f x)) \<Longrightarrow> outcome R Q (and_then r f)"
  by (cases r) simp_all

lemma outcome_weaken: "outcome P Q r \<Longrightarrow> (\<And>x. P x \<Longrightarrow> R x) \<Longrightarrow> outcome R Q r"
  by (cases r) simp_all

lemma outcome_state: "(\<And>x. r = Ok x \<Longrightarrow> P x) \<Longrightarrow> Q a \<Longrightarrow> outcome P Q (run_state r a)"
  by (cases r) simp_all

section \<open>The link between rounds and journal\<close>

fun backs :: "('d, 's, 'c) artifact \<Rightarrow> ('d, 's, 'c, 'k) round \<Rightarrow> bool" where
  "backs (ANotarize n) r \<longleftrightarrow> r_broadcast_notarize r \<and> pinned (r_proposal r) (nz_proposal n)"
| "backs (ANullify n) r \<longleftrightarrow> r_broadcast_nullify r"
| "backs (AFinalize f) r \<longleftrightarrow> r_broadcast_finalize r \<and> pinned (r_proposal r) (fz_proposal f)"
| "backs (ANotarization n) r \<longleftrightarrow> pinned (r_proposal r) (nzn_proposal n) \<and> r_notarization r \<noteq> None"
| "backs (AFinalization f) r \<longleftrightarrow> pinned (r_proposal r) (fzn_proposal f) \<and> r_finalization r \<noteq> None"
| "backs _ r \<longleftrightarrow> True"

lemma backs_step:
  assumes "round_step P r r'" "round_inv r" "backs x r"
  shows "backs x r'"
proof -
  have "slot_inv (r_proposal r)" using assms(2) by (simp add: round_inv_def)
  then have "\<And>p. pinned (r_proposal r) p \<Longrightarrow> pinned (r_proposal r') p"
    using assms(1) by (auto simp: round_step_def round_le_def slot_le_def)
  then show ?thesis using assms(1,3) by (cases x) (auto simp: round_step_def round_le_def)
qed

definition backed :: "('d, 's, 'c) artifact \<Rightarrow> view \<Rightarrow> ('d, 's, 'c, 'k) voter \<Rightarrow> bool" where
  "backed x v s \<longleftrightarrow> (\<exists>r. bt_get (v_views s) v = Some r \<and> backs x r)"

lemma backed_grows:
  assumes "backed x v s" "voter_inv s" "voter_grows V s s'"
  shows "backed x v s'"
proof -
  obtain r where r: "bt_get (v_views s) v = Some r" "backs x r" using assms(1) by (auto simp: backed_def)
  have "round_inv r" using voter_inv_round [OF assms(2) r(1)] by (simp add: round_at_def)
  then show ?thesis using voter_grows_old [OF assms(3) r(1)] backs_step r(2) by (auto simp: backed_def)
qed

text \<open>The votes of a round are durable, except in the views \<open>E\<close> where a vote is being cast.\<close>

definition recorded_at :: "('d, 's, 'c) world \<Rightarrow> ('d, 's, 'c, 'k) voter \<Rightarrow> view \<Rightarrow> bool" where
  "recorded_at w s v \<longleftrightarrow> scheme_me (v_scheme s) = None
     \<or> (fst (core_at s v) \<longrightarrow> (\<exists>n. ANotarize n \<in> durable w v)) \<and> (fst (snd (core_at s v)) \<longrightarrow> (\<exists>n. ANullify n \<in> durable w v))"

definition finals :: "('d, 's, 'c, 'k) voter \<Rightarrow> bool" where
  "finals s \<longleftrightarrow> (\<forall>v. (\<forall>f. fst (snd (snd (core_at s v))) = Some f \<longrightarrow> v \<le> v_last_finalized s \<and> proposal_view (fzn_proposal f) = v)
     \<and> (snd (snd (snd (core_at s v))) \<longrightarrow> fst (snd (snd (core_at s v))) \<noteq> None))"

text \<open>
  The last finalization is durable, or journalled and still to be broadcast for the view \<open>u\<close>; nothing
  is claimed of it while a finalization is being added.
\<close>

definition final_due :: "view option \<Rightarrow> ('d, 's, 'c) world \<Rightarrow> ('d, 's, 'c, 'k) voter \<Rightarrow> bool" where
  "final_due o' w s \<longleftrightarrow> (\<forall>u. o' = Some u \<longrightarrow> v_last_finalized s = 0
     \<or> (\<exists>f. AFinalization f \<in> durable w (v_last_finalized s))
     \<or> (u = v_last_finalized s \<and> (\<exists>f. AFinalization f \<in> set (entries w u)) \<and> (\<exists>f. snd (snd (core_at s u)) = (Some f, False))))"

lemma final_due_0: "final_due (Some 0) w s \<Longrightarrow> final_due u w s"
  by (auto simp: final_due_def)

lemma final_due_None [simp]: "final_due None w s"
  by (simp add: final_due_def)

definition linked :: "view set \<Rightarrow> view option \<Rightarrow> delta \<Rightarrow> ('d, 's, 'c) world \<Rightarrow> ('d, 's, 'c, 'k) voter \<Rightarrow> bool" where
  "linked E u T w s \<longleftrightarrow> world_ok T w \<and> voter_inv s \<and> scheme_ok (v_scheme s) \<and> v_activity_timeout s = T
     \<and> w_floor w \<le> voter_min_active s
     \<and> (\<forall>v x. voter_min_active s \<le> v \<longrightarrow> x \<in> set (entries w v) \<longrightarrow> backed x v s)
     \<and> (\<forall>v. voter_min_active s \<le> v \<longrightarrow> v \<notin> E \<longrightarrow> recorded_at w s v) \<and> finals s \<and> final_due u w s \<and> nulls s"

lemma linkedD:
  assumes "linked E u T w s"
  shows "world_ok T w" "voter_inv s" "scheme_ok (v_scheme s)" "v_activity_timeout s = T" "w_floor w \<le> voter_min_active s"
    "voter_min_active s \<le> v \<Longrightarrow> x \<in> set (entries w v) \<Longrightarrow> backed x v s"
    "voter_min_active s \<le> v \<Longrightarrow> v \<notin> E \<Longrightarrow> recorded_at w s v" "finals s" "final_due u w s" "nulls s"
  using assms by (simp_all add: linked_def)

lemma linkedI:
  assumes "world_ok T w" "voter_inv s" "scheme_ok (v_scheme s)" "v_activity_timeout s = T" "w_floor w \<le> voter_min_active s"
    "\<And>v x. voter_min_active s \<le> v \<Longrightarrow> x \<in> set (entries w v) \<Longrightarrow> backed x v s"
    "\<And>v. voter_min_active s \<le> v \<Longrightarrow> v \<notin> E \<Longrightarrow> recorded_at w s v" "finals s" "final_due u w s" "nulls s"
  shows "linked E u T w s"
  using assms by (simp add: linked_def)

text \<open>A step of the state that finalizes nothing and casts votes in the views \<open>E\<close> only.\<close>

lemma linked_grows_votes:
  assumes l: "linked E u T w s" and g: "voter_grows V s s'" and f: "v_last_finalized s' = v_last_finalized s"
    and c: "\<And>v. v \<notin> E \<Longrightarrow> fst (core_at s' v) = fst (core_at s v) \<and> fst (snd (core_at s' v)) = fst (snd (core_at s v))"
    and s': "finals s'" "final_due u' w s'"
  shows "linked E u' T w s'"
proof -
  note l = linkedD [OF l]
  have k: "v_scheme s' = v_scheme s" "v_activity_timeout s' = v_activity_timeout s" "v_view s \<le> v_view s'"
    using g by (simp_all add: voter_grows_def)
  have m: "voter_min_active s' = voter_min_active s" using k f by (simp add: voter_min_active_def)
  have i: "voter_inv s'" using l(2) f k by (intro voter_inv_grows [OF l(2) g]) (simp add: voter_inv_def)
  show ?thesis
  proof (rule linkedI)
    show "recorded_at w s' v" if "voter_min_active s' \<le> v" "v \<notin> E" for v
      using l(7) [of v] that c [of v] m k by (simp add: recorded_at_def)
    show "backed x v s'" if "voter_min_active s' \<le> v" "x \<in> set (entries w v)" for v x
      using backed_grows [OF l(6) l(2) g] that m by simp
    show "nulls s'" by (rule nulls_grows [OF l(10) g])
  qed (use l i k m s' in simp_all)
qed

lemma linked_grows:
  assumes l: "linked E u T w s" and g: "voter_grows V s s'" and f: "v_last_finalized s' = v_last_finalized s"
    and c: "\<And>v. v \<notin> E \<Longrightarrow> core_at s' v = core_at s v" "\<And>v. snd (snd (core_at s' v)) = snd (snd (core_at s v))"
  shows "linked E u T w s'"
  using linkedD(8,9) [OF l] by (intro linked_grows_votes [OF l g f]) (simp_all add: c finals_def final_due_def f)

lemma linked_widen: "linked E u T w s \<Longrightarrow> linked (E \<union> F) u T w s"
  by (simp add: linked_def)

lemma linked_close: "linked (insert v E) u T w s \<Longrightarrow> recorded_at w s v \<Longrightarrow> linked E u T w s"
  unfolding linked_def by blast

section \<open>Effects\<close>

lemma recorded_mono: "recorded_at w s v \<Longrightarrow> durable w v \<subseteq> durable w' v \<Longrightarrow> recorded_at w' s v"
  unfolding recorded_at_def by blast

lemma final_due_mono:
  "final_due u w s \<Longrightarrow> (\<And>v. durable w v \<subseteq> durable w' v) \<Longrightarrow> (\<And>v. set (entries w v) \<subseteq> set (entries w' v)) \<Longrightarrow> final_due u w' s"
  unfolding final_due_def by blast

lemma linked_append:
  assumes "linked E u T w s" "artifact_view x = v" "ordered x (set (entries w v))" "voter_min_active s \<le> v \<Longrightarrow> backed x v s"
  shows "linked E u T (exec (Append v x) w) s"
proof (rule linkedI)
  note l = linkedD [OF assms(1)]
  note d = durable_append [OF world_okD(4) [OF l(1)]]
  show "world_ok T (exec (Append v x) w)" by (rule world_ok_append [OF l(1) assms(2,3)])
  show "final_due u (exec (Append v x) w) s" by (rule final_due_mono [OF l(9)]) (auto simp: d exec_entries)
  show "recorded_at (exec (Append v x) w) s y" if "voter_min_active s \<le> y" "y \<notin> E" for y
    by (rule recorded_mono [OF l(7) [OF that]]) (simp add: d)
  show "backed y z s" if "voter_min_active s \<le> z" "y \<in> set (entries (exec (Append v x) w) z)" for y z
    using l(6) [of z y] that assms(4) by (auto simp: exec_entries split: if_splits)
qed (use linkedD [OF assms(1)] in \<open>simp_all add: exec_others\<close>)

lemma linked_sync:
  assumes "linked E u T w s"
  shows "linked E u T (exec (Sync v) w) s"
proof (rule linkedI)
  note l = linkedD [OF assms(1)]
  show "world_ok T (exec (Sync v) w)" by (rule world_ok_sync [OF l(1)])
  show "final_due u (exec (Sync v) w) s" by (rule final_due_mono [OF l(9) durable_sync_mono]) (simp add: exec_entries)
  show "recorded_at (exec (Sync v) w) s y" if "voter_min_active s \<le> y" "y \<notin> E" for y
    by (rule recorded_mono [OF l(7) [OF that] durable_sync_mono])
qed (use linkedD [OF assms(1)] in \<open>simp_all add: exec_others exec_entries\<close>)

lemma linked_send:
  assumes "linked E u T w s" "voter_min_active s \<le> vote_view x" "a \<in> durable w (vote_view x)" "records a x"
  shows "linked E u T (exec (SendVote x) w) s"
proof (rule linkedI)
  note l = linkedD [OF assms(1)]
  show "world_ok T (exec (SendVote x) w)" using l(5) assms(2) by (intro world_ok_send [OF l(1) _ assms(3,4)]) simp
  show "final_due u (exec (SendVote x) w) s" by (rule final_due_mono [OF l(9)]) (simp_all only: durable_send exec_entries order_refl)
  show "recorded_at (exec (SendVote x) w) s y" if "voter_min_active s \<le> y" "y \<notin> E" for y
    by (rule recorded_mono [OF l(7) [OF that]]) (simp only: durable_send order_refl)
qed (use linkedD [OF assms(1)] in \<open>simp_all add: exec_others exec_entries\<close>)

section \<open>The actor\<close>

definition world_of :: "('d, 's, 'c) world \<Rightarrow> ('d, 's, 'c, 'k) actor \<Rightarrow> ('d, 's, 'c) world" where
  "world_of w0 a = execs (a_out a) w0"

text \<open>
  An effect on the journal is allowed when its section is not below the last pruned bound: \<open>prune_guard\<close>
  would refuse it otherwise.
\<close>

fun allowed :: "('d, 's, 'c, 'k) effect \<Rightarrow> ('d, 's, 'c) world \<Rightarrow> bool" where
  "allowed (Append v x) w \<longleftrightarrow> w_floor w \<le> v"
| "allowed (Sync v) w \<longleftrightarrow> w_floor w \<le> v"
| "allowed _ w \<longleftrightarrow> True"

definition traces_ok :: "delta \<Rightarrow> ('d, 's, 'c) world \<Rightarrow> ('d, 's, 'c, 'k) actor \<Rightarrow> bool" where
  "traces_ok T w0 a \<longleftrightarrow> (\<forall>es. prefix es (a_out a) \<longrightarrow> world_ok T (execs es w0))
     \<and> (\<forall>es e. prefix (es @ [e]) (a_out a) \<longrightarrow> allowed e (execs es w0))"

definition live :: "view set \<Rightarrow> view option \<Rightarrow> delta \<Rightarrow> ('d, 's, 'c) world \<Rightarrow> ('d, 's, 'c, 'k) actor \<Rightarrow> bool" where
  "live E u T w0 a \<longleftrightarrow> a_journal a \<and> linked E u T (world_of w0 a) (a_state a) \<and> traces_ok T w0 a"

lemma live_traces: "live E u T w0 a \<Longrightarrow> traces_ok T w0 a"
  by (simp add: live_def)

lemma live_linked: "live E u T w0 a \<Longrightarrow> linked E u T (world_of w0 a) (a_state a)"
  by (simp add: live_def)

lemma emit_fields [simp]:
  "a_state (emit e a) = a_state a" "a_journal (emit e a) = a_journal a" "a_pool (emit e a) = a_pool a"
  "a_pending_verify (emit e a) = a_pending_verify a" "a_pending_propose (emit e a) = a_pending_propose a"
  "world_of w0 (emit e a) = exec e (world_of w0 a)"
  by (simp_all add: emit_def world_of_def execs_def)

lemma world_of_fields [simp]:
  "world_of w0 (a\<lparr>a_state := s\<rparr>) = world_of w0 a" "world_of w0 (a\<lparr>a_candidates := c\<rparr>) = world_of w0 a"
  "world_of w0 (a\<lparr>a_pending_propose := p\<rparr>) = world_of w0 a" "world_of w0 (a\<lparr>a_pending_verify := q\<rparr>) = world_of w0 a"
  "world_of w0 (a\<lparr>a_pool := r\<rparr>) = world_of w0 a" "world_of w0 (a\<lparr>a_journal := j\<rparr>) = world_of w0 a"
  by (simp_all add: world_of_def)

lemma traces_ok_fields [simp]:
  "traces_ok T w0 (a\<lparr>a_state := s\<rparr>) = traces_ok T w0 a" "traces_ok T w0 (a\<lparr>a_candidates := c\<rparr>) = traces_ok T w0 a"
  "traces_ok T w0 (a\<lparr>a_pending_propose := p\<rparr>) = traces_ok T w0 a" "traces_ok T w0 (a\<lparr>a_pending_verify := q\<rparr>) = traces_ok T w0 a"
  "traces_ok T w0 (a\<lparr>a_pool := r\<rparr>) = traces_ok T w0 a" "traces_ok T w0 (a\<lparr>a_journal := j\<rparr>) = traces_ok T w0 a"
  by (simp_all add: traces_ok_def)

lemma live_fields [simp]:
  "live E u T w0 (a\<lparr>a_candidates := c\<rparr>) = live E u T w0 a"
  "live E u T w0 (a\<lparr>a_pending_propose := p\<rparr>) = live E u T w0 a" "live E u T w0 (a\<lparr>a_pending_verify := q\<rparr>) = live E u T w0 a"
  "live E u T w0 (a\<lparr>a_pool := r\<rparr>) = live E u T w0 a"
  by (simp_all add: live_def)

lemma traces_ok_emit:
  "traces_ok T w0 (emit e a) \<longleftrightarrow> traces_ok T w0 a \<and> world_ok T (exec e (world_of w0 a)) \<and> allowed e (world_of w0 a)"
proof -
  have "prefix (es @ [x]) (a_out a @ [e]) \<longleftrightarrow> prefix (es @ [x]) (a_out a) \<or> es = a_out a \<and> x = e" for es x
    by (simp only: prefix_snoc) auto
  then show ?thesis by (auto simp: traces_ok_def emit_def world_of_def execs_def)
qed

lemma live_emit:
  assumes "live E u T w0 a" "linked E u T (exec e (world_of w0 a)) (a_state a)" "allowed e (world_of w0 a)"
  shows "live E u T w0 (emit e a)"
  using assms linkedD(1) [OF assms(2)] by (simp add: live_def traces_ok_emit)

text \<open>The effects that touch neither the journal nor the votes.\<close>

fun neutral :: "('d, 's, 'c, 'k) effect \<Rightarrow> bool" where
  "neutral (Append _ _) \<longleftrightarrow> False"
| "neutral (Sync _) \<longleftrightarrow> False"
| "neutral (PruneJournal _) \<longleftrightarrow> False"
| "neutral (SendVote _) \<longleftrightarrow> False"
| "neutral _ \<longleftrightarrow> True"

lemma exec_neutral [simp]: "neutral e \<Longrightarrow> exec e w = w"
  by (cases e) simp_all

lemma allowed_neutral [simp]: "neutral e \<Longrightarrow> allowed e w"
  by (cases e) simp_all

lemma live_neutral [simp]: "neutral e \<Longrightarrow> live E u T w0 a \<Longrightarrow> live E u T w0 (emit e a)"
  by (simp add: live_emit live_linked)

lemma live_floor: "live E u T w0 a \<Longrightarrow> voter_min_active (a_state a) \<le> v \<Longrightarrow> w_floor (world_of w0 a) \<le> v"
  using linkedD(5) live_linked le_trans by blast

lemma live_state: "live E u T w0 a \<Longrightarrow> linked F u T (world_of w0 a) s \<Longrightarrow> live F u T w0 (a\<lparr>a_state := s\<rparr>)"
  by (simp add: live_def)

lemma live_grows:
  assumes "live E u T w0 a" "voter_grows V (a_state a) s" "v_last_finalized s = v_last_finalized (a_state a)"
    "core_at s = core_at (a_state a)"
  shows "live E u T w0 (a\<lparr>a_state := s\<rparr>)"
  using linked_grows [OF live_linked [OF assms(1)] assms(2,3)] assms(1,4) by (simp add: live_def)

lemma live_append:
  assumes "live E u T w0 a" "artifact_view x = v" "ordered x (set (entries (world_of w0 a) v))"
    "voter_min_active (a_state a) \<le> v" "backed x v (a_state a)"
  shows "live E u T w0 (append_journal v x a)"
proof -
  have "allowed (Append v x) (world_of w0 a)" using live_floor [OF assms(1,4)] by simp
  from live_emit [OF assms(1) linked_append [OF live_linked [OF assms(1)] assms(2,3,5)] this] show ?thesis
    using assms(1) by (simp add: append_journal_def live_def)
qed

lemma live_sync: "live E u T w0 a \<Longrightarrow> voter_min_active (a_state a) \<le> v \<Longrightarrow> live E u T w0 (sync_journal v a)"
  by (simp add: sync_journal_def live_emit linked_sync live_linked live_floor)

lemma journal_fields [simp]:
  "a_state (append_journal v x a) = a_state a" "a_state (sync_journal v a) = a_state a"
  "a_pool (append_journal v x a) = a_pool a" "a_pool (sync_journal v a) = a_pool a"
  "a_journal (append_journal v x a) = a_journal a" "a_journal (sync_journal v a) = a_journal a"
  by (simp_all add: append_journal_def sync_journal_def)

lemma world_of_journal:
  assumes "a_journal a"
  shows "entries (world_of w0 (append_journal v x a)) y = (if y = v then entries (world_of w0 a) v @ [x] else entries (world_of w0 a) y)"
    "durable (world_of w0 (sync_journal v a)) y = (if y = v then set (entries (world_of w0 a) y) else durable (world_of w0 a) y)"
  using assms by (simp_all add: append_journal_def sync_journal_def exec_entries durable_sync)

lemma live_close: "live (insert v E) u T w0 a \<Longrightarrow> recorded_at (world_of w0 a) (a_state a) v \<Longrightarrow> live E u T w0 a"
  unfolding live_def using linked_close by blast

lemma records_self: "records (artifact_of_vote x) x"
  by (cases x) simp_all

lemma artifact_of_vote_view: "artifact_view (artifact_of_vote x) = vote_view x"
  by (cases x) simp_all

section \<open>Casting votes\<close>

text \<open>A vote is journalled and synced before it is sent.\<close>

lemma live_vote:
  assumes a: "live {v} u T w0 a" and v: "vote_view x = v" "voter_min_active (a_state a) \<le> v"
    and x: "ordered (artifact_of_vote x) (set (entries (world_of w0 a) v))" "backed (artifact_of_vote x) v (a_state a)"
    and r: "\<And>w. durable (world_of w0 a) v \<subseteq> durable w v \<Longrightarrow> artifact_of_vote x \<in> durable w v \<Longrightarrow> recorded_at w (a_state a) v"
  shows "live {} u T w0 (broadcast_vote x (sync_journal v (append_journal v (artifact_of_vote x) (emit (BatcherConstructed x) a))))"
proof -
  let ?b = "append_journal v (artifact_of_vote x) (emit (BatcherConstructed x) a)"
  let ?c = "sync_journal v ?b"
  have j: "a_journal a" using a by (simp add: live_def)
  have b: "live {v} u T w0 ?b" by (rule live_append) (use a v x in \<open>simp_all add: artifact_of_vote_view\<close>)
  then have c: "live {v} u T w0 ?c" by (rule live_sync) (use v in simp)
  have d: "durable (world_of w0 ?c) v = set (entries (world_of w0 a) v) \<union> {artifact_of_vote x}"
    using j by (simp add: world_of_journal)
  have "recorded_at (world_of w0 ?c) (a_state a) v"
    by (rule r) (use durable_entries [of "world_of w0 a" v] d in auto)
  then have c': "live {} u T w0 ?c" by (intro live_close [OF c]) simp
  have "linked {} u T (exec (SendVote x) (world_of w0 ?c)) (a_state ?c)"
    by (rule linked_send [OF live_linked [OF c'] _ _ records_self]) (use v d in simp_all)
  then show ?thesis unfolding broadcast_vote_def by (rule live_emit [OF c']) simp
qed

lemma scheme_ok_sign: "scheme_ok sch \<Longrightarrow> scheme_sign sch ns x = Some y \<Longrightarrow> scheme_me sch \<noteq> None"
  unfolding scheme_ok_def by (metis option.distinct(1))

text \<open>What the journal holds of a view in the window agrees with a verified proposal of its round.\<close>

lemma backed_proposals:
  assumes "linked E u T w s" "bt_get (v_views s) v = Some r" "voter_min_active s \<le> v" "p \<in> proposals_of (set (entries w v))"
  shows "pinned (r_proposal r) p"
  using assms(4) linkedD(6) [OF assms(1,3)] assms(2) by (fastforce simp: proposals_of_def backed_def)

lemma live_try_broadcast_notarize:
  assumes a: "live {} u T w0 a" and v: "voter_min_active (a_state a) \<le> v"
  shows "live {} u T w0 (try_broadcast_notarize v a)
    \<and> v_last_finalized (a_state (try_broadcast_notarize v a)) = v_last_finalized (a_state a)"
proof -
  let ?s = "a_state a" and ?w = "world_of w0 a"
  obtain res s' where c: "voter_construct_notarize v ?s = (res, s')" by fastforce
  note l = linkedD [OF live_linked [OF a]]
  have g: "voter_grows {} ?s s'" "v_last_finalized s' = v_last_finalized ?s" "v_scheme s' = v_scheme ?s" "voter_min_active s' = voter_min_active ?s"
    using grows_get(1) [of ?s v] finalized_same(3) [of v ?s] c by (simp_all add: voter_grows_def voter_min_active_def)
  obtain x where x: "core_at s' = (core_at ?s)(v := (x, snd (core_at ?s v)))"
    "x \<longrightarrow> fst (core_at ?s v) \<or> res \<noteq> None \<or> scheme_me (v_scheme ?s) = None"
    using core_at_construct_notarize [OF c l(2,3)] by auto
  have "linked {v} u T ?w s'"
    using linked_grows [OF linked_widen [OF live_linked [OF a], of "{v}"] g(1,2)] x(1) by simp
  then have a1: "live {v} u T w0 (a\<lparr>a_state := s'\<rparr>)" by (rule live_state [OF a])
  have old: "recorded_at ?w ?s v" using l(7) v by simp
  show ?thesis
  proof (cases res)
    case None
    have "recorded_at ?w s' v" using old x None g(3) by (auto simp: recorded_at_def)
    then have "live {} u T w0 (a\<lparr>a_state := s'\<rparr>)" by (intro live_close [OF a1]) simp
    then show ?thesis using c None g(2) by (simp add: try_broadcast_notarize_def)
  next
    case (Some n)
    obtain r r' where r: "bt_get (v_views ?s) v = Some r" "bt_get (v_views s') v = Some r'" "proposal_view (nz_proposal n) = v"
      "vote_backed (VNotarize n) r'" "slot_status (r_proposal r) = Verified"
      "slot_proposal (r_proposal r) = Some (nz_proposal n)" "round_inv r"
      using construct_notarize_vote c Some l(2) by metis
    have "p = nz_proposal n" if "p \<in> proposals_of (set (entries ?w v))" for p
      using backed_proposals [OF live_linked [OF a] r(1) v that] r(5,6) by (auto simp: pinned_def)
    moreover have "recorded_at w s' v" if "durable ?w v \<subseteq> durable w v" "ANotarize n \<in> durable w v" for w
      using recorded_mono [OF old that(1)] that(2) x(1) g(3) by (auto simp: recorded_at_def)
    ultimately have "live {} u T w0 (broadcast_vote (VNotarize n) (sync_journal v (append_journal v (artifact_of_vote (VNotarize n))
        (emit (BatcherConstructed (VNotarize n)) (a\<lparr>a_state := s'\<rparr>)))))"
      using r g(4) v by (intro live_vote [OF a1]) (auto simp: backed_def)
    then show ?thesis using c Some r(3) g(2) by (simp add: try_broadcast_notarize_def handle_notarize_def broadcast_vote_def)
  qed
qed

lemma live_try_broadcast_finalize:
  assumes a: "live {} u T w0 a" and v: "voter_min_active (a_state a) \<le> v"
  shows "live {} u T w0 (try_broadcast_finalize v a)
    \<and> v_last_finalized (a_state (try_broadcast_finalize v a)) = v_last_finalized (a_state a)"
proof -
  let ?s = "a_state a" and ?w = "world_of w0 a"
  obtain res s' where c: "voter_construct_finalize v ?s = (res, s')" by fastforce
  note l = linkedD [OF live_linked [OF a]]
  have g: "voter_grows {} ?s s'" "v_last_finalized s' = v_last_finalized ?s" "v_scheme s' = v_scheme ?s" "voter_min_active s' = voter_min_active ?s"
      "core_at s' = core_at ?s"
    using grows_get(2) [of ?s v] finalized_same(4) [of v ?s] core_at_ops(4) [of v ?s] c by (simp_all add: voter_grows_def voter_min_active_def)
  have a0: "live {} u T w0 (a\<lparr>a_state := s'\<rparr>)" by (rule live_grows [OF a g(1,2,5)])
  show ?thesis
  proof (cases res)
    case None
    then show ?thesis using c a0 g(2) by (simp add: try_broadcast_finalize_def)
  next
    case (Some f)
    obtain r r' where r: "bt_get (v_views ?s) v = Some r" "bt_get (v_views s') v = Some r'" "proposal_view (fz_proposal f) = v"
      "\<not> r_broadcast_nullify r" "r_broadcast_notarize r" "vote_backed (VFinalize f) r'" "slot_status (r_proposal r) = Verified"
      "slot_proposal (r_proposal r) = Some (fz_proposal f)"
      using construct_finalize_vote c Some l(2) by metis
    have "finalize_sign (v_scheme ?s) (v_namespace ?s) (fz_proposal f) = Some f"
      using c Some by (auto simp: voter_construct_finalize_def finalize_sign_def put_round_def Let_def split: option.splits prod.splits)
    then have me: "scheme_me (v_scheme ?s) \<noteq> None" using scheme_ok_sign [OF l(3)] by (auto simp: finalize_sign_def)
    have old: "recorded_at ?w ?s v" using l(7) v by simp
    have "fst (core_at ?s v)" using r(1,5) by (simp add: core_at_def core_def)
    then obtain n where n: "ANotarize n \<in> set (entries ?w v)" using old me durable_entries by (fastforce simp: recorded_at_def)
    have "nz_proposal n = fz_proposal f"
      using backed_proposals [OF live_linked [OF a] r(1) v proposals_of_notarize [OF n]] r(7,8) by (auto simp: pinned_def)
    moreover have "ANullify m \<notin> set (entries ?w v)" for m using l(6) [OF v, of "ANullify m"] r(1,4) by (auto simp: backed_def)
    moreover have "recorded_at w s' v" if "durable ?w v \<subseteq> durable w v" for w
      using recorded_mono [OF old that] g by (simp add: recorded_at_def)
    moreover have "live {v} u T w0 (a\<lparr>a_state := s'\<rparr>)" using a0 linked_widen [of "{}" u T ?w s' "{v}"] by (simp add: live_def)
    ultimately have "live {} u T w0 (broadcast_vote (VFinalize f) (sync_journal v (append_journal v (artifact_of_vote (VFinalize f))
        (emit (BatcherConstructed (VFinalize f)) (a\<lparr>a_state := s'\<rparr>)))))"
      using r g(4) v n by (intro live_vote) (auto simp: backed_def)
    then show ?thesis using c Some r(3) g(2) by (simp add: try_broadcast_finalize_def handle_finalize_def broadcast_vote_def)
  qed
qed

text \<open>Operations that do not enter a view.\<close>

lemma view_same:
  "v_view (snd (voter_next_timeout_deadline s)) = v_view s" "v_view (snd (voter_handle_timeout s)) = v_view s"
  "v_view (voter_expire_round w s) = v_view s" "v_view (snd (voter_proposed p s)) = v_view s"
  "v_view (snd (voter_set_proposal w p s)) = v_view s" "v_view (snd (voter_verified w s)) = v_view s"
  "v_view (voter_set_certify_handle w h s) = v_view s" "v_view (voter_retry_certification w s) = v_view s"
  by (simp_all add: voter_next_timeout_deadline_def voter_handle_timeout_def voter_expire_round_def voter_proposed_def
      voter_set_proposal_def voter_verified_def voter_set_certify_handle_def voter_retry_certification_def
      Let_def case_prod_beta create_round_same split: option.split)

lemma timeout_state:
  assumes "voter_inv s" "scheme_ok (v_scheme s)" "voter_handle_timeout s = ((retry, res, entry), s')"
  shows "\<exists>l. core_at s' = (core_at s)(v_view s := (fst (core_at s (v_view s)), l, snd (snd (core_at s (v_view s)))))
    \<and> (l \<longrightarrow> fst (snd (core_at s (v_view s))) \<or> res \<noteq> None \<or> scheme_me (v_scheme s) = None)"
proof -
  obtain r where r: "bt_get (v_views s) (v_view s) = Some r" using assms(1) by (auto simp: voter_inv_def has_current_def)
  obtain n l f b where cr: "core_at s (v_view s) = (n, l, f, b)" by (cases "core_at s (v_view s)") auto
  have c: "core_at s' = (core_at s)(v_view s := (n, l \<or> \<not> r_broadcast_finalize r, f, b))"
    using core_at_handle_timeout [of s] assms(3) cr by (simp add: create_round_old [OF r])
  have "scheme_me (v_scheme s) = None" if "\<not> r_broadcast_finalize r" "res = None"
  proof -
    have "nullify_sign (v_scheme s) (v_namespace s) (Rnd (v_epoch s) (v_view s)) = None"
      using assms(3) that create_round_old [OF r]
      by (auto simp: voter_handle_timeout_def round_construct_nullify_def put_round_def Let_def split: if_splits)
    then show ?thesis using assms(2) by (auto simp: nullify_sign_def scheme_ok_def)
  qed
  then show ?thesis using c cr by (intro exI [of _ "l \<or> \<not> r_broadcast_finalize r"]) (cases res; auto)
qed

lemma timeout_signed:
  assumes "voter_handle_timeout s = ((retry, Some n, entry), s')" "scheme_ok (v_scheme s)"
  shows "scheme_me (v_scheme s) \<noteq> None"
proof -
  have "nullify_sign (v_scheme s) (v_namespace s) (Rnd (v_epoch s) (v_view s)) = Some n"
    using assms(1) by (auto simp: voter_handle_timeout_def put_round_def create_round_def Let_def split: option.splits if_splits prod.splits)
  then show ?thesis using scheme_ok_sign [OF assms(2)] by (auto simp: nullify_sign_def)
qed

lemma live_handle_timeout:
  assumes a: "live {} u T w0 a"
  shows "live {} u T w0 (handle_timeout a)
    \<and> v_last_finalized (a_state (handle_timeout a)) = v_last_finalized (a_state a)
    \<and> v_view (a_state (handle_timeout a)) = v_view (a_state a)"
proof -
  let ?s = "a_state a" and ?w = "world_of w0 a"
  obtain retry res entry s' where c: "voter_handle_timeout ?s = ((retry, res, entry), s')"
    by (metis prod.collapse)
  note l = linkedD [OF live_linked [OF a]]
  let ?v = "v_view ?s"
  have v: "voter_min_active ?s \<le> ?v" using min_active_less [OF l(2)] by simp
  have g: "voter_grows {?v} ?s s'" "v_last_finalized s' = v_last_finalized ?s" "v_scheme s' = v_scheme ?s" "voter_min_active s' = voter_min_active ?s"
      "v_view s' = v_view ?s"
    using grows_simple(2) [of ?s] finalized_same(2) [of ?s] view_same(2) [of ?s] c by (simp_all add: voter_grows_def voter_min_active_def)
  obtain x where x: "core_at s' = (core_at ?s)(?v := (fst (core_at ?s ?v), x, snd (snd (core_at ?s ?v))))"
    "x \<longrightarrow> fst (snd (core_at ?s ?v)) \<or> res \<noteq> None \<or> scheme_me (v_scheme ?s) = None"
    using timeout_state [OF l(2,3) c] by auto
  have "linked {?v} u T ?w s'"
    using linked_grows [OF linked_widen [OF live_linked [OF a], of "{?v}"] g(1,2)] x(1) by simp
  then have a1: "live {?v} u T w0 (a\<lparr>a_state := s'\<rparr>)" by (rule live_state [OF a])
  have old: "recorded_at ?w ?s ?v" using l(7) v by simp
  define b where "b = (case res of None \<Rightarrow> a\<lparr>a_state := s'\<rparr> | Some n \<Rightarrow> broadcast_vote (VNullify n)
    (if \<not> retry then sync_journal (rnd_view (nl_round n)) (handle_nullify n (emit (BatcherConstructed (VNullify n)) (a\<lparr>a_state := s'\<rparr>)))
     else a\<lparr>a_state := s'\<rparr>))"
  have h: "handle_timeout a = (case entry of None \<Rightarrow> b | Some certificate \<Rightarrow> broadcast_certificate certificate b)"
    using c unfolding handle_timeout_def b_def Let_def by (simp split: option.split)
  have "live {} u T w0 b"
  proof (cases res)
    case None
    have "recorded_at ?w s' ?v" using old x None g(3) by (auto simp: recorded_at_def)
    then show ?thesis using None by (simp add: b_def live_close [OF a1])
  next
    case (Some n)
    obtain r r' where r: "bt_get (v_views ?s) ?v = Some r" "bt_get (v_views s') ?v = Some r'" "rnd_view (nl_round n) = ?v"
        "\<not> r_broadcast_finalize r" "r_broadcast_nullify r'" "retry = r_broadcast_nullify r"
      using handle_timeout_vote c Some l(2) by metis
    show ?thesis
    proof (cases retry)
      case True
      then have "fst (snd (core_at ?s ?v))" using r(1,6) by (simp add: core_at_def core_def)
      then have "recorded_at ?w s' ?v" using old x g(3) by (auto simp: recorded_at_def)
      then have a2: "live {} u T w0 (a\<lparr>a_state := s'\<rparr>)" by (intro live_close [OF a1]) simp
      obtain m where m: "ANullify m \<in> durable ?w ?v"
        using old timeout_signed c Some l(3) \<open>fst (snd (core_at ?s ?v))\<close> by (metis recorded_at_def)
      then have "rnd_view (nl_round m) = ?v"
        using section_ok_view [OF world_okD(3) [OF l(1)]] durable_entries by fastforce
      then have "live {} u T w0 (emit (SendVote (VNullify n)) (a\<lparr>a_state := s'\<rparr>))"
        using live_emit [OF a2 linked_send [OF live_linked [OF a2], of "VNullify n" "ANullify m"]] m r(3) v g(4) by auto
      then show ?thesis using Some True by (simp add: b_def broadcast_vote_def)
    next
      case False
      have "ordered (ANullify n) (set (entries ?w ?v))" using l(6) [OF v] r(1,4) by (fastforce simp: backed_def)
      moreover have "recorded_at w s' ?v" if "durable ?w ?v \<subseteq> durable w ?v" "ANullify n \<in> durable w ?v" for w
        using recorded_mono [OF old that(1)] that(2) x(1) g(3) by (auto simp: recorded_at_def)
      ultimately have "live {} u T w0 (broadcast_vote (VNullify n) (sync_journal ?v (append_journal ?v (artifact_of_vote (VNullify n))
          (emit (BatcherConstructed (VNullify n)) (a\<lparr>a_state := s'\<rparr>)))))"
        using r g(4) v by (intro live_vote [OF a1]) (auto simp: backed_def)
      then show ?thesis using Some False r(3) by (simp add: b_def handle_nullify_def)
    qed
  qed
  moreover have "a_state b = s'" by (simp add: b_def broadcast_vote_def handle_nullify_def split: option.split)
  ultimately show ?thesis using g(2,5) unfolding h by (simp add: broadcast_certificate_def split: option.split)
qed

section \<open>Certificates\<close>

lemma slot_update_pinned: "pinned (snd (slot_update p True s)) p"
  by (auto simp: slot_update_def pinned_def split: option.split)

lemma recovered_pinned: "pinned (r_proposal (snd (round_add_recovered_proposal p r))) p"
  using slot_update_pinned [of p "r_proposal r"]
  by (auto simp: round_add_recovered_proposal_def Let_def case_prod_beta split: change.split)

lemma add_notarization_backed:
  fixes s :: "('d, 's, 'c, 'k) voter"
  assumes "voter_add_notarization n s = Ok ((True, e), s')"
  shows "backed (ANotarization n) (proposal_view (nzn_proposal n)) s'"
proof -
  let ?w = "proposal_view (nzn_proposal n)"
  obtain s1 where s': "s' = put_round ?w (snd (round_add_notarization n (fst (create_round ?w s1)))) (snd (create_round ?w s1))"
    and t: "fst (fst (round_add_notarization n (fst (create_round ?w s1))))"
    using assms by (auto simp: voter_add_notarization_def Let_def case_prod_beta elim!: and_then_OkE)
  have h: "pinned (r_proposal (snd (round_add_notarization n r))) (nzn_proposal n) \<and> r_notarization (snd (round_add_notarization n r)) = Some n" if "fst (fst (round_add_notarization n r))" for r :: "('d, 's, 'c, 'k) round"
    using that recovered_pinned [of "nzn_proposal n" "round_clear_deadlines r"]
    by (auto simp: round_add_notarization_def Let_def case_prod_beta split: if_splits)
  show ?thesis using h [OF t] by (simp add: s' backed_def)
qed

lemma add_finalization_backed:
  fixes s :: "('d, 's, 'c, 'k) voter"
  assumes "voter_add_finalization f s = Ok ((True, e), s')"
  shows "backed (AFinalization f) (proposal_view (fzn_proposal f)) s'"
proof -
  let ?w = "proposal_view (fzn_proposal f)"
  obtain s1 where s': "s' = put_round ?w (snd (round_add_finalization f (fst (create_round ?w s1)))) (snd (create_round ?w s1))"
    and t: "fst (fst (round_add_finalization f (fst (create_round ?w s1))))"
    using assms by (auto simp: voter_add_finalization_def Let_def case_prod_beta elim!: and_then_OkE)
  have h: "pinned (r_proposal (snd (round_add_finalization f r))) (fzn_proposal f) \<and> r_finalization (snd (round_add_finalization f r)) = Some f" if "fst (fst (round_add_finalization f r))" for r :: "('d, 's, 'c, 'k) round"
    using that recovered_pinned [of "fzn_proposal f" "round_clear_deadlines r"]
    by (auto simp: round_add_finalization_def Let_def case_prod_beta split: if_splits)
  show ?thesis using h [OF t] by (simp add: s' backed_def)
qed

text \<open>A certificate is added to a round only once.\<close>

lemma grows_notarized: "voter_grows V s s' \<Longrightarrow> backed (ANotarization m) w s \<Longrightarrow> r_notarization (fst (create_round w s')) \<noteq> None"
  by (fastforce simp: backed_def round_step_def round_le_def create_round_old dest: voter_grows_old)

lemma grows_finalized: "voter_grows V s s' \<Longrightarrow> backed (AFinalization m) w s \<Longrightarrow> r_finalization (fst (create_round w s')) \<noteq> None"
  by (fastforce simp: backed_def round_step_def round_le_def create_round_old dest: voter_grows_old)

lemma add_notarization_fresh:
  assumes "voter_add_notarization n s = Ok ((True, e), s')"
  shows "\<not> backed (ANotarization m) (proposal_view (nzn_proposal n)) s"
proof -
  obtain s1 w c where "set_leader w c s = Ok s1" "fst (fst (round_add_notarization n (fst (create_round (proposal_view (nzn_proposal n)) s1))))"
    using assms by (auto simp: voter_add_notarization_def Let_def case_prod_beta elim!: and_then_OkE)
  then show ?thesis using grows_notarized [OF grows_set_leader [of w c s s1], of m "proposal_view (nzn_proposal n)"] by (auto simp: round_add_notarization_def Let_def case_prod_beta split: if_splits)
qed

lemma add_finalization_fresh:
  assumes "voter_add_finalization f s = Ok ((True, e), s')"
  shows "\<not> backed (AFinalization g) (proposal_view (fzn_proposal f)) s"
  using conjunct2 [OF core_at_add_finalization [OF assms]] by (auto simp: core_at_def core_def backed_def split: option.splits)

lemma add_nullification_backed:
  assumes "voter_add_nullification n s = Ok (b, s')"
  shows "backed (ANullification n) (rnd_view (nln_round n)) s'"
  using assms by (auto simp: voter_add_nullification_def Let_def case_prod_beta backed_def elim!: and_then_OkE)

lemma block_equivocator_fields [simp]:
  "a_state (block_equivocator e a) = a_state a" "a_pool (block_equivocator e a) = a_pool a"
  "live E u T w0 a \<Longrightarrow> live E u T w0 (block_equivocator e a)"
  by (simp_all add: block_equivocator_def split: option.split)

lemma live_min_active: "live E u T w0 a \<Longrightarrow> voter_min_active (a_state a) = min_active T (v_last_finalized (a_state a))"
  by (simp add: live_def linked_def voter_min_active_def)

lemma live_min_same:
  "live E u T w0 a \<Longrightarrow> live F u' T w0 b \<Longrightarrow> v_last_finalized (a_state b) = v_last_finalized (a_state a) \<Longrightarrow>
    voter_min_active (a_state b) = voter_min_active (a_state a)"
  by (simp add: live_min_active)

text \<open>A handler keeps the link and the last finalized view.\<close>

definition keeps :: "view option \<Rightarrow> delta \<Rightarrow> ('d, 's, 'c) world \<Rightarrow> ('d, 's, 'c, 'k) actor \<Rightarrow> ('d, 's, 'c, 'k) actor \<Rightarrow> bool" where
  "keeps u T w0 a a' \<longleftrightarrow> live {} u T w0 a' \<and> v_last_finalized (a_state a') = v_last_finalized (a_state a)"

lemma live_handle_notarization:
  assumes "live {} u T w0 a" "voter_min_active (a_state a) \<le> proposal_view (nzn_proposal n)"
  shows "outcome (keeps u T w0 a) (traces_ok T w0) (handle_notarization n a)"
proof (cases "voter_add_notarization n (a_state a)")
  case (Ok x)
  obtain added e s' where xe: "x = ((added, e), s')" by (metis prod.collapse)
  note x = Ok [unfolded xe]
  have a1: "live {} u T w0 (a\<lparr>a_state := s'\<rparr>)"
    by (rule live_grows [OF assms(1) grows_add_notarization [OF x] finalized_add(1) [OF x] core_at_add_notarization [OF x]])
  have "live {} u T w0 (append_journal (proposal_view (nzn_proposal n)) (ANotarization n) (a\<lparr>a_state := s', a_candidates := c\<rparr>))"
    if added for c
  proof (rule live_append)
    show "backed (ANotarization n) (proposal_view (nzn_proposal n)) (a_state (a\<lparr>a_state := s', a_candidates := c\<rparr>))"
      using add_notarization_backed x that by simp
    have "ANotarization m \<notin> set (entries (world_of w0 a) (proposal_view (nzn_proposal n)))" for m
      using linkedD(6) [OF live_linked [OF assms(1)] assms(2), of "ANotarization m"] add_notarization_fresh [of n "a_state a" e s' m] x that by auto
    then show "ordered (ANotarization n) (set (entries (world_of w0 (a\<lparr>a_state := s', a_candidates := c\<rparr>)) (proposal_view (nzn_proposal n))))"
      by simp
    show "voter_min_active (a_state (a\<lparr>a_state := s', a_candidates := c\<rparr>)) \<le> proposal_view (nzn_proposal n)"
      using assms(2) live_min_same [OF assms(1) a1] finalized_add(1) [OF x] by simp
  qed (use a1 in simp_all)
  then show ?thesis using a1 finalized_add(1) [OF x] x by (simp add: handle_notarization_def Let_def keeps_def)
qed (simp_all add: handle_notarization_def live_traces [OF assms(1)])

lemma live_handle_nullification:
  assumes "live {} u T w0 a" "voter_min_active (a_state a) \<le> rnd_view (nln_round n)"
  shows "outcome (\<lambda>(_, a'). keeps u T w0 a a') (traces_ok T w0) (handle_nullification n a)"
proof (cases "voter_add_nullification n (a_state a)")
  case (Ok x)
  obtain added s' where xe: "x = (added, s')" by fastforce
  note x = Ok [unfolded xe]
  have a1: "live {} u T w0 (a\<lparr>a_state := s'\<rparr>)"
    by (rule live_grows [OF assms(1) conjunct1 [OF grows_add_nullification [OF x]] finalized_add(2) [OF x] core_at_add_nullification [OF x]])
  have "live {} u T w0 (append_journal (rnd_view (nln_round n)) (ANullification n) (a\<lparr>a_state := s'\<rparr>))"
  proof (rule live_append [OF a1])
    show "backed (ANullification n) (rnd_view (nln_round n)) (a_state (a\<lparr>a_state := s'\<rparr>))"
      using add_nullification_backed [OF x] by simp
    show "voter_min_active (a_state (a\<lparr>a_state := s'\<rparr>)) \<le> rnd_view (nln_round n)"
      using assms(2) live_min_same [OF assms(1) a1] finalized_add(2) [OF x] by simp
  qed simp_all
  then show ?thesis using a1 finalized_add(2) [OF x] x by (simp add: handle_nullification_def Let_def keeps_def)
qed (simp_all add: handle_nullification_def live_traces [OF assms(1)])

lemma certified_backed: "voter_certified w b s = Ok (Some n, s') \<Longrightarrow> voter_inv s \<Longrightarrow> backed (ACertification rnd b) w s'"
  using grows_certified [of w b s "Some n" s']
  by (auto simp: voter_certified_def backed_def split: option.splits dest!: voter_grows_old)

lemma live_handle_certification:
  assumes "live {} u T w0 a" "bt_get (v_views (a_state a)) v \<noteq> None \<Longrightarrow> voter_min_active (a_state a) \<le> v"
  shows "outcome (\<lambda>(n, a'). keeps u T w0 a a' \<and> (n = None \<longrightarrow> a' = a)
      \<and> (n \<noteq> None \<longrightarrow> bt_get (v_views (a_state a)) v \<noteq> None) \<and> a_pool a' = a_pool a) (traces_ok T w0) (handle_certification v b a)"
proof (cases "voter_certified v b (a_state a)")
  case (Ok x)
  obtain res s' where xe: "x = (res, s')" by fastforce
  note x = Ok [unfolded xe]
  note g = grows_certified [OF x]
  have a1: "live {} u T w0 (a\<lparr>a_state := s'\<rparr>)"
    by (rule live_grows [OF assms(1) conjunct1 [OF g] conjunct2 [OF g] core_at_certified [OF x]])
  show ?thesis
  proof (cases res)
    case None
    then have "s' = a_state a" using x by (auto simp: voter_certified_def Let_def split: option.splits if_splits elim!: and_then_OkE)
    then show ?thesis using None x assms(1) by (simp add: handle_certification_def keeps_def)
  next
    case (Some n)
    let ?a = "a\<lparr>a_state := s', a_candidates := removeAll v (a_candidates a)\<rparr>"
    have r: "bt_get (v_views (a_state a)) v \<noteq> None" using x Some by (auto simp: voter_certified_def split: option.splits)
    have m: "voter_min_active s' \<le> v" using assms(2) [OF r] live_min_same [OF assms(1) a1] g by simp
    have "live {} u T w0 (append_journal v (ACertification (Rnd (v_epoch s') v) b) ?a)"
      by (rule live_append) (use a1 m certified_backed x Some linkedD(2) [OF live_linked [OF assms(1)]] in simp_all)
    then show ?thesis using x Some g r m by (simp add: handle_certification_def Let_def keeps_def live_sync)
  qed
qed (simp_all add: handle_certification_def live_traces [OF assms(1)])

lemma linked_add_finalization:
  assumes "linked {} u T w s" "voter_add_finalization f s = Ok ((added, e), s')"
  shows "linked {} None T w s'"
proof (rule linkedI)
  note l = linkedD [OF assms(1)]
  let ?v = "proposal_view (fzn_proposal f)"
  have g: "voter_grows {?v, ?v + 1} s s'" "?v + 1 \<le> v_view s'" "v_last_finalized s' = max (v_last_finalized s) ?v"
    using grows_add_finalization [OF assms(2)] by simp_all
  note c = conjunct1 [OF core_at_add_finalization [OF assms(2)]]
  have k: "v_scheme s' = v_scheme s" "v_activity_timeout s' = v_activity_timeout s" "v_view s \<le> v_view s'"
    using g(1) by (simp_all add: voter_grows_def)
  have m: "voter_min_active s \<le> voter_min_active s'" by (rule min_active_grows [OF g(1)])
  show "voter_inv s'" using l(2) g(2,3) k(3) by (intro voter_inv_grows [OF l(2) g(1)]) (simp add: voter_inv_def)
  show "backed x v s'" if "voter_min_active s' \<le> v" "x \<in> set (entries w v)" for x v
    using m that by (intro backed_grows [OF l(6) l(2) g(1)]) simp_all
  have flags: "fst (core_at s' v) = fst (core_at s v)" "fst (snd (core_at s' v)) = fst (snd (core_at s v))"
      "snd (snd (snd (core_at s' v))) = snd (snd (snd (core_at s v)))" for v
    by (simp_all add: c split: prod.split)
  show "recorded_at w s' v" if "voter_min_active s' \<le> v" "v \<notin> {}" for v
    using l(7) [of v] m that by (simp add: recorded_at_def flags k)
  have "fst (snd (snd (core_at s' v))) = (if v = ?v then Some (case fst (snd (snd (core_at s ?v))) of None \<Rightarrow> f | Some x \<Rightarrow> x)
      else fst (snd (snd (core_at s v))))" for v by (simp add: c split: prod.split)
  then show "finals s'" using l(8) by (fastforce simp: finals_def flags g(3) split: option.splits if_splits)
  show "w_floor w \<le> voter_min_active s'" using l(5) m by simp
  show "nulls s'" by (rule nulls_grows [OF l(10) g(1)])
qed (use linkedD [OF assms(1)] grows_add_finalization [OF assms(2)] in \<open>simp_all add: voter_grows_def\<close>)

lemma finals_new: "finals s \<Longrightarrow> v_last_finalized s < v \<Longrightarrow> snd (snd (core_at s v)) = (None, False)"
  by (cases "core_at s v") (auto simp: finals_def split: option.splits, (metis fst_conv leD option.exhaust snd_conv)+)

lemma live_due: "live {} None T w0 a \<Longrightarrow> final_due u (world_of w0 a) (a_state a) \<Longrightarrow> live {} u T w0 a"
  by (simp add: live_def linked_def)

lemma live_final_0: "live {} (Some 0) T w0 a \<Longrightarrow> live {} u T w0 a"
  unfolding live_def linked_def using final_due_0 by blast

lemma live_forget: "live {} u T w0 a \<Longrightarrow> live {} None T w0 a"
  by (simp add: live_def linked_def)

lemma live_handle_finalization:
  assumes "live {} (Some 0) T w0 a" "voter_min_active (a_state a) \<le> proposal_view (fzn_proposal f)"
  shows "outcome (\<lambda>a'. live {} (Some (proposal_view (fzn_proposal f))) T w0 a'
      \<and> v_last_finalized (a_state a') = max (v_last_finalized (a_state a)) (proposal_view (fzn_proposal f)))
    (traces_ok T w0) (handle_finalization f a)"
proof (cases "voter_add_finalization f (a_state a)")
  case (Ok x)
  let ?v = "proposal_view (fzn_proposal f)" and ?s = "a_state a" and ?w = "world_of w0 a"
  obtain added e s' where xe: "x = ((added, e), s')" by (metis prod.collapse)
  note x = Ok [unfolded xe]
  note l = linkedD [OF live_linked [OF assms(1)]]
  have g: "v_last_finalized s' = max (v_last_finalized ?s) ?v" using grows_add_finalization [OF x] by simp
  have a1: "live {} None T w0 (a\<lparr>a_state := s'\<rparr>)"
    using assms(1) linked_add_finalization [OF live_linked [OF assms(1)] x] by (simp add: live_def)
  define a2 where "a2 = (if added then append_journal ?v (AFinalization f) (a\<lparr>a_state := s'\<rparr>) else a\<lparr>a_state := s'\<rparr>)"
  have a2: "live {} None T w0 a2"
  proof (cases added)
    case True
    have "live {} None T w0 (append_journal ?v (AFinalization f) (a\<lparr>a_state := s'\<rparr>))"
    proof (rule live_append [OF a1])
      show "backed (AFinalization f) ?v (a_state (a\<lparr>a_state := s'\<rparr>))" using add_finalization_backed x True by simp
      have "AFinalization m \<notin> set (entries ?w ?v)" for m
        using l(6) [OF assms(2), of "AFinalization m"] add_finalization_fresh [of f ?s e s' m] x True by auto
      then show "ordered (AFinalization f) (set (entries (world_of w0 (a\<lparr>a_state := s'\<rparr>)) ?v))" by simp
      show "voter_min_active (a_state (a\<lparr>a_state := s'\<rparr>)) \<le> ?v"
        using assms(2) g live_min_active [OF a1] live_min_active [OF assms(1)] by (simp add: min_active_def view_saturating_sub_def max_def)
    qed simp_all
    then show ?thesis using True by (simp add: a2_def)
  qed (use a1 in \<open>simp add: a2_def\<close>)
  have j: "a_journal (a\<lparr>a_state := s'\<rparr>)" using a1 by (simp add: live_def)
  have dur: "durable (world_of w0 a2) v = durable ?w v" for v
    using j by (simp add: a2_def append_journal_def durable_append [OF world_okD(4) [OF l(1)]])
  have "final_due (Some ?v) (world_of w0 a2) s'"
  proof (cases "v_last_finalized ?s < ?v")
    case True
    have n: "snd (snd (core_at ?s ?v)) = (None, False)" by (rule finals_new [OF l(8) True])
    then have added "snd (snd (core_at s' ?v)) = (Some f, False)"
      using core_at_add_finalization [OF x] by (auto split: prod.splits)
    then show ?thesis using True g j by (simp add: final_due_def a2_def world_of_journal max_def) blast
  next
    case False
    then have "v_last_finalized s' = v_last_finalized ?s" using g by (simp add: max_def)
    then show ?thesis using l(9) by (auto simp: final_due_def dur)
  qed
  moreover have "a_state a2 = s'" by (simp add: a2_def)
  ultimately have "live {} (Some ?v) T w0 a2" using live_due [OF a2] by simp
  then show ?thesis using x g \<open>a_state a2 = s'\<close> by (simp add: handle_finalization_def Let_def a2_def)
qed (simp_all add: handle_finalization_def live_traces [OF assms(1)])

section \<open>Notifying\<close>

lemma keeps_trans: "keeps u T w0 a b \<Longrightarrow> keeps u T w0 b c \<Longrightarrow> keeps u T w0 a c"
  by (simp add: keeps_def)

lemma keeps_emit: "neutral e \<Longrightarrow> keeps u T w0 a b \<Longrightarrow> keeps u T w0 a (emit e b)"
  by (simp add: keeps_def)

lemma keeps_sync: "keeps u T w0 a b \<Longrightarrow> voter_min_active (a_state b) \<le> v \<Longrightarrow> keeps u T w0 a (sync_journal v b)"
  by (simp add: keeps_def live_sync)

lemma keeps_certificate: "keeps u T w0 a b \<Longrightarrow> keeps u T w0 a (broadcast_certificate c b)"
  by (simp add: keeps_def broadcast_certificate_def)

lemma keeps_live: "live {} u T w0 b \<Longrightarrow> v_last_finalized (a_state b) = v_last_finalized (a_state a) \<Longrightarrow> keeps u T w0 a b"
  by (simp add: keeps_def)

lemmas keeps_intros = keeps_emit keeps_sync keeps_certificate

lemma keeps_active: "keeps u T w0 a b \<Longrightarrow> live E u' T w0 a \<Longrightarrow> voter_min_active (a_state b) = voter_min_active (a_state a)"
  using live_min_active unfolding keeps_def by metis

lemma live_try_broadcast_notarization:
  assumes "live {} u T w0 a" "voter_min_active (a_state a) \<le> v"
  shows "outcome (keeps u T w0 a) (traces_ok T w0) (try_broadcast_notarization v res a)"
proof -
  obtain o' s where b: "voter_broadcast_notarization v (a_state a) = (o', s)" by fastforce
  have g: "voter_grows {} (a_state a) s" "v_last_finalized s = v_last_finalized (a_state a)" "core_at s = core_at (a_state a)"
    using grows_get(3) [of "a_state a" v] finalized_same(5) [of v "a_state a"] core_at_ops(5) [of v "a_state a"] b by simp_all
  have a1: "live {} u T w0 (a\<lparr>a_state := s\<rparr>)" by (rule live_grows [OF assms(1) g])
  show ?thesis
  proof (cases o')
    case None
    then show ?thesis using a1 b g by (simp add: try_broadcast_notarization_def keeps_def)
  next
    case (Some n)
    define a2 where "a2 = (if res \<noteq> ResolvedNotarization then emit (ResolverUpdated (CNotarization n)) (a\<lparr>a_state := s\<rparr>) else a\<lparr>a_state := s\<rparr>)"
    have a2: "keeps u T w0 a a2" using a1 g(2) by (simp add: a2_def keeps_def)
    obtain r where r: "bt_get (v_views (a_state a)) v = Some r" "r_notarization r = Some n"
      using b Some by (auto simp: voter_broadcast_notarization_def round_get_broadcast_notarization_def Let_def split: option.splits if_splits)
    have "proposal_view (nzn_proposal n) = v"
      using voter_inv_round [OF linkedD(2) [OF live_linked [OF assms(1)]] r(1)] r(2) by (simp add: round_at_def)
    then have "outcome (keeps u T w0 a2) (traces_ok T w0) (handle_notarization n a2)"
      using a2 assms(2) keeps_active [OF a2 assms(1)] by (intro live_handle_notarization) (simp_all add: keeps_def)
    then have "outcome (keeps u T w0 a) (traces_ok T w0) (and_then (handle_notarization n a2) (\<lambda>a3.
        Ok (emit (Report (ReportCertificate (CNotarization n))) (broadcast_certificate (CNotarization n) (sync_journal v a3)))))"
    proof (rule outcome_bind)
      fix a3 assume "keeps u T w0 a2 a3"
      then have k: "keeps u T w0 a a3" by (rule keeps_trans [OF a2])
      then show "outcome (keeps u T w0 a) (traces_ok T w0) (Ok (emit (Report (ReportCertificate (CNotarization n)))
          (broadcast_certificate (CNotarization n) (sync_journal v a3))))"
        using keeps_active [OF k assms(1)] assms(2) by (auto intro!: keeps_intros)
    qed
    then show ?thesis using b Some by (simp add: try_broadcast_notarization_def a2_def Let_def)
  qed
qed

lemma live_try_broadcast_nullification:
  fixes a :: "('d, 's, 'c, 'k) actor"
  assumes "live {} u T w0 a" "voter_min_active (a_state a) \<le> v"
  shows "outcome (keeps u T w0 a) (traces_ok T w0) (try_broadcast_nullification v res a)"
proof -
  obtain o' s where b: "voter_broadcast_nullification v (a_state a) = (o', s)" by fastforce
  have g: "voter_grows {} (a_state a) s" "v_last_finalized s = v_last_finalized (a_state a)" "core_at s = core_at (a_state a)"
    using grows_get(4) [of "a_state a" v] finalized_same(6) [of v "a_state a"] core_at_ops(6) [of v "a_state a"] b by simp_all
  have a1: "live {} u T w0 (a\<lparr>a_state := s\<rparr>)" by (rule live_grows [OF assms(1) g])
  show ?thesis
  proof (cases o')
    case None
    then show ?thesis using a1 b g by (simp add: try_broadcast_nullification_def keeps_def)
  next
    case (Some n)
    define a2 where "a2 = (if res \<noteq> ResolvedNullification then emit (ResolverUpdated (CNullification n)) (a\<lparr>a_state := s\<rparr>) else a\<lparr>a_state := s\<rparr>)"
    have a2: "keeps u T w0 a a2" using a1 g(2) by (simp add: a2_def keeps_def)
    obtain r where r: "bt_get (v_views (a_state a)) v = Some r" "r_nullification r = Some n"
      using b Some by (auto simp: voter_broadcast_nullification_def round_get_broadcast_nullification_def Let_def split: option.splits if_splits)
    have "rnd_view (nln_round n) = v"
      using linkedD(10) [OF live_linked [OF assms(1)]] r by (simp add: nulls_def null_at_def)
    then have "outcome (\<lambda>(_, a'). keeps u T w0 a2 a') (traces_ok T w0) (handle_nullification n a2)"
      using a2 assms(2) keeps_active [OF a2 assms(1)] by (intro live_handle_nullification) (simp_all add: keeps_def)
    then have "outcome (keeps u T w0 a) (traces_ok T w0) (and_then (handle_nullification n a2) (\<lambda>(floor, a3).
        let a4 = (case floor of None \<Rightarrow> a3 | Some c \<Rightarrow> broadcast_certificate c a3) in
        Ok (emit (Report (ReportCertificate (CNullification n))) (broadcast_certificate (CNullification n) (sync_journal v a4)))))"
    proof (rule outcome_bind, clarify)
      fix floor :: "('d, 'c) certificate option" and a3 :: "('d, 's, 'c, 'k) actor"
      assume "keeps u T w0 a2 a3"
      then have k: "keeps u T w0 a a3" by (rule keeps_trans [OF a2])
      then show "outcome (keeps u T w0 a) (traces_ok T w0) (let a4 = (case floor of None \<Rightarrow> a3 | Some c \<Rightarrow> broadcast_certificate c a3) in
          Ok (emit (Report (ReportCertificate (CNullification n))) (broadcast_certificate (CNullification n) (sync_journal v a4))))"
        using keeps_active [OF k assms(1)] assms(2) by (cases floor) (auto intro!: keeps_intros simp: broadcast_certificate_def)
    qed
    then show ?thesis using b Some by (simp add: try_broadcast_nullification_def a2_def Let_def)
  qed
qed

lemma handle_known_finalization:
  assumes "voter_add_finalization f s = Ok ((added, e), s')" "fst (snd (snd (core_at s (proposal_view (fzn_proposal f))))) = Some x"
  shows "\<not> added \<and> e = None \<and> core_at s' = core_at s"
proof -
  let ?v = "proposal_view (fzn_proposal f)"
  note c = core_at_add_finalization [OF assms(1)]
  have "\<not> added" using c assms(2) by simp
  moreover have "e = None" using assms(1) \<open>\<not> added\<close>
    by (auto simp: voter_add_finalization_def round_add_finalization_def Let_def case_prod_beta split: if_splits elim!: and_then_OkE)
  moreover have "core_at s' = core_at s" using c assms(2) by (auto simp: fun_eq_iff split: prod.splits)
  ultimately show ?thesis by simp
qed

lemma live_try_broadcast_finalization:
  fixes a :: "('d, 's, 'c, 'k) actor"
  assumes "live {} (Some v) T w0 a" "voter_min_active (a_state a) \<le> v"
  shows "outcome (keeps (Some 0) T w0 a) (traces_ok T w0) (try_broadcast_finalization v res a)"
proof -
  let ?s = "a_state a" and ?w = "world_of w0 a"
  note l = linkedD [OF live_linked [OF assms(1)]]
  obtain o' s where b: "voter_broadcast_finalization v ?s = (o', s)" by fastforce
  have g: "voter_grows {} ?s s" "v_last_finalized s = v_last_finalized ?s"
    using grows_get(5) [of ?s v] finalized_same(7) [of v ?s] b by simp_all
  note c = core_at_broadcast_finalization [OF b]
  have fin: "finals s" using l(8) c by (fastforce simp: finals_def g(2) split: option.splits prod.splits)
  have "linked {} None T ?w s" using c fin
    by (intro linked_grows_votes [OF live_linked [OF assms(1)] g]) (simp_all split: prod.split)
  then have a1: "live {} None T w0 (a\<lparr>a_state := s\<rparr>)" using assms(1) by (simp add: live_def)
  show ?thesis
  proof (cases o')
    case None
    then have "final_due (Some 0) ?w s" using l(9) c g(2) by (fastforce simp: final_due_def)
    then show ?thesis using live_due [OF a1] b None g by (simp add: try_broadcast_finalization_def keeps_def)
  next
    case (Some f)
    then have f: "fst (snd (snd (core_at ?s v))) = Some f" using c by simp
    then have vf: "proposal_view (fzn_proposal f) = v" "v \<le> v_last_finalized ?s" using l(8) by (auto simp: finals_def)
    have cs: "fst (snd (snd (core_at s v))) = Some f" using c f by (auto split: prod.splits)
    define a2 where "a2 = (if res \<noteq> ResolvedFinalization then emit (ResolverUpdated (CFinalization f)) (a\<lparr>a_state := s\<rparr>) else a\<lparr>a_state := s\<rparr>)"
    have a2: "live {} None T w0 a2" "a_state a2 = s" "world_of w0 a2 = ?w" using a1 by (simp_all add: a2_def)
    have due: "v_last_finalized ?s = 0 \<or> (\<exists>f. AFinalization f \<in> durable ?w (v_last_finalized ?s))
        \<or> v = v_last_finalized ?s \<and> (\<exists>f. AFinalization f \<in> set (entries ?w v))"
      using l(9) by (auto simp: final_due_def)
    have "outcome (\<lambda>a3. live {} None T w0 a3 \<and> world_of w0 a3 = ?w \<and> v_last_finalized (a_state a3) = v_last_finalized ?s)
        (traces_ok T w0) (handle_finalization f a2)"
    proof (cases "voter_add_finalization f s")
      case (Ok x)
      obtain added e s' where xe: "x = ((added, e), s')" by (metis prod.collapse)
      note x = Ok [unfolded xe]
      have "v_last_finalized s' = v_last_finalized ?s" using grows_add_finalization [OF x] vf g(2) by (simp add: max_def)
      moreover have "live {} None T w0 (a2\<lparr>a_state := s'\<rparr>)"
        using a2 linked_add_finalization [OF live_linked [OF a2(1), unfolded a2(2)] x] by (simp add: live_def)
      ultimately show ?thesis using handle_known_finalization [OF x] cs vf(1) x a2
        by (simp add: handle_finalization_def Let_def block_equivocator_def)
    qed (use a2 in \<open>simp_all add: handle_finalization_def live_traces [OF a2(1)]\<close>)
    then have "outcome (keeps (Some 0) T w0 a) (traces_ok T w0) (and_then (handle_finalization f a2) (\<lambda>a3.
        Ok (emit (Report (ReportCertificate (CFinalization f))) (broadcast_certificate (CFinalization f) (sync_journal v a3)))))"
    proof (rule outcome_bind)
      fix a3 :: "('d, 's, 'c, 'k) actor"
      assume a3: "live {} None T w0 a3 \<and> world_of w0 a3 = ?w \<and> v_last_finalized (a_state a3) = v_last_finalized ?s"
      have "final_due (Some 0) (world_of w0 (sync_journal v a3)) (a_state (sync_journal v a3))"
      proof -
        have d: "durable (world_of w0 (sync_journal v a3)) y = (if y = v then set (entries ?w y) else durable ?w y)" for y
          using a3 by (simp add: world_of_journal live_def)
        have "AFinalization g \<in> durable (world_of w0 (sync_journal v a3)) y" if "AFinalization g \<in> durable ?w y" for g y
          using that durable_entries [of ?w y] d [of y] by auto
        then have "v_last_finalized ?s = 0 \<or> (\<exists>g. AFinalization g \<in> durable (world_of w0 (sync_journal v a3)) (v_last_finalized ?s))"
          using due d [of v] by (elim disjE) auto
        then show ?thesis using a3 unfolding final_due_def by (elim disjE) simp_all
      qed
      moreover have "voter_min_active (a_state a3) \<le> v" using assms(2) a3 live_min_same [OF assms(1) conjunct1 [OF a3]] by simp
      ultimately have "live {} (Some 0) T w0 (sync_journal v a3)" using live_due [OF live_sync [OF conjunct1 [OF a3]]] by blast
      then show "outcome (keeps (Some 0) T w0 a) (traces_ok T w0) (Ok (emit (Report (ReportCertificate (CFinalization f)))
          (broadcast_certificate (CFinalization f) (sync_journal v a3))))"
        using a3 by (auto simp: keeps_def broadcast_certificate_def)
    qed
    then show ?thesis using b Some by (simp add: try_broadcast_finalization_def a2_def Let_def)
  qed
qed

lemma live_notify:
  assumes "live {} (Some v) T w0 a" "voter_min_active (a_state a) \<le> v"
  shows "outcome (keeps (Some 0) T w0 a) (traces_ok T w0) (notify v res a)"
proof -
  let ?u = "Some v"
  have m: "voter_min_active (a_state b) \<le> v" if "keeps ?u T w0 a b" for b
    using assms that live_min_active [of "{}" ?u T w0 a] live_min_active [of "{}" ?u T w0 b] by (simp add: keeps_def)
  have k1: "keeps ?u T w0 a (try_broadcast_notarize v a)"
    using live_try_broadcast_notarize [OF assms] by (simp add: keeps_def)
  have o2: "outcome (keeps ?u T w0 a) (traces_ok T w0) (try_broadcast_notarization v res (try_broadcast_notarize v a))"
    using k1 keeps_trans [OF k1] m [OF k1]
    by (intro outcome_weaken [OF live_try_broadcast_notarization [where u = ?u and a = "try_broadcast_notarize v a"]]) (auto simp: keeps_def)
  have o3: "outcome (keeps ?u T w0 a) (traces_ok T w0) (try_broadcast_nullification v res b)" if "keeps ?u T w0 a b" for b
    using that keeps_trans [OF that] m [OF that] by (intro outcome_weaken [OF live_try_broadcast_nullification [where u = ?u and a = b]]) (auto simp: keeps_def)
  have o4: "outcome (keeps (Some 0) T w0 a) (traces_ok T w0) (try_broadcast_finalization v res (try_broadcast_finalize v b))"
    if "keeps ?u T w0 a b" for b
  proof -
    have "live {} ?u T w0 (try_broadcast_finalize v b)" "v_last_finalized (a_state (try_broadcast_finalize v b)) = v_last_finalized (a_state a)"
      using live_try_broadcast_finalize [OF _ m [OF that]] that by (auto simp: keeps_def)
    then have k: "keeps ?u T w0 a (try_broadcast_finalize v b)" by (simp add: keeps_def)
    then have "live {} ?u T w0 (try_broadcast_finalize v b)" by (simp add: keeps_def)
    from live_try_broadcast_finalization [OF this m [OF k]] show ?thesis by (rule outcome_weaken) (use k in \<open>simp add: keeps_def\<close>)
  qed
  show ?thesis unfolding notify_def by (rule outcome_bind [OF o2 outcome_bind [OF o3 o4]])
qed

end
