(* ===== verification/Voter_Loop.thy ===== *)
theory Voter_Loop
  imports Voter_Live
begin

text \<open>
  One iteration of the loop of the voter actor keeps the link between its rounds and its journal, for
  every event: the requests at the top, the branch of the event, the votes and certificates that
  became available, pruning and the end of the iteration.
\<close>

section \<open>Outstanding certification requests\<close>

text \<open>A request whose view has left the activity window has no round any more.\<close>

definition none_below :: "('d, 's, 'c, 'k) voter \<Rightarrow> view \<Rightarrow> bool" where
  "none_below s v \<longleftrightarrow> (v < voter_min_active s \<longrightarrow> bt_get (v_views s) v = None)"

definition pool_ok :: "('d, 's, 'c, 'k) actor \<Rightarrow> bool" where
  "pool_ok a \<longleftrightarrow> (\<forall>r \<in> set (a_pool a). none_below (a_state a) (rnd_view r))"

lemma none_below_grows:
  assumes "none_below s v" "voter_grows V s s'" "v_last_finalized s' = v_last_finalized s" "\<forall>v \<in> V. voter_min_active s \<le> v"
  shows "none_below s' v"
proof -
  have m: "voter_min_active s' = voter_min_active s" using assms(2,3) by (simp add: voter_grows_def voter_min_active_def)
  show ?thesis
  proof (cases "bt_get (v_views s') v")
    case (Some r)
    then show ?thesis using assms(1,4) m voter_grows_new [OF assms(2) _ Some] by (fastforce simp: none_below_def)
  qed (simp add: none_below_def)
qed

lemma pool_ok_grows:
  assumes "pool_ok a" "voter_grows V (a_state a) s" "v_last_finalized s = v_last_finalized (a_state a)"
    "\<forall>v \<in> V. voter_min_active (a_state a) \<le> v"
  shows "pool_ok (a\<lparr>a_state := s\<rparr>)"
  using assms none_below_grows [OF _ assms(2-4)] by (simp add: pool_ok_def)

lemma pool_ok_fields [simp]:
  "pool_ok (a\<lparr>a_candidates := c\<rparr>) = pool_ok a" "pool_ok (a\<lparr>a_pending_propose := p\<rparr>) = pool_ok a"
  "pool_ok (a\<lparr>a_pending_verify := q\<rparr>) = pool_ok a" "pool_ok (emit e a) = pool_ok a"
  by (simp_all add: pool_ok_def)

text \<open>What holds of the actor between iterations.\<close>

definition settled :: "delta \<Rightarrow> ('d, 's, 'c) world \<Rightarrow> ('d, 's, 'c, 'k) actor \<Rightarrow> bool" where
  "settled T w0 a \<longleftrightarrow> live {} (Some 0) T w0 a \<and> pool_ok a"

lemma settled_live: "settled T w0 a \<Longrightarrow> live {} u T w0 a"
  by (simp add: settled_def live_final_0)

lemma settled_traces: "settled T w0 a \<Longrightarrow> traces_ok T w0 a"
  using live_traces settled_def by blast

lemma settled_inv: "settled T w0 a \<Longrightarrow> voter_inv (a_state a)"
  using linkedD(2) live_linked settled_def by blast

lemma settled_fields [simp]:
  "settled T w0 (a\<lparr>a_candidates := c\<rparr>) = settled T w0 a" "settled T w0 (a\<lparr>a_pending_propose := p\<rparr>) = settled T w0 a"
  "settled T w0 (a\<lparr>a_pending_verify := q\<rparr>) = settled T w0 a"
  by (simp_all add: settled_def)

lemma settled_emit: "neutral e \<Longrightarrow> settled T w0 a \<Longrightarrow> settled T w0 (emit e a)"
  by (simp add: settled_def)

lemma settled_grows:
  assumes "settled T w0 a" "voter_grows V (a_state a) s" "v_last_finalized s = v_last_finalized (a_state a)"
    "core_at s = core_at (a_state a)" "\<forall>v \<in> V. voter_min_active (a_state a) \<le> v"
  shows "settled T w0 (a\<lparr>a_state := s\<rparr>)"
  using assms live_grows [OF _ assms(2-4)] pool_ok_grows [OF _ assms(2,3,5)] by (simp add: settled_def)

section \<open>The top of the loop\<close>

lemma try_verify_view:
  assumes "voter_try_verify s = Ok (x, s')" "voter_inv s"
  shows "v_view s' = v_view s \<and> (\<forall>ctx p. x = Some (ctx, p) \<longrightarrow> rnd_view (ctx_round ctx) = v_view s)"
proof (cases "bt_get (v_views s) (v_view s)")
  case (Some r)
  have at: "round_at (v_view s) r" by (rule voter_inv_round [OF assms(2) Some])
  show ?thesis
  proof (cases "round_should_verify r")
    case None
    then show ?thesis using assms Some by (simp add: voter_try_verify_def)
  next
    case (Some lp)
    obtain l p where lp: "lp = (l, p)" by fastforce
    have "rnd_view (prop_round p) = v_view s" using at Some lp
      by (auto simp: round_at_def round_should_verify_def proposal_view_def split: option.splits)
    then show ?thesis using assms Some lp \<open>bt_get (v_views s) (v_view s) = Some r\<close>
      by (auto simp: voter_try_verify_def Let_def case_prod_beta create_round_same split: option.splits if_splits elim!: and_then_OkE)
  qed
qed (use assms in \<open>simp add: voter_try_verify_def\<close>)

lemma try_propose_view: "voter_try_propose s = Ok (x, s') \<Longrightarrow> v_view s' = v_view s"
  by (auto simp: voter_try_propose_def Let_def case_prod_beta create_round_same split: option.splits result.splits if_splits)

lemma settled_try_propose:
  assumes "settled T w0 a"
  shows "outcome (\<lambda>(_, a'). settled T w0 a' \<and> v_view (a_state a') = v_view (a_state a)
      \<and> v_last_finalized (a_state a') = v_last_finalized (a_state a) \<and> a_pending_verify a' = a_pending_verify a)
    (traces_ok T w0) (try_propose a)"
proof (cases "voter_try_propose (a_state a)")
  case (Ok x)
  obtain res s where xe: "x = (res, s)" by fastforce
  note x = Ok [unfolded xe]
  have "settled T w0 (a\<lparr>a_state := s\<rparr>)"
    by (rule settled_grows [OF assms grows_try_propose [OF x] finalized_try(1) [OF x] core_at_try_propose [OF x]]) simp
  then show ?thesis using x try_propose_view [OF x] finalized_try(1) [OF x]
    by (simp add: try_propose_def Let_def settled_emit split: option.split)
qed (simp_all add: try_propose_def settled_traces [OF assms])

lemma settled_try_verify:
  assumes "settled T w0 a"
  shows "outcome (\<lambda>(o', a'). settled T w0 a' \<and> v_view (a_state a') = v_view (a_state a)
      \<and> v_last_finalized (a_state a') = v_last_finalized (a_state a)
      \<and> (\<forall>ctx. o' = Some ctx \<longrightarrow> rnd_view (ctx_round ctx) = v_view (a_state a)))
    (traces_ok T w0) (try_verify a)"
proof (cases "voter_try_verify (a_state a)")
  case (Ok x)
  obtain res s where xe: "x = (res, s)" by fastforce
  note x = Ok [unfolded xe]
  have "settled T w0 (a\<lparr>a_state := s\<rparr>)"
    by (rule settled_grows [OF assms grows_try_verify [OF x] finalized_try(2) [OF x] core_at_try_verify [OF x]]) simp
  then show ?thesis using x try_verify_view [OF x settled_inv [OF assms]] finalized_try(2) [OF x]
    by (auto simp: try_verify_def Let_def settled_emit split: option.split)
qed (simp_all add: try_verify_def settled_traces [OF assms])

lemma settled_certify_one:
  assumes "settled T w0 a" "v_last_finalized (a_state a) < v"
  shows "settled T w0 (certify_one v a) \<and> v_view (a_state (certify_one v a)) = v_view (a_state a)
    \<and> v_last_finalized (a_state (certify_one v a)) = v_last_finalized (a_state a)
    \<and> a_pending_verify (certify_one v a) = a_pending_verify a"
proof (cases "voter_try_certify (a_state a) v")
  case (Ready p)
  then obtain r where r: "bt_get (v_views (a_state a)) v = Some r" "slot_proposal (r_proposal r) = Some p"
    by (auto simp: voter_try_certify_def round_should_certify_def split: option.splits if_splits)
  have pv: "rnd_view (prop_round p) = v"
    using voter_inv_round [OF settled_inv [OF assms(1)] r(1)] r(2) by (simp add: round_at_def proposal_view_def)
  let ?a = "emit (AutomatonCertify (payload p)) a"
  let ?s = "voter_set_certify_handle v (length (a_pool a)) (a_state a)"
  have e: "settled T w0 ?a" by (simp add: settled_emit assms(1))
  have s1: "settled T w0 (?a\<lparr>a_state := ?s\<rparr>)"
    by (rule settled_grows [OF e, where V = "{}"]) (simp_all add: grows_get(8) finalized_same)
  have "\<not> v < voter_min_active ?s"
    using assms(2) finalized_same(12) [of v "length (a_pool a)" "a_state a"]
    by (simp add: voter_min_active_def min_active_def view_saturating_sub_def)
  then have "settled T w0 (?a\<lparr>a_pool := a_pool a @ [prop_round p], a_state := ?s\<rparr>)"
    using s1 pv by (auto simp: settled_def live_def pool_ok_def none_below_def)
  then show ?thesis using Ready pv by (simp add: certify_one_def try_certify_def view_same finalized_same)
qed (use assms in \<open>simp_all add: certify_one_def try_certify_def\<close>)

lemma settled_certify_all:
  "settled T w0 a \<Longrightarrow> \<forall>v \<in> set vs. v_last_finalized (a_state a) < v \<Longrightarrow>
    settled T w0 (fold certify_one vs a) \<and> v_view (a_state (fold certify_one vs a)) = v_view (a_state a)
    \<and> v_last_finalized (a_state (fold certify_one vs a)) = v_last_finalized (a_state a)
    \<and> a_pending_verify (fold certify_one vs a) = a_pending_verify a"
  by (induction vs arbitrary: a) (simp_all add: settled_certify_one)

text \<open>After the top of the loop a pending verification is one of the current view.\<close>

definition at_select :: "delta \<Rightarrow> ('d, 's, 'c) world \<Rightarrow> ('d, 's, 'c, 'k) actor \<Rightarrow> bool" where
  "at_select T w0 a \<longleftrightarrow> settled T w0 a
     \<and> (\<forall>ctx. a_pending_verify a = Some ctx \<longrightarrow> rnd_view (ctx_round ctx) = v_view (a_state a))"

lemma at_select_deadline:
  assumes "at_select T w0 a"
  shows "at_select T w0 (a\<lparr>a_state := snd (voter_next_timeout_deadline (a_state a))\<rparr>)"
proof -
  have s: "settled T w0 a" using assms by (simp add: at_select_def)
  have "settled T w0 (a\<lparr>a_state := snd (voter_next_timeout_deadline (a_state a))\<rparr>)"
    using min_active_less [OF settled_inv [OF s]]
    by (intro settled_grows [OF s grows_simple(1)]) (simp_all add: finalized_same)
  then show ?thesis using assms by (simp add: at_select_def view_same)
qed

lemma at_select_loop_top:
  fixes a :: "('d, 's, 'c, 'k) actor"
  assumes "settled T w0 a"
  shows "outcome (at_select T w0) (traces_ok T w0) (loop_top a)"
proof -
  define keep :: "('d, 'k) block_context option \<Rightarrow> ('d, 'k) block_context option" where "keep = (\<lambda>p. case p of Some ctx \<Rightarrow> if rnd_view (ctx_round ctx) \<noteq> v_view (a_state a) then None else p | None \<Rightarrow> None)"
  define a1 where "a1 = a\<lparr>a_pending_propose := keep (a_pending_propose a), a_pending_verify := keep (a_pending_verify a)\<rparr>"
  have a1: "at_select T w0 a1" using assms by (auto simp: a1_def at_select_def keep_def split: option.splits if_splits)
  have o2: "outcome (at_select T w0) (traces_ok T w0) (if a_pending_propose a1 = None
      then and_then (try_propose a1) (\<lambda>(pp, a'). Ok (a'\<lparr>a_pending_propose := pp\<rparr>)) else Ok a1)"
    using a1 settled_try_propose [of T w0 a1] by (cases "try_propose a1") (auto simp: at_select_def)
  have o3: "outcome (at_select T w0) (traces_ok T w0) (if a_pending_verify a2 = None
      then and_then (try_verify a2) (\<lambda>(pv, a'). Ok (a'\<lparr>a_pending_verify := pv\<rparr>)) else Ok a2)" if "at_select T w0 a2" for a2 :: "('d, 's, 'c, 'k) actor"
    using that settled_try_verify [of T w0 a2] by (cases "try_verify a2") (auto simp: at_select_def)
  have o4: "outcome (at_select T w0) (traces_ok T w0) (and_then (run_state (view_next (v_last_finalized (a_state a3))) a3) (\<lambda>floor.
        let candidates = filter (\<lambda>v. floor \<le> v) (a_candidates a3);
            a4 = fold certify_one candidates (a3\<lparr>a_candidates := []\<rparr>)
        in Ok (a4\<lparr>a_state := snd (voter_next_timeout_deadline (a_state a4))\<rparr>)))" if "at_select T w0 a3" for a3 :: "('d, 's, 'c, 'k) actor"
  proof (rule outcome_bind)
    show "outcome (\<lambda>floor. v_last_finalized (a_state a3) < floor) (traces_ok T w0)
        (run_state (view_next (v_last_finalized (a_state a3))) a3)"
      using that settled_traces by (intro outcome_state) (auto simp: at_select_def view_next_eq_Ok)
  next
    fix floor assume "v_last_finalized (a_state a3) < floor"
    then have "at_select T w0 (fold certify_one (filter (\<lambda>v. floor \<le> v) (a_candidates a3)) (a3\<lparr>a_candidates := []\<rparr>))"
      using that settled_certify_all [of T w0 "a3\<lparr>a_candidates := []\<rparr>" "filter (\<lambda>v. floor \<le> v) (a_candidates a3)"]
      by (auto simp: at_select_def)
    then show "outcome (at_select T w0) (traces_ok T w0) (let candidates = filter (\<lambda>v. floor \<le> v) (a_candidates a3);
            a4 = fold certify_one candidates (a3\<lparr>a_candidates := []\<rparr>)
        in Ok (a4\<lparr>a_state := snd (voter_next_timeout_deadline (a_state a4))\<rparr>))"
      by (simp add: Let_def at_select_deadline)
  qed
  have "loop_top a = and_then (if a_pending_propose a1 = None
      then and_then (try_propose a1) (\<lambda>(pp, a'). Ok (a'\<lparr>a_pending_propose := pp\<rparr>)) else Ok a1) (\<lambda>a2.
      and_then (if a_pending_verify a2 = None
      then and_then (try_verify a2) (\<lambda>(pv, a'). Ok (a'\<lparr>a_pending_verify := pv\<rparr>)) else Ok a2) (\<lambda>a3.
      and_then (run_state (view_next (v_last_finalized (a_state a3))) a3) (\<lambda>floor.
        let candidates = filter (\<lambda>v. floor \<le> v) (a_candidates a3);
            a4 = fold certify_one candidates (a3\<lparr>a_candidates := []\<rparr>)
        in Ok (a4\<lparr>a_state := snd (voter_next_timeout_deadline (a_state a4))\<rparr>))))"
    unfolding loop_top_def Let_def a1_def keep_def ..
  then show ?thesis by (simp only:) (rule outcome_bind [OF o2], rule outcome_bind [OF o3], assumption, rule o4)
qed


section \<open>The branches of the select\<close>

text \<open>A branch continues the loop, or names a view to notify that is in the window or has no round.\<close>

definition branch_ok :: "delta \<Rightarrow> ('d, 's, 'c) world \<Rightarrow> (view \<times> resolved) option \<times> ('d, 's, 'c, 'k) actor \<Rightarrow> bool" where
  "branch_ok T w0 b \<longleftrightarrow> (case fst b of None \<Rightarrow> settled T w0 (snd b)
     | Some (v, _) \<Rightarrow> live {} (Some v) T w0 (snd b)
         \<and> (voter_min_active (a_state (snd b)) \<le> v \<or> bt_get (v_views (a_state (snd b))) v = None))"

lemma branch_ok_simps [simp]:
  "branch_ok T w0 (None, a) = settled T w0 a"
  "branch_ok T w0 (Some (v, res), a) \<longleftrightarrow> live {} (Some v) T w0 a
     \<and> (voter_min_active (a_state a) \<le> v \<or> bt_get (v_views (a_state a)) v = None)"
  by (simp_all add: branch_ok_def)

lemma interesting_active: "voter_is_interesting s v b = Ok True \<Longrightarrow> voter_min_active s \<le> v"
  by (auto simp: voter_is_interesting_def interesting_def voter_min_active_def Let_def split: if_splits elim!: and_then_OkE)

lemma live_current: "live E u T w0 a \<Longrightarrow> voter_min_active (a_state a) \<le> v_view (a_state a)"
  using min_active_less linkedD(2) live_linked by (metis less_imp_le)

lemma branch_timeout:
  assumes "settled T w0 a"
  shows "branch_ok T w0 (Some (v_view (a_state a), ResolvedNone), handle_timeout a)"
proof -
  note t = live_handle_timeout [OF settled_live [OF assms, of "Some (v_view (a_state a))"]]
  then show ?thesis using live_current [OF conjunct1 [OF t]] by simp
qed

lemma branch_proposed:
  assumes "at_select T w0 a"
  shows "outcome (branch_ok T w0) (traces_ok T w0) (on_proposed res a)"
proof -
  have s: "settled T w0 a" "settled T w0 (a\<lparr>a_pending_propose := None\<rparr>)" using assms by (simp_all add: at_select_def)
  have p: "settled T w0 (a\<lparr>a_pending_propose := None, a_state := snd (voter_proposed p (a_state a))\<rparr>)" for p
    using settled_grows [OF s(2), of "{}" "snd (voter_proposed p (a_state a))"] by (simp add: grows_get finalized_same)
  have "voter_min_active (snd (voter_proposed p (a_state a))) \<le> v_view (a_state a)" for p
    using live_current [OF settled_live [OF p]] by (simp add: view_same)
  then show ?thesis using s p
    by (auto simp: on_proposed_def Let_def case_prod_beta view_same settled_live split: option.split)
qed

lemma branch_verified:
  assumes "at_select T w0 a"
  shows "outcome (branch_ok T w0) (traces_ok T w0) (on_verified res a)"
proof (cases "a_pending_verify a")
  case (Some ctx)
  have s: "settled T w0 (a\<lparr>a_pending_verify := None\<rparr>)" using assms by (simp add: at_select_def)
  have v: "rnd_view (ctx_round ctx) = v_view (a_state a)" using assms Some by (simp add: at_select_def)
  have "settled T w0 (a\<lparr>a_pending_verify := None, a_state := snd (voter_verified (v_view (a_state a)) (a_state a))\<rparr>)"
    using settled_grows [OF s, of "{}" "snd (voter_verified (v_view (a_state a)) (a_state a))"]
    by (simp add: grows_get finalized_same)
  note this [THEN settled_live] s [THEN settled_live]
  note this [THEN live_current] this
  then show ?thesis using Some v branch_timeout [OF s]
    by (auto simp: on_verified_def Let_def view_same split: option.split bool.split)
qed (use assms in \<open>simp add: on_verified_def at_select_def\<close>)

lemma settled_pool: "settled T w0 a \<Longrightarrow> set ps \<subseteq> set (a_pool a) \<Longrightarrow> settled T w0 (a\<lparr>a_pool := ps\<rparr>)"
  by (auto simp: settled_def pool_ok_def)

lemma branch_certified:
  fixes a :: "('d, 's, 'c, 'k) actor"
  assumes "settled T w0 a"
  shows "outcome (branch_ok T w0) (traces_ok T w0) (on_certified i res a)"
proof (cases "i < length (a_pool a)")
  case True
  define v where "v = rnd_view (a_pool a ! i)"
  define b where "b = a\<lparr>a_pool := take i (a_pool a) @ drop (Suc i) (a_pool a)\<rparr>"
  have b: "settled T w0 b" unfolding b_def by (rule settled_pool [OF assms]) (auto dest: in_set_takeD in_set_dropD)
  have n: "none_below (a_state b) v" using assms True by (simp add: settled_def pool_ok_def v_def b_def)
  note l = settled_live [OF b, of "Some v"]
  have "branch_ok T w0 (Some (v, ResolvedNone), b\<lparr>a_state := voter_retry_certification v (a_state b), a_candidates := bs_insert v (a_candidates b)\<rparr>)"
  proof -
    have "none_below (voter_retry_certification v (a_state b)) v"
      by (rule none_below_grows [OF n grows_get(9)]) (simp_all add: finalized_same)
    moreover have "live {} (Some v) T w0 (b\<lparr>a_state := voter_retry_certification v (a_state b)\<rparr>)"
      by (rule live_grows [OF l grows_get(9)]) (simp_all add: finalized_same)
    ultimately show ?thesis by (auto simp: none_below_def)
  qed
  moreover have "outcome (branch_ok T w0) (traces_ok T w0) (and_then (handle_certification v s b) (\<lambda>(o', a1).
      case o' of None \<Rightarrow> Ok (None, a1)
      | Some notarization \<Rightarrow>
          let a2 = emit (ResolverCertified v s) a1;
              a3 = (if s then emit (Report (ReportCertification notarization)) a2 else a2)
          in Ok (Some (v, ResolvedNone), a3)))" for s
  proof (rule outcome_bind [OF live_handle_certification [OF l]], use n in \<open>force simp: none_below_def\<close>, clarify)
    fix o' :: "('d, 'c) notarization option" and a1 :: "('d, 's, 'c, 'k) actor"
    assume k: "keeps (Some v) T w0 b a1" and o: "o' = None \<longrightarrow> a1 = b" "o' \<noteq> None \<longrightarrow> bt_get (v_views (a_state b)) v \<noteq> None"
    have "voter_min_active (a_state a1) \<le> v" if "o' \<noteq> None"
      using o(2) that n keeps_active [OF k l] by (auto simp: none_below_def)
    then show "outcome (branch_ok T w0) (traces_ok T w0) (case o' of None \<Rightarrow> Ok (None, a1)
      | Some notarization \<Rightarrow>
          let a2 = emit (ResolverCertified v s) a1;
              a3 = (if s then emit (Report (ReportCertification notarization)) a2 else a2)
          in Ok (Some (v, ResolvedNone), a3))"
      using k o(1) b by (cases o') (simp_all add: keeps_def Let_def)
  qed
  ultimately show ?thesis using True b
    by (auto simp: on_certified_def v_def [symmetric] b_def [symmetric] Let_def split: option.split)
qed (use assms in \<open>simp add: on_certified_def\<close>)

lemma branch_proposal:
  assumes "settled T w0 a"
  shows "outcome (branch_ok T w0) (traces_ok T w0) (on_proposal p a)"
proof -
  let ?v = "proposal_view p" and ?s = "snd (voter_set_proposal (proposal_view p) p (a_state a))"
  have "branch_ok T w0 (None, a\<lparr>a_state := ?s\<rparr>) \<and> branch_ok T w0 (Some (?v, ResolvedNone), a\<lparr>a_state := ?s\<rparr>)"
    if "voter_is_interesting (a_state a) ?v False = Ok True"
  proof -
    have s: "settled T w0 (a\<lparr>a_state := ?s\<rparr>)"
      by (rule settled_grows [OF assms grows_simple(4)]) (simp_all add: finalized_same interesting_active [OF that])
    have "keeps (Some 0) T w0 a (a\<lparr>a_state := ?s\<rparr>)" using s by (simp add: keeps_def settled_def finalized_same)
    from keeps_active [OF this settled_live [OF assms]] s show ?thesis
      using interesting_active [OF that] by (simp add: settled_live)
  qed
  then show ?thesis unfolding on_proposal_def Let_def
    by (intro outcome_bind [OF outcome_state, where P = "\<lambda>b. b \<longrightarrow> voter_is_interesting (a_state a) ?v False = Ok True"])
      (auto simp: case_prod_beta settled_traces assms)
qed

lemma branch_certificate:
  fixes a :: "('d, 's, 'c, 'k) actor"
  assumes "settled T w0 a"
  shows "outcome (branch_ok T w0) (traces_ok T w0) (on_certificate c res a)"
proof -
  let ?v = "certificate_view c"
  note l = settled_live [OF assms, of "Some ?v"]
  let ?I = "voter_is_interesting (a_state a) ?v True = Ok True"
  have k: "live {} (Some ?v) T w0 b \<and> (voter_min_active (a_state b) \<le> ?v \<or> bt_get (v_views (a_state b)) ?v = None)"
    if "keeps (Some ?v) T w0 a b" ?I for b
    using that(1) keeps_active [OF that(1) l] interesting_active [OF that(2)] by (simp add: keeps_def)
  have "outcome (branch_ok T w0) (traces_ok T w0) (case c of
          CNotarization n \<Rightarrow>
            and_then (handle_notarization n a) (\<lambda>a1.
              Ok (Some (?v, if res then ResolvedNotarization else ResolvedNone), a1))
        | CNullification n \<Rightarrow>
            and_then (handle_nullification n a) (\<lambda>(floor, a1).
              let a2 = (case floor of None \<Rightarrow> a1 | Some c \<Rightarrow> broadcast_certificate c a1)
              in Ok (Some (?v, if res then ResolvedNullification else ResolvedNone), a2))
        | CFinalization f \<Rightarrow>
            and_then (handle_finalization f a) (\<lambda>a1.
              Ok (Some (?v, if res then ResolvedFinalization else ResolvedNone), a1)))" if i: ?I
  proof (cases c)
    case (CNotarization n)
    have "outcome (branch_ok T w0) (traces_ok T w0) (and_then (handle_notarization n a) (\<lambda>a1.
              Ok (Some (?v, if res then ResolvedNotarization else ResolvedNone), a1)))"
      by (rule outcome_bind [OF live_handle_notarization [OF l]]) (use k [OF _ i] interesting_active [OF i] CNotarization in simp_all)
    then show ?thesis by (simp add: CNotarization)
  next
    case (CNullification n)
    have "outcome (branch_ok T w0) (traces_ok T w0) (and_then (handle_nullification n a) (\<lambda>(floor, a1).
              let a2 = (case floor of None \<Rightarrow> a1 | Some c \<Rightarrow> broadcast_certificate c a1)
              in Ok (Some (?v, if res then ResolvedNullification else ResolvedNone), a2)))"
      by (rule outcome_bind [OF live_handle_nullification [OF l]], use interesting_active [OF i] CNullification in simp)
        (use k [OF _ i] in \<open>auto simp: Let_def keeps_certificate split: option.split\<close>)
    then show ?thesis by (simp add: CNullification)
  next
    case (CFinalization f)
    have "outcome (branch_ok T w0) (traces_ok T w0) (and_then (handle_finalization f a) (\<lambda>a1.
              Ok (Some (?v, if res then ResolvedFinalization else ResolvedNone), a1)))"
    proof (rule outcome_bind [OF live_handle_finalization], goal_cases)
      case (3 b)
      then show ?case using interesting_active [OF i] live_min_active [of "{}" "Some ?v" T w0 b] live_min_active [OF l] CFinalization
        by (auto simp: min_active_def view_saturating_sub_def)
    qed (use assms interesting_active [OF i] CFinalization in \<open>simp_all add: settled_def\<close>)
    then show ?thesis by (simp add: CFinalization)
  qed
  then show ?thesis unfolding on_certificate_def Let_def
    by (intro outcome_bind [OF outcome_state, where P = "\<lambda>b. b \<longrightarrow> ?I"]) (auto simp: settled_traces assms)
qed

lemma branch_event:
  assumes "at_select T w0 a"
  shows "outcome (branch_ok T w0) (traces_ok T w0) (on_event ev a)"
proof -
  have s: "settled T w0 a" using assms by (simp add: at_select_def)
  have "v_view (a_state (handle_timeout a)) = v_view (a_state a)"
    using live_handle_timeout [OF settled_live [OF s, of None]] by simp
  then show ?thesis using branch_proposed [OF assms] branch_verified [OF assms] branch_certified [OF s]
      branch_proposal [OF s] branch_certificate [OF s] branch_timeout [OF s]
    by (cases ev) (simp_all add: Let_def)
qed


section \<open>The end of an iteration\<close>

lemma notify_none:
  assumes "bt_get (v_views (a_state a)) v = None"
  shows "notify v res a = Ok a"
proof -
  have "try_broadcast_notarize v a = a" "try_broadcast_finalize v a = a"
    using assms by (simp_all add: try_broadcast_notarize_def voter_construct_notarize_def try_broadcast_finalize_def voter_construct_finalize_def)
  moreover have "try_broadcast_notarization v res a = Ok a" "try_broadcast_nullification v res a = Ok a"
      "try_broadcast_finalization v res a = Ok a"
    using assms by (simp_all add: try_broadcast_notarization_def voter_broadcast_notarization_def try_broadcast_nullification_def
        voter_broadcast_nullification_def try_broadcast_finalization_def voter_broadcast_finalization_def)
  ultimately show ?thesis by (simp add: notify_def)
qed

lemma live_due_none:
  assumes "live {} (Some v) T w0 a" "bt_get (v_views (a_state a)) v = None"
  shows "live {} (Some 0) T w0 a"
proof -
  have "snd (snd (core_at (a_state a) v)) = (None, False)" using assms(2) by (simp add: core_at_def)
  then have "final_due (Some 0) (world_of w0 a) (a_state a)"
    using linkedD(9) [OF live_linked [OF assms(1)]] by (auto simp: final_due_def)
  then show ?thesis by (rule live_due [OF live_forget [OF assms(1)]])
qed

lemma branch_notify:
  assumes "branch_ok T w0 (Some (v, r), a)"
  shows "outcome (live {} (Some 0) T w0) (traces_ok T w0) (notify v res a)"
proof (cases "bt_get (v_views (a_state a)) v")
  case None
  then show ?thesis using assms live_due_none notify_none [OF None] by simp
next
  case (Some x)
  then have "outcome (keeps (Some 0) T w0 a) (traces_ok T w0) (notify v res a)" using assms by (simp add: live_notify)
  then show ?thesis by (rule outcome_weaken) (simp add: keeps_def)
qed

lemma linked_prune_state:
  assumes "linked {} (Some 0) T w s"
  shows "linked {} (Some 0) T w (snd (voter_prune s))"
proof -
  note l = linkedD [OF assms]
  let ?s = "snd (voter_prune s)"
  have t: "v_activity_timeout ?s = v_activity_timeout s" by (simp add: voter_prune_def case_prod_beta Let_def)
  show ?thesis
  proof (rule linkedI)
    show "backed x v ?s" if "voter_min_active ?s \<le> v" "x \<in> set (entries w v)" for v x
      using l(6) [of v x] that by (simp add: backed_def prune_same Voter_State.prune_views)
    show "recorded_at w ?s v" if "voter_min_active ?s \<le> v" "v \<notin> {}" for v
      using l(7) [of v] that by (simp add: recorded_at_def prune_same core_at_prune)
    show "finals ?s" using l(8) by (auto simp: finals_def core_at_prune prune_same)
    show "final_due (Some 0) w ?s" using l(9) by (auto simp: final_due_def prune_same)
    show "nulls ?s" using l(10) by (auto simp: nulls_def Voter_State.prune_views split: if_splits)
  qed (use l in \<open>simp_all add: prune_same t voter_inv_prune\<close>)
qed

lemma linked_prune_journal:
  assumes "linked {} (Some 0) T w s"
  shows "linked {} (Some 0) T (exec (PruneJournal (voter_min_active s)) w) s"
proof -
  note l = linkedD [OF assms]
  have m: "voter_min_active s = v_last_finalized s - T"
    using l(4) by (simp add: voter_min_active_def min_active_def view_saturating_sub_def)
  have f: "v_last_finalized s = 0 \<or> (\<exists>f. AFinalization f \<in> durable w (v_last_finalized s))"
    using l(9) by (auto simp: final_due_def)
  show ?thesis
  proof (rule linkedI)
    have "floor_ok T w (voter_min_active s)" unfolding floor_ok_def m using f by fastforce
    then show "world_ok T (exec (PruneJournal (voter_min_active s)) w)" by (rule world_ok_prune [OF l(1)])
    show "recorded_at (exec (PruneJournal (voter_min_active s)) w) s v" if "voter_min_active s \<le> v" "v \<notin> {}" for v
      by (rule recorded_mono [OF l(7) [OF that]]) (simp only: durable_prune that if_True order_refl)
    show "final_due (Some 0) (exec (PruneJournal (voter_min_active s)) w) s"
      using f m by (auto simp: final_due_def durable_prune)
    show "backed x v s" if "voter_min_active s \<le> v" "x \<in> set (entries (exec (PruneJournal (voter_min_active s)) w) v)" for v x
      using l(6) [of v x] that by (simp add: exec_entries)
  qed (use l in \<open>simp_all add: exec_others\<close>)
qed

lemma settled_prune_views:
  assumes "live {} (Some 0) T w0 a"
  shows "settled T w0 (prune_views a)"
proof -
  let ?s = "snd (voter_prune (a_state a))" and ?a = "a\<lparr>a_state := snd (voter_prune (a_state a))\<rparr>"
  have a: "live {} (Some 0) T w0 ?a" by (rule live_state [OF assms linked_prune_state [OF live_linked [OF assms]]])
  moreover have "live {} (Some 0) T w0 (emit (PruneJournal (voter_min_active ?s)) ?a)"
    using linked_prune_journal [OF live_linked [OF a]] by (intro live_emit [OF a]) simp_all
  moreover have "pool_ok ?a" by (simp add: pool_ok_def none_below_def Voter_State.prune_views prune_same)
  ultimately show ?thesis by (simp add: Voter_Actor.prune_views_def Let_def case_prod_beta settled_def)
qed

lemma settled_loop_bottom:
  assumes "settled T w0 a"
  shows "outcome (settled T w0) (traces_ok T w0) (loop_bottom start act a)"
proof -
  have "settled T w0 (emit e a\<lparr>a_state := voter_expire_round (v_view (a_state a)) (a_state a)\<rparr>)" if "neutral e" for e
    using settled_grows [OF settled_emit [OF that assms], of "{v_view (a_state a)}" "voter_expire_round (v_view (a_state a)) (a_state a)"]
      live_current [OF settled_live [OF assms]]
    by (simp add: grows_simple finalized_same)
  then show ?thesis using assms by (auto simp: loop_bottom_def Let_def settled_emit settled_traces split: option.split)
qed

lemma settled_clock: "settled T w0 a \<Longrightarrow> settled T w0 (a\<lparr>a_state := (a_state a)\<lparr>v_clock := now\<rparr>\<rparr>)"
  by (rule settled_grows [where V = "{}"])
    (auto simp: voter_grows_def has_current_def round_of_cong [of "_\<lparr>v_clock := now\<rparr>"])

lemma settled_loop_iteration:
  fixes a :: "('d, 's, 'c, 'k) actor"
  assumes "settled T w0 a"
  shows "outcome (settled T w0) (traces_ok T w0) (loop_iteration now ev act a)"
  unfolding loop_iteration_def
proof (rule outcome_bind [OF at_select_loop_top [OF settled_clock [OF assms]]])
  fix a1 :: "('d, 's, 'c, 'k) actor"
  assume "at_select T w0 a1"
  note e = branch_event [OF this, of ev]
  show "outcome (settled T w0) (traces_ok T w0) (let start = v_view (a_state a1) in
       and_then (on_event ev a1) (\<lambda>(target, a2).
         case target of
           None \<Rightarrow> Ok a2
         | Some (view, resolved) \<Rightarrow>
             and_then (notify view resolved a2) (\<lambda>a3. loop_bottom start act (prune_views a3))))"
    unfolding Let_def
  proof (rule outcome_bind [OF e], clarify)
    fix target and a2 :: "('d, 's, 'c, 'k) actor"
    assume b: "branch_ok T w0 (target, a2)"
    show "outcome (settled T w0) (traces_ok T w0) (case target of
           None \<Rightarrow> Ok a2
         | Some (view, resolved) \<Rightarrow>
             and_then (notify view resolved a2) (\<lambda>a3. loop_bottom (v_view (a_state a1)) act (prune_views a3)))"
    proof (cases target)
      case (Some vr)
      obtain v r where vr: "vr = (v, r)" by fastforce
      have "outcome (settled T w0) (traces_ok T w0)
          (and_then (notify v r a2) (\<lambda>a3. loop_bottom (v_view (a_state a1)) act (prune_views a3)))"
        by (rule outcome_bind [OF branch_notify]) (use b Some vr in \<open>simp_all add: settled_loop_bottom settled_prune_views\<close>)
      then show ?thesis by (simp add: Some vr)
    qed (use b in simp)
  qed
qed

end
