(* ===== verification/Voter_Replay.thy ===== *)
theory Voter_Replay
  imports Voter_Loop
begin

text \<open>
  The start of the voter actor: replaying the journal gives rounds that back exactly what the journal
  holds, so that the link between rounds and journal the loop relies on is there when it begins.
\<close>

section \<open>Where the contents of a round come from\<close>

text \<open>The artifacts of a view.\<close>

definition facts :: "view \<Rightarrow> ('d, 's, 'c) artifact set \<Rightarrow> ('d, 's, 'c) artifact set" where
  "facts v D = {x \<in> D. artifact_view x = v}"

lemma facts_mono: "D \<subseteq> D' \<Longrightarrow> facts v D \<subseteq> facts v D'"
  by (auto simp: facts_def)

lemma facts_insert: "facts v (insert x D) = (if artifact_view x = v then insert x (facts v D) else facts v D)"
  by (auto simp: facts_def)

text \<open>Every vote, proposal and certificate of a round is in a set of artifacts.\<close>

definition sourced :: "('d, 's, 'c) artifact set \<Rightarrow> ('d, 's, 'c, 'k) round \<Rightarrow> bool" where
  "sourced S r \<longleftrightarrow> (\<forall>p. slot_proposal (r_proposal r) = Some p \<longrightarrow> p \<in> proposals_of S)
     \<and> (r_broadcast_notarize r \<longrightarrow> (\<exists>n. ANotarize n \<in> S)) \<and> (r_broadcast_nullify r \<longrightarrow> (\<exists>n. ANullify n \<in> S))
     \<and> (r_broadcast_finalize r \<longrightarrow> (\<exists>f. AFinalize f \<in> S))
     \<and> (r_notarization r \<noteq> None \<longrightarrow> (\<exists>n. ANotarization n \<in> S)) \<and> (r_finalization r \<noteq> None \<longrightarrow> (\<exists>f. AFinalization f \<in> S))"

lemma sourced_mono: "sourced S r \<Longrightarrow> S \<subseteq> S' \<Longrightarrow> sourced S' r"
  unfolding sourced_def using proposals_of_mono [of S S'] by blast

lemma sourced_new [simp]: "sourced S (round_new sch rnd now)"
  by (simp add: sourced_def round_new_def slot_new_def)

lemma sourced_deadlines [simp]:
  "sourced S (round_set_deadlines x y r) = sourced S r" "sourced S (round_clear_deadlines r) = sourced S r"
  by (simp_all add: sourced_def round_set_deadlines_def round_clear_deadlines_def)

lemma sourced_fields [simp]:
  "sourced S (r\<lparr>r_leader := l\<rparr>) = sourced S r" "sourced S (r\<lparr>r_certified := c, r_certify_handle := h\<rparr>) = sourced S r"
  "sourced S (r\<lparr>r_broadcast_notarization := b\<rparr>) = sourced S r" "sourced S (r\<lparr>r_broadcast_nullification := b\<rparr>) = sourced S r"
  "sourced S (r\<lparr>r_broadcast_finalization := b\<rparr>) = sourced S r" "sourced S (r\<lparr>r_nullification := m\<rparr>) = sourced S r"
  by (simp_all add: sourced_def)

lemma sourced_votes:
  "sourced S r \<Longrightarrow> ANotarize n \<in> S \<Longrightarrow> sourced S (r\<lparr>r_proposal := slot_built (nz_proposal n) (r_proposal r), r_broadcast_notarize := True\<rparr>)"
  "sourced S r \<Longrightarrow> ANullify m \<in> S \<Longrightarrow> sourced S (r\<lparr>r_broadcast_nullify := True\<rparr>)"
  "sourced S r \<Longrightarrow> AFinalize f \<in> S \<Longrightarrow> sourced S (r\<lparr>r_broadcast_finalize := True\<rparr>)"
  using proposals_of_notarize [of n S] by (auto simp: sourced_def slot_built_def split: option.split)

lemma sourced_set_leader: "round_set_leader l r = Ok r' \<Longrightarrow> sourced S r' = sourced S r"
  by (auto simp: round_set_leader_def split: if_splits)

lemma sourced_certified: "round_certified b r = Ok r' \<Longrightarrow> sourced S r' = sourced S r"
  by (auto simp: round_certified_def split: if_splits)

lemma proposals_of_mem:
  "ANotarize n \<in> S \<Longrightarrow> nz_proposal n \<in> proposals_of S" "ANotarization m \<in> S \<Longrightarrow> nzn_proposal m \<in> proposals_of S"
  "AFinalization f \<in> S \<Longrightarrow> fzn_proposal f \<in> proposals_of S"
  by (auto simp: proposals_of_def)

lemma sourced_recovered:
  assumes "sourced S r" "p \<in> proposals_of S"
  shows "sourced S (snd (round_add_recovered_proposal p r))"
proof -
  have "slot_proposal (snd (slot_update p True (r_proposal r))) \<in> {slot_proposal (r_proposal r), Some p}"
    by (auto simp: slot_update_def split: option.split)
  then show ?thesis using assms
    by (auto simp: sourced_def round_add_recovered_proposal_def Let_def case_prod_beta split: change.split)
qed

lemma sourced_certificates:
  "sourced S r \<Longrightarrow> ANotarization n \<in> S \<Longrightarrow> sourced S (snd (round_add_notarization n r))"
  "sourced S r \<Longrightarrow> sourced S (snd (round_add_nullification m r))"
  "sourced S r \<Longrightarrow> AFinalization f \<in> S \<Longrightarrow> sourced S (snd (round_add_finalization f r))"
proof -
  assume r: "sourced S r"
  have q: "sourced S (snd (round_add_recovered_proposal p (round_clear_deadlines r)))" if "p \<in> proposals_of S" for p
    by (rule sourced_recovered) (simp_all add: r that)
  have n: "sourced S (x\<lparr>r_notarization := Some n\<rparr>)" if "sourced S x" "ANotarization n \<in> S" for x :: "('a, 'b, 'c, 'd) round"
    using that by (auto simp: sourced_def)
  have f: "sourced S (x\<lparr>r_finalization := Some f\<rparr>)" if "sourced S x" "AFinalization f \<in> S" for x :: "('a, 'b, 'c, 'd) round"
    using that by (auto simp: sourced_def)
  show "sourced S (snd (round_add_notarization n r))" if "ANotarization n \<in> S"
    using r n [OF q [OF proposals_of_mem(2) [OF that]] that] by (simp add: round_add_notarization_def Let_def case_prod_beta)
  show "sourced S (snd (round_add_finalization f r))" if "AFinalization f \<in> S"
    using r f [OF q [OF proposals_of_mem(3) [OF that]] that] by (simp add: round_add_finalization_def Let_def case_prod_beta)
  show "sourced S (snd (round_add_nullification m r))"
    using r by (simp add: round_add_nullification_def)
qed

lemma sourced_replay: "round_replay x r = Ok r' \<Longrightarrow> sourced S r \<Longrightarrow> x \<in> S \<Longrightarrow> sourced S r'"
  by (cases x) (auto simp: sourced_certified sourced_votes split: if_splits)

text \<open>In all rounds of the voter.\<close>

definition all_sourced :: "('d, 's, 'c) artifact set \<Rightarrow> ('d, 's, 'c, 'k) voter \<Rightarrow> bool" where
  "all_sourced D s \<longleftrightarrow> (\<forall>v r. bt_get (v_views s) v = Some r \<longrightarrow> sourced (facts v D) r)"

lemma all_sourced_mono: "all_sourced D s \<Longrightarrow> D \<subseteq> D' \<Longrightarrow> all_sourced D' s"
  unfolding all_sourced_def using sourced_mono facts_mono by blast

lemma all_sourced_put: "all_sourced D s \<Longrightarrow> sourced (facts w D) r \<Longrightarrow> all_sourced D (put_round w r s)"
  by (simp add: all_sourced_def)

lemma all_sourced_create: "all_sourced D s \<Longrightarrow> all_sourced D (snd (create_round w s))"
  by (simp add: create_round_def Let_def all_sourced_put split: option.split)

lemma sourced_create: "all_sourced D s \<Longrightarrow> sourced (facts w D) (fst (create_round w s))"
  by (auto simp: create_round_def Let_def all_sourced_def split: option.split)

lemmas all_sourced_with = all_sourced_put [OF all_sourced_create]

lemma all_sourced_fields [simp]:
  "all_sourced D (s\<lparr>v_view := x\<rparr>) = all_sourced D s" "all_sourced D (s\<lparr>v_last_finalized := x\<rparr>) = all_sourced D s"
  by (simp_all add: all_sourced_def)

lemma all_sourced_enter_view: "all_sourced D s \<Longrightarrow> all_sourced D (snd (enter_view w s))"
  by (simp add: enter_view_def Let_def case_prod_beta all_sourced_with sourced_create)

lemma all_sourced_expire: "all_sourced D s \<Longrightarrow> all_sourced D (voter_expire_round w s)"
  by (simp add: voter_expire_round_def Let_def case_prod_beta all_sourced_with sourced_create)

lemma all_sourced_set_leader: "set_leader w c s = Ok s' \<Longrightarrow> all_sourced D s \<Longrightarrow> all_sourced D s'"
  by (auto simp: set_leader_def Let_def case_prod_beta sourced_set_leader all_sourced_create all_sourced_with sourced_create
      split: if_splits elim!: and_then_OkE)

lemma all_sourced_replay: "voter_replay x s = Ok s' \<Longrightarrow> all_sourced D s \<Longrightarrow> x \<in> D \<Longrightarrow> all_sourced D s'"
  by (auto simp: voter_replay_def Let_def case_prod_beta facts_def elim!: and_then_OkE
      intro!: all_sourced_with elim!: sourced_replay dest: sourced_create [of D s "artifact_view x"])

lemma all_sourced_certified:
  assumes "voter_certified w b s = Ok (n, s')" "all_sourced D s"
  shows "all_sourced D s'"
proof (cases "bt_get (v_views s) w")
  case (Some r)
  then have "sourced (facts w D) r" using assms(2) by (simp add: all_sourced_def)
  then show ?thesis using assms Some
    by (auto simp: voter_certified_def Let_def sourced_certified split: option.splits if_splits
        elim!: and_then_OkE intro!: all_sourced_enter_view all_sourced_expire all_sourced_put)
qed (use assms in \<open>simp add: voter_certified_def\<close>)

lemma all_sourced_add:
  "voter_add_notarization n s = Ok (b, s') \<Longrightarrow> all_sourced D s \<Longrightarrow> ANotarization n \<in> D \<Longrightarrow> all_sourced D s'"
  "voter_add_nullification m s = Ok (c, s') \<Longrightarrow> all_sourced D s \<Longrightarrow> all_sourced D s'"
  "voter_add_finalization f s = Ok (b, s') \<Longrightarrow> all_sourced D s \<Longrightarrow> AFinalization f \<in> D \<Longrightarrow> all_sourced D s'"
  by (auto simp: voter_add_notarization_def voter_add_nullification_def voter_add_finalization_def Let_def case_prod_beta
      facts_def elim!: and_then_OkE intro!: all_sourced_with sourced_certificates sourced_create
      elim!: all_sourced_set_leader intro!: all_sourced_enter_view)

section \<open>One artifact\<close>

text \<open>What holds of the state when the artifacts \<open>D\<close> have been replayed.\<close>

definition final_seen :: "('d, 's, 'c) artifact set \<Rightarrow> ('d, 's, 'c, 'k) voter \<Rightarrow> bool" where
  "final_seen D s \<longleftrightarrow> (v_last_finalized s = 0 \<or> (\<exists>f. AFinalization f \<in> facts (v_last_finalized s) D))
     \<and> (\<forall>f. AFinalization f \<in> D \<longrightarrow> proposal_view (fzn_proposal f) \<le> v_last_finalized s)"

definition mirror :: "('d, 's, 'k) scheme \<Rightarrow> delta \<Rightarrow> ('d, 's, 'c) artifact set \<Rightarrow> ('d, 's, 'c, 'k) voter \<Rightarrow> bool" where
  "mirror sch T D s \<longleftrightarrow> voter_inv s \<and> v_scheme s = sch \<and> v_activity_timeout s = T \<and> finals s
     \<and> (\<forall>x \<in> D. backed x (artifact_view x) s) \<and> all_sourced D s \<and> final_seen D s \<and> nulls s"

lemma mirrorD:
  assumes "mirror sch T D s"
  shows "voter_inv s" "v_scheme s = sch" "v_activity_timeout s = T" "finals s" "x \<in> D \<Longrightarrow> backed x (artifact_view x) s"
    "all_sourced D s" "final_seen D s" "nulls s"
  using assms by (simp_all add: mirror_def)

lemma mirror_step:
  assumes m: "mirror sch T D s" and g: "voter_grows V s s'" "v_last_finalized s' < v_view s'"
    and x: "all_sourced (insert x D) s'" "backed x (artifact_view x) s'" "finals s'" "final_seen (insert x D) s'"
  shows "mirror sch T (insert x D) s'"
proof -
  note m = mirrorD [OF m]
  have "backed y (artifact_view y) s'" if "y \<in> D" for y by (rule backed_grows [OF m(5) [OF that] m(1) g(1)])
  moreover have "v_scheme s' = sch" "v_activity_timeout s' = T" using m(2,3) g(1) by (simp_all add: voter_grows_def)
  ultimately show ?thesis using x voter_inv_grows [OF m(1) g] nulls_grows [OF m(8) g(1)] by (auto simp: mirror_def)
qed

lemma final_seen_same:
  "final_seen D s \<Longrightarrow> v_last_finalized s' = v_last_finalized s \<Longrightarrow> (\<And>f. x \<noteq> AFinalization f) \<Longrightarrow> final_seen (insert x D) s'"
  by (auto simp: final_seen_def facts_insert)

lemma finals_same:
  "finals s \<Longrightarrow> v_last_finalized s' = v_last_finalized s \<Longrightarrow> (\<And>v. snd (snd (core_at s' v)) = snd (snd (core_at s v))) \<Longrightarrow> finals s'"
  by (simp add: finals_def)

text \<open>The order of the journal and the rounds so far allow the next artifact.\<close>

lemma mirror_replay_ok:
  assumes "mirror sch T D s" "ordered x (facts (artifact_view x) D)" "\<And>rnd b. x \<noteq> ACertification rnd b"
  shows "replay_ok x (fst (create_round (artifact_view x) s))"
proof -
  let ?r = "fst (create_round (artifact_view x) s)"
  note src = sourced_create [OF mirrorD(6) [OF assms(1)], of "artifact_view x"]
  show ?thesis
  proof (cases x)
    case (AFinalize f)
    obtain n where n: "ANotarize n \<in> facts (artifact_view x) D" using assms(2) AFinalize by auto
    have "backed (ANotarize n) (artifact_view x) s" using mirrorD(5) [OF assms(1), of "ANotarize n"] n by (simp add: facts_def)
    then have "r_broadcast_notarize ?r" by (auto simp: backed_def create_round_old)
    then show ?thesis using src assms(2) AFinalize by (auto simp: sourced_def)
  qed (use src assms(2,3) in \<open>auto simp: sourced_def\<close>)
qed

lemma replay_core:
  assumes "voter_replay x s = Ok s'" "\<And>f. x \<noteq> AFinalization f"
  shows "snd (snd (core_at s' v)) = snd (snd (core_at s v))"
proof -
  obtain r' where r: "round_replay x (fst (create_round (artifact_view x) s)) = Ok r'"
    "s' = put_round (artifact_view x) r' (snd (create_round (artifact_view x) s))" using voter_replay_eq [OF assms(1)] .
  have "snd (snd (core r')) = snd (snd (core (fst (create_round (artifact_view x) s))))"
    using r(1) assms(2) by (cases x) (auto simp: core_def round_certified_def split: if_splits)
  then show ?thesis unfolding r(2) core_at_upd core_at_create by simp
qed

lemma replay_backed:
  assumes "voter_replay x s = Ok s'" "mirror sch T D s" "ordered x (facts (artifact_view x) D)"
    "\<And>n. x \<noteq> ANotarization n" "\<And>f. x \<noteq> AFinalization f"
  shows "backed x (artifact_view x) s'"
proof -
  let ?r = "fst (create_round (artifact_view x) s)"
  obtain r' where r: "round_replay x ?r = Ok r'"
    "s' = put_round (artifact_view x) r' (snd (create_round (artifact_view x) s))" using voter_replay_eq [OF assms(1)] .
  note src = sourced_create [OF mirrorD(6) [OF assms(2)], of "artifact_view x"]
  have "backs x r'"
  proof (cases x)
    case (ANotarize n)
    have "p = nz_proposal n" if "slot_proposal (r_proposal ?r) = Some p" for p
      using src that assms(3) ANotarize by (auto simp: sourced_def)
    then have "pinned (slot_built (nz_proposal n) (r_proposal ?r)) (nz_proposal n)"
      by (auto simp: slot_built_def pinned_def split: option.split)
    then show ?thesis using r(1) ANotarize by (auto split: if_splits)
  next
    case (AFinalize f)
    obtain n where n: "ANotarize n \<in> facts (artifact_view x) D" "nz_proposal n = fz_proposal f" using assms(3) AFinalize by auto
    have "backed (ANotarize n) (artifact_view x) s" using mirrorD(5) [OF assms(2), of "ANotarize n"] n by (simp add: facts_def)
    then show ?thesis using n(2) r(1) AFinalize by (auto simp: backed_def create_round_old split: if_splits)
  qed (use r(1) assms(4,5) in \<open>auto split: if_splits\<close>)
  then show ?thesis by (simp add: backed_def r(2))
qed

text \<open>The state after each kind of artifact.\<close>

lemma mirror_vote:
  assumes m: "mirror sch T D s" and o: "ordered x (facts (artifact_view x) D)" and r: "voter_replay x s = Ok s'"
    and x: "\<And>n. x \<noteq> ANotarization n" "\<And>f. x \<noteq> AFinalization f" "\<And>rnd b. x \<noteq> ACertification rnd b"
  shows "mirror sch T (insert x D) s'"
proof (rule mirror_step [OF m grows_replay [OF r mirror_replay_ok [OF m o x(3)]]])
  note s = voter_replay_same [OF r] and m' = mirrorD [OF m]
  show "v_last_finalized s' < v_view s'" using s m'(1) by (simp add: voter_inv_def)
  show "all_sourced (insert x D) s'" by (rule all_sourced_replay [OF r all_sourced_mono [OF m'(6)]]) auto
  show "backed x (artifact_view x) s'" by (rule replay_backed [OF r m o x(1,2)])
  show "finals s'" using s by (intro finals_same [OF m'(4)] replay_core [OF r x(2)]) simp
  show "final_seen (insert x D) s'" using s by (intro final_seen_same [OF m'(7)] x(2)) simp
qed

lemma voter_inv_less: "voter_inv s \<Longrightarrow> v_last_finalized s < v_view s"
  by (simp add: voter_inv_def)

lemma mirror_notarization:
  assumes m: "mirror sch T D s" and o: "ordered (ANotarization n) (facts (proposal_view (nzn_proposal n)) D)"
    and r: "voter_replay (ANotarization n) s = Ok s1" and a: "voter_add_notarization n s1 = Ok ((added, e), s2)"
  shows "mirror sch T (insert (ANotarization n) D) s2"
proof -
  let ?x = "ANotarization n :: ('a, 'b, 'd) artifact" and ?v = "proposal_view (nzn_proposal n)"
  note m' = mirrorD [OF m] and s1 = voter_replay_same [OF r]
  have g1: "voter_grows {?v} s s1" using grows_replay [OF r] by simp
  have g: "voter_grows ({?v} \<union> {?v, ?v + 1}) s s2" by (rule voter_grows_trans [OF g1 grows_add_notarization [OF a]])
  have s2: "v_last_finalized s2 = v_last_finalized s" using finalized_add(1) [OF a] s1 by simp
  have src: "all_sourced D' s1" if "insert ?x D \<subseteq> D'" for D'
    using all_sourced_replay [OF r all_sourced_mono [OF m'(6)], of D'] that by auto
  have "all_sourced D s1" using r by (auto elim!: voter_replay_eq intro!: all_sourced_with sourced_create m'(6))
  then have "r_notarization (fst (create_round ?v s')) = None" if "set_leader w c s1 = Ok s'" for w c s'
    using sourced_create [OF all_sourced_set_leader [OF that], of D ?v] o by (auto simp: sourced_def)
  then have added using a by (auto simp: voter_add_notarization_def round_add_notarization_def Let_def case_prod_beta elim!: and_then_OkE)
  show ?thesis
  proof (rule mirror_step [OF m g])
    show "v_last_finalized s2 < v_view s2" using s2 g voter_inv_less [OF m'(1)] by (simp add: voter_grows_def)
    show "all_sourced (insert ?x D) s2" using all_sourced_add(1) [OF a src [of "insert ?x D"]] by simp
    show "backed ?x (artifact_view ?x) s2" using add_notarization_backed [of n s1 e s2] a \<open>added\<close> by simp
    show "finals s2" using core_at_add_notarization [OF a] replay_core [OF r] s2 by (intro finals_same [OF m'(4)]) simp_all
    show "final_seen (insert ?x D) s2" by (rule final_seen_same [OF m'(7) s2]) simp
  qed
qed

lemma mirror_nullification:
  assumes m: "mirror sch T D s" and r: "voter_replay (ANullification n) s = Ok s1" and a: "voter_add_nullification n s1 = Ok (added, s2)"
  shows "mirror sch T (insert (ANullification n) D) s2"
proof -
  note m1 = mirror_vote [OF m _ r] and g = conjunct1 [OF grows_add_nullification [OF a]] and f = finalized_add(2) [OF a]
  then have m1: "mirror sch T (insert (ANullification n) D) s1" by simp
  note m' = mirrorD [OF m1]
  have "mirror sch T (insert (ANullification n) (insert (ANullification n) D)) s2"
  proof (rule mirror_step [OF m1 g])
    show "v_last_finalized s2 < v_view s2" using f g voter_inv_less [OF m'(1)] by (simp add: voter_grows_def)
    show "finals s2" using core_at_add_nullification [OF a] f by (intro finals_same [OF m'(4)]) simp_all
    show "final_seen (insert (ANullification n) (insert (ANullification n) D)) s2" by (rule final_seen_same [OF m'(7) f]) simp
    show "backed (ANullification n) (artifact_view (ANullification n :: ('a, 'b, 'd) artifact)) s2"
      using add_nullification_backed [OF a] by simp
    show "all_sourced (insert (ANullification n) (insert (ANullification n) D)) s2" using all_sourced_add(2) [OF a m'(6)] by simp
  qed
  then show ?thesis by simp
qed

lemma certified_notarized: "voter_certified v b s = Ok (res, s') \<Longrightarrow> bt_get (v_views s) v = Some r \<Longrightarrow> r_notarization r \<noteq> None"
  by (auto simp: voter_certified_def round_certified_def Let_def split: option.splits if_splits elim!: and_then_OkE)

lemma mirror_certification:
  assumes m: "mirror sch T D s" and r: "voter_replay (ACertification rnd b) s = Ok s1"
    and a: "voter_certified (rnd_view rnd) b s1 = Ok (res, s2)"
  shows "mirror sch T (insert (ACertification rnd b) D) s2"
proof -
  let ?x = "ACertification rnd b :: ('a, 'b, 'd) artifact" and ?v = "rnd_view rnd"
  note m' = mirrorD [OF m] and s1 = voter_replay_same [OF r] and c = grows_certified [OF a]
  obtain r' where r': "round_certified b (fst (create_round ?v s)) = Ok r'" "s1 = put_round ?v r' (snd (create_round ?v s))"
    using voter_replay_eq [OF r] by auto
  have "r_notarization r' \<noteq> None" by (rule certified_notarized [OF a]) (simp add: r'(2))
  then have g1: "voter_grows {?v} s s1"
    using grows_replay [OF r] r'(1) by (auto simp: round_certified_def split: if_splits)
  have g: "voter_grows ({?v} \<union> {?v, ?v + 1}) s s2" using voter_grows_trans [OF g1] c by blast
  have s2: "v_last_finalized s2 = v_last_finalized s" using c s1 by simp
  have s: "all_sourced (insert ?x D) s1" by (rule all_sourced_replay [OF r all_sourced_mono [OF m'(6)]]) auto
  have "backed ?x ?v s1" using replay_backed [OF r m] by simp
  moreover have "voter_inv s1" using voter_inv_grows [OF m'(1) g1] s1 voter_inv_less [OF m'(1)] by simp
  ultimately have "backed ?x ?v s2" using backed_grows c by blast
  then show ?thesis using s2 g voter_inv_less [OF m'(1)] all_sourced_certified [OF a s] core_at_certified [OF a] replay_core [OF r]
    by (intro mirror_step [OF m g] finals_same [OF m'(4)] final_seen_same [OF m'(7)]) (simp_all add: voter_grows_def)
qed

lemma mirror_finalization:
  assumes m: "mirror sch T D s" and o: "ordered (AFinalization f) (facts (proposal_view (fzn_proposal f)) D)"
    and r: "voter_replay (AFinalization f) s = Ok s1" and a: "voter_add_finalization f s1 = Ok ((added, e), s2)"
  shows "mirror sch T (insert (AFinalization f) D) s2"
proof -
  let ?x = "AFinalization f :: ('a, 'b, 'd) artifact" and ?v = "proposal_view (fzn_proposal f)"
  note m' = mirrorD [OF m] and s1 = voter_replay_same [OF r] and c = core_at_add_finalization [OF a]
  have g1: "voter_grows {?v} s s1" using grows_replay [OF r] by simp
  have ga: "voter_grows {?v, ?v + 1} s1 s2" "?v + 1 \<le> v_view s2" "v_last_finalized s2 = max (v_last_finalized s) ?v"
    using grows_add_finalization [OF a] s1 by simp_all
  have g: "voter_grows ({?v} \<union> {?v, ?v + 1}) s s2" by (rule voter_grows_trans [OF g1 ga(1)])
  have s: "all_sourced (insert ?x D) s1" by (rule all_sourced_replay [OF r all_sourced_mono [OF m'(6)]]) auto
  obtain r' where r': "r' = (fst (create_round ?v s))\<lparr>r_broadcast_finalization := True\<rparr>" "s1 = put_round ?v r' (snd (create_round ?v s))"
    using voter_replay_eq [OF r] by auto
  have none: "r_finalization (fst (create_round ?v s)) = None"
    using sourced_create [OF m'(6), of ?v] o by (auto simp: sourced_def)
  have c1: "core_at s1 = (core_at s)(?v := core r')" using r'(2) by (simp add: core_at_upd)
  have added using c none by (simp add: c1 r'(1) core_def)
  have c2: "snd (snd (core_at s2 w)) = (if w = ?v then (Some f, True) else snd (snd (core_at s w)))" for w
    using conjunct1 [OF c] none by (simp add: c1 r'(1) core_def)
  show ?thesis
  proof (rule mirror_step [OF m g])
    show "v_last_finalized s2 < v_view s2" using ga g voter_inv_less [OF m'(1)] by (simp add: voter_grows_def)
    show "finals s2" using m'(4) ga(3) by (force simp: finals_def c2)
    show "final_seen (insert ?x D) s2" using m'(7) ga(3) by (auto simp: final_seen_def facts_insert max_def)
    show "backed ?x (artifact_view ?x) s2" using add_finalization_backed [of f s1 e s2] a \<open>added\<close> by simp
    show "all_sourced (insert ?x D) s2" using all_sourced_add(3) [OF a s] by simp
  qed
qed

section \<open>The whole journal\<close>

text \<open>While the journal is off, nothing the actor does touches the journal or the votes.\<close>

definition quiet :: "('d, 's, 'c, 'k) actor \<Rightarrow> bool" where
  "quiet a \<longleftrightarrow> \<not> a_journal a \<and> (\<forall>e \<in> set (a_out a). neutral e)"

lemma quiet_simps [simp]:
  "quiet (a\<lparr>a_state := s\<rparr>) = quiet a" "quiet (a\<lparr>a_candidates := c\<rparr>) = quiet a"
  "neutral e \<Longrightarrow> quiet (emit e a) = quiet a" "quiet a \<Longrightarrow> append_journal v x a = a" "quiet a \<Longrightarrow> sync_journal v a = a"
  by (simp_all add: quiet_def emit_def append_journal_def sync_journal_def)

lemma quiet_execs: "\<forall>e \<in> set es. neutral e \<Longrightarrow> execs es w = w"
  by (induction es) (simp_all add: execs_def)

lemma quiet_world: "quiet a \<Longrightarrow> world_of w a = w"
  by (simp add: quiet_def world_of_def quiet_execs)

lemma quiet_traces:
  assumes "quiet a" "world_ok T w"
  shows "traces_ok T w a"
  unfolding traces_ok_def
proof (intro conjI allI impI)
  have n: "\<forall>e \<in> set es. neutral e" if "prefix es (a_out a)" for es
    using assms(1) set_mono_prefix [OF that] by (auto simp: quiet_def)
  show "world_ok T (execs es w)" if "prefix es (a_out a)" for es using assms(2) quiet_execs [OF n [OF that]] by simp
  show "allowed e (execs es w)" if "prefix (es @ [e]) (a_out a)" for es e using n [OF that] by simp
qed

lemma quiet_equivocator [simp]: "quiet (block_equivocator e a) = quiet a"
  by (simp add: block_equivocator_def split: option.split)

definition replayed :: "('d, 's, 'k) scheme \<Rightarrow> delta \<Rightarrow> ('d, 's, 'c) artifact set \<Rightarrow> ('d, 's, 'c, 'k) actor \<Rightarrow> bool" where
  "replayed sch T D a \<longleftrightarrow> quiet a \<and> mirror sch T D (a_state a) \<and> a_pool a = []"

lemma replay_handle_certificates:
  assumes "quiet a" "a_pool a = []"
  shows "(\<And>r s'. voter_add_notarization n (a_state a) = Ok (r, s') \<Longrightarrow> mirror sch T D s') \<Longrightarrow>
      outcome (replayed sch T D) quiet (handle_notarization n a)"
    "(\<And>r s'. voter_add_nullification m (a_state a) = Ok (r, s') \<Longrightarrow> mirror sch T D s') \<Longrightarrow>
      outcome (\<lambda>(_, a'). replayed sch T D a') quiet (handle_nullification m a)"
    "(\<And>r s'. voter_add_finalization f (a_state a) = Ok (r, s') \<Longrightarrow> mirror sch T D s') \<Longrightarrow>
      outcome (replayed sch T D) quiet (handle_finalization f a)"
    "(\<And>r s'. voter_certified v b (a_state a) = Ok (r, s') \<Longrightarrow> mirror sch T D s') \<Longrightarrow>
      outcome (\<lambda>(_, a'). replayed sch T D a') quiet (handle_certification v b a)"
proof -
  show "outcome (replayed sch T D) quiet (handle_notarization n a)"
    if "\<And>r s'. voter_add_notarization n (a_state a) = Ok (r, s') \<Longrightarrow> mirror sch T D s'"
    using assms that by (cases "voter_add_notarization n (a_state a)") (auto simp: handle_notarization_def Let_def replayed_def)
  show "outcome (\<lambda>(_, a'). replayed sch T D a') quiet (handle_nullification m a)"
    if "\<And>r s'. voter_add_nullification m (a_state a) = Ok (r, s') \<Longrightarrow> mirror sch T D s'"
    using assms that by (cases "voter_add_nullification m (a_state a)") (auto simp: handle_nullification_def Let_def replayed_def)
  show "outcome (replayed sch T D) quiet (handle_finalization f a)"
    if "\<And>r s'. voter_add_finalization f (a_state a) = Ok (r, s') \<Longrightarrow> mirror sch T D s'"
    using assms that by (cases "voter_add_finalization f (a_state a)") (auto simp: handle_finalization_def Let_def replayed_def)
  show "outcome (\<lambda>(_, a'). replayed sch T D a') quiet (handle_certification v b a)"
    if "\<And>r s'. voter_certified v b (a_state a) = Ok (r, s') \<Longrightarrow> mirror sch T D s'"
    using assms that by (cases "voter_certified v b (a_state a)") (auto simp: handle_certification_def Let_def replayed_def split: option.split)
qed

lemma replayed_emit: "neutral e \<Longrightarrow> replayed sch T D (emit e a) = replayed sch T D a"
  by (simp add: replayed_def)

lemma replayed_artifact:
  fixes a :: "('d, 's, 'c, 'k) actor"
  assumes a: "replayed sch T D a" and o: "ordered x (facts (artifact_view x) D)"
  shows "outcome (replayed sch T (insert x D)) quiet (replay_artifact x a)"
  unfolding replay_artifact_def
proof (rule outcome_bind [OF outcome_state, where P = "\<lambda>s. voter_replay x (a_state a) = Ok s"])
  have q: "quiet a" "mirror sch T D (a_state a)" "a_pool a = []" using a by (simp_all add: replayed_def)
  show "quiet a" by (rule q(1))
  fix s assume r: "voter_replay x (a_state a) = Ok s"
  note v = mirror_vote [OF q(2) o r]
  have q': "quiet (a\<lparr>a_state := s\<rparr>)" "a_pool (a\<lparr>a_state := s\<rparr>) = []" using q by simp_all
  note h = replay_handle_certificates [OF q', where sch = sch and T = T and D = "insert x D"]
  show "outcome (replayed sch T (insert x D)) quiet (replay_handle x (a\<lparr>a_state := s\<rparr>))"
  proof (cases x)
    case (ANotarization n)
    have "outcome (replayed sch T (insert x D)) quiet (handle_notarization n (a\<lparr>a_state := s\<rparr>))"
      using mirror_notarization [OF q(2), of n s] o r ANotarization by (intro h(1)) auto
    then show ?thesis by (auto simp: ANotarization replayed_emit intro: outcome_bind)
  next
    case (AFinalization f)
    have "outcome (replayed sch T (insert x D)) quiet (handle_finalization f (a\<lparr>a_state := s\<rparr>))"
      using mirror_finalization [OF q(2), of f s] o r AFinalization by (intro h(3)) auto
    then show ?thesis by (auto simp: AFinalization replayed_emit intro: outcome_bind)
  next
    case (ANullification n)
    have "outcome (\<lambda>(_, a'). replayed sch T (insert x D) a') quiet (handle_nullification n (a\<lparr>a_state := s\<rparr>))"
      using mirror_nullification [OF q(2), of n s] r ANullification by (intro h(2)) auto
    then show ?thesis by (auto simp: ANullification replayed_emit elim!: outcome_bind)
  next
    case (ACertification rnd b)
    have "outcome (\<lambda>(_, a'). replayed sch T (insert x D) a') quiet (handle_certification (rnd_view rnd) b (a\<lparr>a_state := s\<rparr>))"
      using mirror_certification [OF q(2), of rnd b s] r ACertification by (intro h(4)) auto
    then show ?thesis by (auto simp: ACertification replayed_emit Let_def split: option.split elim!: outcome_bind)
  qed (use q v in \<open>simp_all add: replayed_def handle_notarize_def handle_nullify_def handle_finalize_def\<close>)
qed

fun stream_ok :: "('d, 's, 'c) artifact set \<Rightarrow> ('d, 's, 'c) artifact list \<Rightarrow> bool" where
  "stream_ok D [] \<longleftrightarrow> True"
| "stream_ok D (x # xs) \<longleftrightarrow> ordered x (facts (artifact_view x) D) \<and> stream_ok (insert x D) xs"

lemma replayed_all:
  "replayed sch T D a \<Longrightarrow> stream_ok D xs \<Longrightarrow> outcome (replayed sch T (D \<union> set xs)) quiet (replay_all xs a)"
proof (induction xs arbitrary: a D)
  case (Cons x xs)
  have "outcome (replayed sch T (insert x D \<union> set xs)) quiet (replay_all (x # xs) a)"
    unfolding replay_all.simps
    by (rule outcome_bind [OF replayed_artifact [OF Cons.prems(1)] Cons.IH]) (use Cons.prems(2) in simp_all)
  then show ?case by simp
qed simp

text \<open>The sections of the journal, one after the other, are in such an order.\<close>

lemma stream_ok_section:
  "section_ok v (facts v D) es \<Longrightarrow> stream_ok (D \<union> set es) xs \<Longrightarrow> stream_ok D (es @ xs)"
  by (induction es arbitrary: D) (simp_all add: facts_insert)

lemma stream_ok_sections:
  assumes "distinct (map fst ss)" "\<And>v es n. (v, es, n) \<in> set ss \<Longrightarrow> section_ok v {} es" "\<And>v. v \<in> fst ` set ss \<Longrightarrow> facts v D = {}"
  shows "stream_ok D (concat (map (fst \<circ> snd) ss))"
  using assms
proof (induction ss arbitrary: D)
  case (Cons s ss)
  obtain v es n where s: "s = (v, es, n)" by (metis prod.collapse)
  have v: "section_ok v {} es" by (rule Cons.prems(2) [of v es n]) (simp add: s)
  have "stream_ok (D \<union> set es) (concat (map (fst \<circ> snd) ss))"
  proof (rule Cons.IH)
    show "facts u (D \<union> set es) = {}" if "u \<in> fst ` set ss" for u
    proof -
      have "u \<noteq> v" using that Cons.prems(1) s by force
      then show ?thesis using Cons.prems(3) [of u] that section_ok_view [OF v] by (auto simp: facts_def)
    qed
  qed (use Cons.prems in auto)
  from stream_ok_section [OF _ this, of v] show ?case using Cons.prems(3) [of v] v s by (simp add: comp_def)
qed simp

lemma sections_entries: "bt_inv (w_sections w) \<Longrightarrow> (v, es, n) \<in> set (w_sections w) \<Longrightarrow> entries w v = es"
  by (simp add: entries_def bt_get_def bt_inv_def strict_sorted_iff)

lemma stream_set: "bt_inv (w_sections w) \<Longrightarrow> x \<in> set (stream w) \<longleftrightarrow> (\<exists>v. x \<in> set (entries w v))"
proof
  assume "bt_inv (w_sections w)" "x \<in> set (stream w)"
  then show "\<exists>v. x \<in> set (entries w v)" unfolding stream_def using sections_entries by fastforce
next
  assume "\<exists>v. x \<in> set (entries w v)"
  then obtain v where v: "x \<in> set (entries w v)" by blast
  then obtain es n where "bt_get (w_sections w) v = Some (es, n)" "x \<in> set es" by (cases "bt_get (w_sections w) v") (auto simp: entries_def)
  then show "x \<in> set (stream w)" by (auto simp: stream_def bt_get_def intro!: bexI [of _ "(v, es, n)"] dest: map_of_SomeD)
qed

lemma stream_ok_world:
  assumes "world_ok T w"
  shows "stream_ok {} (stream w)"
  unfolding stream_def
proof (rule stream_ok_sections)
  note w = world_okD [OF assms]
  show "distinct (map fst (w_sections w))" using w(1) by (simp add: bt_inv_def strict_sorted_iff)
  show "section_ok v {} es" if "(v, es, n) \<in> set (w_sections w)" for v es n
    using w(3) [of v] sections_entries [OF w(1) that] by simp
qed (simp add: facts_def)

section \<open>The start\<close>

lemma mirror_genesis:
  assumes "set_genesis d (voter_new now cfg) = Ok s"
  shows "mirror (cfg_scheme cfg) (cfg_activity_timeout cfg) {} s"
proof -
  let ?s0 = "(voter_new now cfg)\<lparr>v_genesis := Some d\<rparr>"
  obtain w where l: "set_leader w None (snd (enter_view w ?s0)) = Ok s"
    using assms by (auto simp: set_genesis_def Let_def case_prod_beta elim!: and_then_OkE)
  note g = voter_genesis_inv [OF assms]
  have "all_sourced {} ?s0" by (simp add: all_sourced_def voter_new_def bt_get_def)
  then have src: "all_sourced {} s" by (intro all_sourced_set_leader [OF l] all_sourced_enter_view)
  have "core_at s v = (False, False, None, False)" for v
    using core_at_set_leader [OF l] by simp (simp add: core_at_def voter_new_def bt_get_def)
  moreover have "nulls s"
    by (rule nulls_grows [OF nulls_grows [OF _ grows_enter_view] grows_set_leader [OF l]]) (simp add: nulls_def voter_new_def bt_get_def)
  ultimately show ?thesis using g src by (simp add: mirror_def finals_def final_seen_def)
qed

lemma mirror_linked:
  assumes m: "mirror sch T (set (stream w)) s" and w: "world_ok T w" "\<And>v. synced w v = length (entries w v)" and sch: "scheme_ok sch"
  shows "linked {} (Some 0) T w s"
proof -
  note m' = mirrorD [OF m] and wd = world_okD [OF w(1)]
  have d: "durable w v = set (entries w v)" for v by (simp add: durable_def w(2))
  have f: "facts v (set (stream w)) = set (entries w v)" for v
    unfolding facts_def stream_set [OF wd(1)] using section_ok_view [OF wd(3)] by blast
  have min: "voter_min_active s = v_last_finalized s - T"
    using m'(3) by (simp add: voter_min_active_def min_active_def view_saturating_sub_def)
  show ?thesis
  proof (rule linkedI)
    show "w_floor w \<le> voter_min_active s"
    proof (cases "w_floor w = 0")
      case False
      then obtain v g where g: "AFinalization g \<in> facts v (set (stream w))" "w_floor w \<le> v - T"
        using wd(6) by (auto simp: floor_ok_def d f)
      then have "v \<le> v_last_finalized s" using m'(7) by (auto simp: final_seen_def facts_def)
      then show ?thesis using g(2) min by simp
    qed simp
    show "backed x v s" if "x \<in> set (entries w v)" for v x
      using m'(5) [of x] that unfolding f [symmetric] by (auto simp: facts_def)
    show "recorded_at w s v" for v
      using m'(6) by (auto simp: recorded_at_def core_at_def core_def d f all_sourced_def sourced_def split: option.splits)
    show "final_due (Some 0) w s" using m'(7) by (auto simp: final_due_def final_seen_def d f)
  qed (use m' w sch in simp_all)
qed

lemma mirror_expire:
  assumes "mirror sch T D s"
  shows "mirror sch T D (voter_expire_round (v_view s) s)"
proof -
  let ?s = "voter_expire_round (v_view s) s"
  note m = mirrorD [OF assms] and g = grows_simple(3) [of "v_view s" s]
  have l: "v_last_finalized ?s < v_view ?s" using voter_inv_less [OF m(1)] by (simp add: view_same finalized_same)
  have "backed x (artifact_view x) ?s" if "x \<in> D" for x by (rule backed_grows [OF m(5) [OF that] m(1) g])
  moreover have "finals ?s" by (rule finals_same [OF m(4)]) (simp_all add: finalized_same)
  moreover have "v_scheme ?s = sch" "v_activity_timeout ?s = T" using m(2,3) g by (simp_all add: voter_grows_def)
  ultimately show ?thesis using voter_inv_grows [OF m(1) g l] nulls_grows [OF m(8) g] m(6,7)
    by (simp add: mirror_def all_sourced_expire final_seen_def finalized_same)
qed

lemma settled_start:
  fixes a :: "('d, 's, 'c, 'k) actor"
  assumes new: "actor_new now cfg = Ok a" and w: "world_ok T w" "\<And>v. synced w v = length (entries w v)"
    and cfg: "scheme_ok (cfg_scheme cfg)" "T = cfg_activity_timeout cfg"
  shows "outcome (settled T w) (traces_ok T w) (actor_start genesis (stream w) a)"
  unfolding actor_start_def
proof (rule outcome_bind [OF outcome_state, where P = "mirror (cfg_scheme cfg) T {}"])
  have a: "a_state a = voter_new now cfg" "quiet a" "a_pool a = []"
    using new by (auto simp: actor_new_def quiet_def split: if_splits)
  show "mirror (cfg_scheme cfg) T {} x" if "set_genesis genesis (a_state a) = Ok x" for x
    using mirror_genesis that a(1) cfg(2) by simp
  show "traces_ok T w a" by (rule quiet_traces [OF a(2) w(1)])
  fix s0 :: "('d, 's, 'c, 'k) voter" assume s0: "mirror (cfg_scheme cfg) T {} s0"
  then have "replayed (cfg_scheme cfg) T {} (a\<lparr>a_state := s0\<rparr>)" using a by (simp add: replayed_def)
  note r = replayed_all [OF this stream_ok_world [OF w(1)]]
  have "outcome (replayed (cfg_scheme cfg) T (set (stream w))) (traces_ok T w) (replay_all (stream w) (a\<lparr>a_state := s0\<rparr>))"
    using r by (cases "replay_all (stream w) (a\<lparr>a_state := s0\<rparr>)") (simp_all add: quiet_traces [OF _ w(1)])
  then show "outcome (settled T w) (traces_ok T w) (and_then (replay_all (stream w) (a\<lparr>a_state := s0\<rparr>)) (\<lambda>a1.
       let observed_view = v_view (a_state a1);
           s = voter_expire_round observed_view (a_state a1);
           a2 = a1\<lparr>a_journal := True, a_state := s\<rparr>
       in case voter_leader_index s observed_view of
            None \<Rightarrow> Err a2
          | Some leader \<Rightarrow> Ok (emit (BatcherUpdate observed_view leader (v_last_finalized s)) a2)))"
  proof (rule outcome_bind)
    fix a1 :: "('d, 's, 'c, 'k) actor"
    assume "replayed (cfg_scheme cfg) T (set (stream w)) a1"
    then have a1: "quiet a1" "mirror (cfg_scheme cfg) T (set (stream w)) (a_state a1)" "a_pool a1 = []" by (simp_all add: replayed_def)
    let ?a = "a1\<lparr>a_journal := True, a_state := voter_expire_round (v_view (a_state a1)) (a_state a1)\<rparr>"
    have t: "traces_ok T w ?a" using quiet_traces [OF a1(1) w(1)] by simp
    have "live {} (Some 0) T w ?a"
      using mirror_linked [OF mirror_expire [OF a1(2)] w cfg(1)] t quiet_world [OF a1(1)] by (simp add: live_def)
    then have "settled T w ?a" using a1(3) by (simp add: settled_def pool_ok_def)
    then show "outcome (settled T w) (traces_ok T w) (let observed_view = v_view (a_state a1);
           s = voter_expire_round observed_view (a_state a1);
           a2 = a1\<lparr>a_journal := True, a_state := s\<rparr>
       in case voter_leader_index s observed_view of
            None \<Rightarrow> Err a2
          | Some leader \<Rightarrow> Ok (emit (BatcherUpdate observed_view leader (v_last_finalized s)) a2))"
      using t by (simp add: Let_def settled_emit split: option.split)
  qed
qed

end
