(* ===== verification/Voter_Safety.thy ===== *)
theory Voter_Safety
  imports Voter_Replay
begin

text \<open>
  The voter through crashes: a system is down with what its journal kept, or up with the actor that was
  started from it. A crash or a panic may come after any effect, and the journal keeps at least what was
  synced. In every reachable state the votes the voter ever sent agree with each other.
\<close>

section \<open>Runs with crashes\<close>

datatype ('d, 's, 'c, 'k) system =
    Down "('d, 's, 'c) world"
  | Up "('d, 's, 'c) world" "('d, 's, 'c, 'k) actor"

fun system_world :: "('d, 's, 'c, 'k) system \<Rightarrow> ('d, 's, 'c) world" where
  "system_world (Down w) = w"
| "system_world (Up w a) = world_of w a"

definition sent :: "('d, 's, 'c, 'k) system \<Rightarrow> ('d, 's) vote set" where
  "sent st = w_sent (system_world st)"

definition ends :: "('x, 'x) result \<Rightarrow> 'x \<Rightarrow> bool" where
  "ends r x \<longleftrightarrow> r = Ok x \<or> r = Err x"

inductive reachable :: "('d, 's, 'c, 'k) config \<Rightarrow> 'd \<Rightarrow> ('d, 's, 'c, 'k) system \<Rightarrow> bool"
  for cfg :: "('d, 's, 'c, 'k) config" and genesis :: 'd where
  init: "reachable cfg genesis (Down w_empty)"
| start: "reachable cfg genesis (Down w) \<Longrightarrow> actor_new now cfg = Ok a \<Longrightarrow> actor_start genesis (stream w) a = Ok a' \<Longrightarrow>
    reachable cfg genesis (Up w a')"
| start_crash: "reachable cfg genesis (Down w) \<Longrightarrow> actor_new now cfg = Ok a \<Longrightarrow> ends (actor_start genesis (stream w) a) a' \<Longrightarrow>
    prefix es (a_out a') \<Longrightarrow> survives (execs es w) w' \<Longrightarrow> reachable cfg genesis (Down w')"
| step: "reachable cfg genesis (Up w a) \<Longrightarrow> loop_iteration now ev is_active a = Ok a' \<Longrightarrow> reachable cfg genesis (Up w a')"
| step_crash: "reachable cfg genesis (Up w a) \<Longrightarrow> ends (loop_iteration now ev is_active a) a' \<Longrightarrow>
    prefix es (a_out a') \<Longrightarrow> survives (execs es w) w' \<Longrightarrow> reachable cfg genesis (Down w')"

inductive_cases reachable_UpE: "reachable cfg genesis (Up w a)"

section \<open>The invariant\<close>

fun system_ok :: "delta \<Rightarrow> ('d, 's, 'c, 'k) system \<Rightarrow> bool" where
  "system_ok T (Down w) \<longleftrightarrow> world_ok T w \<and> (\<forall>v. synced w v = length (entries w v))"
| "system_ok T (Up w a) \<longleftrightarrow> settled T w a"

lemma survives_synced: "survives w w' \<Longrightarrow> synced w' v = length (entries w' v)"
  unfolding survives_def by blast

lemma outcome_traces:
  assumes "outcome (settled T w) (traces_ok T w) r" "ends r a"
  shows "traces_ok T w a"
  using assms settled_traces by (auto simp: ends_def)

lemma crash_ok:
  assumes "outcome (settled T w) (traces_ok T w) r" "ends r a" "prefix es (a_out a)" "survives (execs es w) w'"
  shows "system_ok T (Down w')"
proof -
  have "world_ok T (execs es w)" using outcome_traces [OF assms(1,2)] assms(3) by (simp add: traces_ok_def)
  then show ?thesis using world_ok_survives assms(4) survives_synced by auto
qed

lemma reachable_ok:
  assumes "reachable cfg genesis st" "scheme_ok (cfg_scheme cfg)"
  shows "system_ok (cfg_activity_timeout cfg) st"
  using assms(1)
proof induction
  case init
  then show ?case by (simp add: world_ok_empty) (simp add: w_empty_def synced_def entries_def bt_get_def)
next
  case (start w now a a')
  then have "outcome (settled (cfg_activity_timeout cfg) w) (traces_ok (cfg_activity_timeout cfg) w) (actor_start genesis (stream w) a)"
    using assms(2) by (intro settled_start) auto
  then show ?case using start by simp
next
  case (start_crash w now a a' es w')
  then have "outcome (settled (cfg_activity_timeout cfg) w) (traces_ok (cfg_activity_timeout cfg) w) (actor_start genesis (stream w) a)"
    using assms(2) by (intro settled_start) auto
  then show ?case using crash_ok start_crash by blast
next
  case (step w a now ev is_active a')
  then show ?case using settled_loop_iteration [of "cfg_activity_timeout cfg" w a now ev is_active] by simp
next
  case (step_crash w a now ev is_active a' es w')
  then show ?case using crash_ok [OF settled_loop_iteration] by fastforce
qed

lemma reachable_world:
  assumes "reachable cfg genesis st" "scheme_ok (cfg_scheme cfg)"
  shows "world_ok (cfg_activity_timeout cfg) (system_world st)"
  using reachable_ok [OF assms] by (cases st) (auto simp: settled_def dest: live_linked linkedD(1))

lemma reachable_linked:
  assumes "reachable cfg genesis (Up w a)" "scheme_ok (cfg_scheme cfg)"
  shows "linked {} (Some 0) (cfg_activity_timeout cfg) (world_of w a) (a_state a)"
  using reachable_ok [OF assms] by (simp add: settled_def live_linked)

text \<open>The last finalized view keeps its finalization: the journal has it, and the state what the journal has.\<close>

lemma linked_final_inv:
  assumes "linked {} (Some 0) T w s"
  shows "final_inv s"
proof (cases "v_last_finalized s = 0")
  case False
  then obtain f where "AFinalization f \<in> set (entries w (v_last_finalized s))"
    using linkedD(9) [OF assms] durable_entries by (auto simp: final_due_def)
  moreover have "voter_min_active s \<le> v_last_finalized s" by (simp add: voter_min_active_def min_active_def view_saturating_sub_def)
  ultimately show ?thesis using linkedD(6) [OF assms] by (fastforce simp: final_inv_def backed_def)
qed (simp add: final_inv_def)

section \<open>The effects of a run\<close>

text \<open>
  The effects \<open>fs\<close> are the first effects of the actor since it was started on what the journal kept in the world \<open>w\<close>:
  those of its start, or of its start and any number of iterations of the loop, up to any point.
\<close>

definition carries_out :: "('d, 's, 'c, 'k) config \<Rightarrow> 'd \<Rightarrow> ('d, 's, 'c) world \<Rightarrow> ('d, 's, 'c, 'k) effect list \<Rightarrow> bool" where
  "carries_out cfg genesis w fs \<longleftrightarrow>
     (\<exists>now a a'. reachable cfg genesis (Down w) \<and> actor_new now cfg = Ok a \<and> ends (actor_start genesis (stream w) a) a' \<and> prefix fs (a_out a'))
   \<or> (\<exists>a now ev is_active a'. reachable cfg genesis (Up w a) \<and> ends (loop_iteration now ev is_active a) a' \<and> prefix fs (a_out a'))"

lemma carries_out_crash:
  assumes "carries_out cfg genesis w fs" "survives (execs fs w) w'"
  shows "reachable cfg genesis (Down w')"
  using assms reachable.start_crash reachable.step_crash unfolding carries_out_def by metis

lemma carries_out_traces:
  assumes "carries_out cfg genesis w fs" "scheme_ok (cfg_scheme cfg)"
  shows "\<exists>a. traces_ok (cfg_activity_timeout cfg) w a \<and> prefix fs (a_out a)"
  using assms(1) unfolding carries_out_def
proof (elim disjE exE conjE)
  fix now a a'
  assume w: "reachable cfg genesis (Down w)" and a: "actor_new now cfg = Ok a" and e: "ends (actor_start genesis (stream w) a) a'" and p: "prefix fs (a_out a')"
  have "outcome (settled (cfg_activity_timeout cfg) w) (traces_ok (cfg_activity_timeout cfg) w) (actor_start genesis (stream w) a)"
    using reachable_ok [OF w assms(2)] a assms(2) by (intro settled_start) auto
  then show ?thesis using outcome_traces [OF _ e] p by blast
next
  fix a now ev is_active a'
  assume w: "reachable cfg genesis (Up w a)" and e: "ends (loop_iteration now ev is_active a) a'" and p: "prefix fs (a_out a')"
  have "outcome (settled (cfg_activity_timeout cfg) w) (traces_ok (cfg_activity_timeout cfg) w) (loop_iteration now ev is_active a)"
    using reachable_ok [OF w assms(2)] by (intro settled_loop_iteration) simp
  then show ?thesis using outcome_traces [OF _ e] p by blast
qed

text \<open>No effect of the actor is for a section below the bound it last pruned the journal to.\<close>

lemma carries_out_allowed:
  assumes "carries_out cfg genesis w fs" "scheme_ok (cfg_scheme cfg)" "prefix (es @ [e]) fs"
  shows "allowed e (execs es w)"
  using carries_out_traces [OF assms(1,2)] assms(3) prefix_order.trans unfolding traces_ok_def by blast

section \<open>A sample run\<close>

text \<open>A voter of the sample configuration that starts on an empty journal, times out in its first view
  and crashes after its vote was sent.\<close>

definition sample_start :: "(nat, nat, nat, nat) actor" where
  "sample_start = (case actor_new 0 sample_config of Ok a \<Rightarrow> (case actor_start 0 [] a of Ok a' \<Rightarrow> a' | _ \<Rightarrow> a))"

definition sample_timeout :: "(nat, nat, nat, nat) actor" where
  "sample_timeout = (case loop_iteration 30 EvTimeout True sample_start of Ok a \<Rightarrow> a | _ \<Rightarrow> sample_start)"

definition sample_nullify :: "nat nullify" where
  "sample_nullify = \<lparr>nl_round = Rnd 1 1, nl_attestation = \<lparr>att_signer = 0, att_signature = 7\<rparr>\<rparr>"

lemmas actor_eval = actor_new_def actor_start_def voter_expire_round_def voter_leader_index_def emit_def

lemma sample_new: "\<exists>a. actor_new 0 sample_config = Ok a \<and> actor_start 0 [] a = Ok sample_start"
  using sample_genesis by (simp add: sample_start_def actor_eval sample_view Let_def) (simp add: sample_voter_def voter_eval)

lemma sample_start_eq:
  "sample_start = \<lparr>a_state = voter_expire_round 1 sample_voter, a_journal = True, a_candidates = [], a_pending_propose = None,
     a_pending_verify = None, a_pool = [], a_out = [BatcherUpdate 1 1 0]\<rparr>"
  using sample_genesis by (simp add: sample_start_def actor_eval sample_view Let_def) (simp add: sample_voter_def voter_eval emit_def)

lemmas loop_eval = loop_iteration_def loop_top_def try_propose_def try_verify_def voter_try_propose_def voter_try_verify_def
  round_try_propose_def round_propose_ready_def round_is_signer_def round_should_propose_def round_should_verify_def round_verify_ready_def
  voter_next_timeout_deadline_def round_next_timeout_deadline_def handle_timeout_def voter_handle_timeout_def
  round_construct_nullify_def round_clear_deadlines_def nullify_sign_def sync_journal_def append_journal_def
  handle_nullify_def broadcast_vote_def broadcast_certificate_def notify_def try_broadcast_notarize_def voter_construct_notarize_def
  round_construct_notarize_def try_broadcast_notarization_def voter_broadcast_notarization_def round_get_broadcast_notarization_def
  try_broadcast_nullification_def voter_broadcast_nullification_def round_get_broadcast_nullification_def try_broadcast_finalize_def
  voter_construct_finalize_def round_construct_finalize_def try_broadcast_finalization_def voter_broadcast_finalization_def
  round_get_broadcast_finalization_def Voter_Actor.prune_views_def voter_prune_def voter_min_active_def min_active_def view_saturating_sub_def
  bt_split_off_def loop_bottom_def find_parent_def

lemma sample_loop: "loop_iteration 30 EvTimeout True sample_start = Ok sample_timeout \<and>
   a_out sample_timeout = [BatcherUpdate 1 1 0, BatcherConstructed (VNullify sample_nullify), Append 1 (ANullify sample_nullify),
     Sync 1, SendVote (VNullify sample_nullify)] \<and> voter_min_active (a_state sample_timeout) = 0"
  unfolding sample_timeout_def
  by (simp add: sample_start_eq loop_eval actor_eval sample_voter_def voter_eval sample_nullify_def)

lemma sample_started: "reachable sample_config 0 (Up w_empty sample_start)"
proof -
  obtain a where a: "actor_new 0 sample_config = Ok a" "actor_start 0 (stream w_empty) a = Ok sample_start"
    using sample_new by (auto simp: stream_def w_empty_def)
  show ?thesis by (rule reachable.start [OF reachable.init a])
qed

lemma sample_up: "reachable sample_config 0 (Up w_empty sample_timeout)"
  by (rule reachable.step [OF sample_started conjunct1 [OF sample_loop]])

definition sample_world :: "(nat, nat, nat) world" where
  "sample_world = \<lparr>w_sections = [(1, [ANullify sample_nullify], 1)], w_floor = 0, w_sent = {VNullify sample_nullify}\<rparr>"

lemma sample_execs: "execs (a_out sample_timeout) w_empty = sample_world"
  by (simp add: sample_loop execs_def exec.simps w_empty_def sample_world_def entries_def synced_def bt_get_def)

lemma sample_down: "reachable sample_config 0 (Down sample_world)"
proof (rule reachable.step_crash [OF sample_started])
  show "ends (loop_iteration 30 EvTimeout True sample_start) sample_timeout" by (simp add: ends_def sample_loop)
  show "prefix (a_out sample_timeout) (a_out sample_timeout)" by simp
  show "survives (execs (a_out sample_timeout) w_empty) sample_world"
    unfolding sample_execs survives_def
    by (auto simp: sample_world_def entries_def synced_def bt_get_def bt_inv_def intro!: exI [of _ 1])
qed

lemma sample_scheme_ok: "scheme_ok (cfg_scheme sample_config)"
  by (simp add: scheme_ok_def sample_config_def sample_scheme_def)

lemma sample_sent: "sent (Up w_empty sample_timeout) = {VNullify sample_nullify}" "sent (Down sample_world) = {VNullify sample_nullify}"
  by (simp_all add: sent_def world_of_def sample_execs) (simp_all add: sample_world_def)

section \<open>Properties\<close>

text \<open>
  C1. Across any number of restarts, crashes after any effect and panics, with the journal keeping at
  least what was synced, the votes a voter has sent never contradict each other: in a view it notarizes
  at most one proposal, finalizes at most one and the same, and never both finalizes and nullifies.
\<close>

theorem voter_never_equivocates:
  assumes "reachable cfg genesis st" "scheme_ok (cfg_scheme cfg)" "x \<in> sent st" "y \<in> sent st" "vote_view x = vote_view y"
  shows "agree x y"
  using world_okD(2) [OF reachable_world [OF assms(1,2)]] assms(3-5) by (simp add: consistent_def sent_def)

theorem voter_never_equivocates_witness:
  "VNullify sample_nullify \<in> sent (Down sample_world :: (nat, nat, nat, nat) system)
    \<and> agree (VNullify sample_nullify :: (nat, nat) vote) (VNullify sample_nullify)"
  using voter_never_equivocates [OF sample_down sample_scheme_ok, of "VNullify sample_nullify" "VNullify sample_nullify"]
  by (simp add: sample_sent)

text \<open>
  C2. A vote is durable in the journal before it is sent and stays so: in every reachable state each vote
  ever sent is recorded in the durable part of the section of its view, unless a finalization more than
  the activity timeout above it is durable.
\<close>

theorem votes_are_durable:
  assumes "reachable cfg genesis st" "scheme_ok (cfg_scheme cfg)" "x \<in> sent st"
  shows "(\<exists>a \<in> durable (system_world st) (vote_view x). records a x)
    \<or> (\<exists>v f. AFinalization f \<in> durable (system_world st) v \<and> vote_view x < v - cfg_activity_timeout cfg)"
proof -
  note w = reachable_world [OF assms(1,2)]
  show ?thesis using world_okD(5) [OF w, of x] world_okD(6) [OF w] assms(3) by (fastforce simp: sent_def floor_ok_def)
qed

theorem votes_are_durable_witness:
  "VNullify sample_nullify \<in> sent (Down sample_world :: (nat, nat, nat, nat) system)
    \<and> (\<exists>a \<in> durable sample_world 1. records a (VNullify sample_nullify))"
  using votes_are_durable [OF sample_down sample_scheme_ok, of "VNullify sample_nullify"]
  by (simp add: sent_def durable_def sample_world_def sample_nullify_def entries_def synced_def bt_get_def)

text \<open>
  C3. A voter that is up, after any number of restarts, remembers every vote it ever sent for a view that
  is still active: the round of the view has the flag of the vote and its slot is pinned to the proposal.
\<close>

theorem votes_are_remembered:
  assumes "reachable cfg genesis (Up w a)" "scheme_ok (cfg_scheme cfg)" "x \<in> sent (Up w a)" "voter_min_active (a_state a) \<le> vote_view x"
  shows "\<exists>r. bt_get (v_views (a_state a)) (vote_view x) = Some r \<and> vote_backed x r"
proof -
  note l = reachable_linked [OF assms(1,2)]
  obtain y where y: "y \<in> durable (world_of w a) (vote_view x)" "records y x"
    using world_okD(5) [OF linkedD(1) [OF l], of x] linkedD(5) [OF l] assms(3,4) by (auto simp: sent_def)
  have "backed y (vote_view x) (a_state a)" using linkedD(6) [OF l assms(4)] y(1) durable_entries by blast
  then show ?thesis using y(2) by (cases x) (auto simp: backed_def records_iff)
qed

theorem votes_are_remembered_witness:
  "VNullify sample_nullify \<in> sent (Up w_empty sample_timeout)
    \<and> (\<exists>r. bt_get (v_views (a_state sample_timeout)) 1 = Some r \<and> r_broadcast_nullify r)"
  using votes_are_remembered [OF sample_up sample_scheme_ok, of "VNullify sample_nullify"] sample_sent(1) sample_loop
  by (simp add: sample_nullify_def)

text \<open>
  C36. The state of a voter that is up, after any number of restarts, crashes and panics, keeps the invariant of
  \<open>Voter_Run\<close>, with no condition on the artifacts that were replayed or on the events that came: the rounds are well formed and belong to
  their views, the current view is past the last finalized one, and the last finalized view has its finalization.
\<close>

theorem actor_keeps_state_invariant:
  assumes "reachable cfg genesis (Up w a)" "scheme_ok (cfg_scheme cfg)"
  shows "voter_inv (a_state a) \<and> final_inv (a_state a)"
  using linkedD(2) [OF reachable_linked [OF assms]] linked_final_inv [OF reachable_linked [OF assms]] by simp

theorem actor_keeps_state_invariant_witness:
  "reachable sample_config 0 (Up w_empty sample_timeout) \<and> voter_inv (a_state sample_timeout) \<and> final_inv (a_state sample_timeout)"
  using actor_keeps_state_invariant [OF sample_up sample_scheme_ok] sample_up by simp

end
