(* ===== verification/Voter_Disk.thy ===== *)
theory Voter_Disk
  imports Journal_Spec Voter_Safety
begin

text \<open>
  The voter's journal on disk. The abstract world of the voter (sections of artifacts, the durable part
  of each) is what the segmented journal stands for: the effects \<open>Append\<close>, \<open>Sync\<close> and \<open>PruneJournal\<close> are
  calls of the journal, a crash leaves a rest of its files, and opening and replaying the journal
  gives the stream of a world that survives the crash. This discharges, for the journal over the
  in-memory store, what the runs with crashes of \<open>Voter_Safety\<close> take for granted of it: the calls are those of the
  actor's own effects, and the journal accepts them because no effect is below the pruned bound.
\<close>

section \<open>Effects as calls of the journal\<close>

text \<open>The configuration with which the actor opens its journal: artifacts, uncompressed.\<close>

definition voter_journal_cfg :: "'d writer \<Rightarrow> 'd reader \<Rightarrow> 'd sizer \<Rightarrow> 's writer \<Rightarrow> 's reader \<Rightarrow> 's sizer \<Rightarrow> 'c writer \<Rightarrow> 'c reader \<Rightarrow> 'c sizer
    \<Rightarrow> nat \<Rightarrow> (bytes \<Rightarrow> u32) \<Rightarrow> (bytes \<Rightarrow> nat \<Rightarrow> bytes option) \<Rightarrow> (bytes \<Rightarrow> bytes option) \<Rightarrow> ('d, 's, 'c) artifact journal_cfg" where
  "voter_journal_cfg wd rd sd ws rs ss wc rc sc write_buffer crc compress decompress =
     \<lparr>jc_compression = None, jc_write = write_artifact wd ws wc, jc_size = size_artifact sd ss sc, jc_read = read_artifact rd rs rc,
      jc_write_buffer = write_buffer, jc_crc = crc, jc_compress = compress, jc_decompress = decompress\<rparr>"

text \<open>The calls behind \<open>append_journal\<close>, \<open>sync_journal\<close> and \<open>prune_views\<close>.\<close>

fun journal_call_of :: "('d, 's, 'c, 'k) effect \<Rightarrow> ('d, 's, 'c) artifact journal_call option" where
  "journal_call_of (Append v x) = Some (JAppend v x)"
| "journal_call_of (Sync v) = Some (JSync v)"
| "journal_call_of (PruneJournal m) = Some (JPrune m)"
| "journal_call_of _ = None"

definition journal_calls :: "('d, 's, 'c, 'k) effect list \<Rightarrow> ('d, 's, 'c) artifact journal_call list" where
  "journal_calls es = List.map_filter journal_call_of es"

definition disk_of :: "('d, 's, 'c) world \<Rightarrow> ('d, 's, 'c) artifact sections" where
  "disk_of w = bt_get (w_sections w)"

lemma disk_views: "items_of (disk_of w) v = entries w v" "synced_of (disk_of w) v = synced w v"
  by (simp_all add: items_of_def synced_of_def disk_of_def entries_def synced_def)

lemma exec_disk:
  assumes "sections_step cfg c (oldest, disk_of w) = Some (a, oldest', m)" "journal_call_of e = Some c"
  shows "disk_of (exec e w) = m"
proof (cases e)
  case (Append v x)
  then show ?thesis using assms by (auto simp: exec.simps disk_of_def bt_get_insert disk_views [unfolded disk_of_def] split: if_splits)
next
  case (Sync v)
  then show ?thesis using assms by (auto simp: exec.simps disk_of_def bt_get_insert split: if_splits option.splits)
next
  case (PruneJournal mn)
  then have "m = disk_of w |` {mn..}" using assms by (auto simp: Let_def)
  then show ?thesis using PruneJournal by (auto simp: exec.simps disk_of_def bt_split_off_get restrict_map_def fun_eq_iff)
qed (use assms in simp_all)

lemma exec_disk_other: "journal_call_of e = None \<Longrightarrow> disk_of (exec e w) = disk_of w"
  by (cases e) (simp_all add: exec.simps disk_of_def)

lemma execs_disk:
  assumes "sections_run cfg (journal_calls es) (oldest, disk_of w) = Some (answers, oldest', m)"
  shows "disk_of (execs es w) = m"
  using assms
proof (induction es arbitrary: w oldest answers)
  case Nil
  then show ?case by (simp add: execs_def journal_calls_def map_filter_simps)
next
  case (Cons e es)
  have step: "disk_of (execs (e # es) w) = disk_of (execs es (exec e w))" by (simp add: execs_def)
  show ?case
  proof (cases "journal_call_of e")
    case None
    then show ?thesis using Cons.IH [of oldest "exec e w" answers] Cons.prems step
      by (simp add: journal_calls_def map_filter_simps exec_disk_other)
  next
    case (Some c)
    then obtain a o1 m1 as where s: "sections_step cfg c (oldest, disk_of w) = Some (a, o1, m1)"
        "sections_run cfg (journal_calls es) (o1, m1) = Some (as, oldest', m)"
      using Cons.prems by (auto simp: journal_calls_def map_filter_simps bind_eq_Some_conv)
    then show ?thesis using Cons.IH [of o1 "exec e w" as] exec_disk [OF s(1) Some] step by simp
  qed
qed

section \<open>What survives\<close>

definition bt_of :: "('k::linorder \<rightharpoonup> 'v) \<Rightarrow> ('k, 'v) btree" where
  "bt_of m = map (\<lambda>k. (k, the (m k))) (sorted_list_of_set (dom m))"

lemma bt_of: "finite (dom m) \<Longrightarrow> bt_inv (bt_of m)" "finite (dom m) \<Longrightarrow> bt_get (bt_of m) = m"
proof -
  assume f: "finite (dom m)"
  have "map fst (bt_of m) = sorted_list_of_set (dom m)" by (simp add: bt_of_def comp_def)
  then show i: "bt_inv (bt_of m)" using f by (simp add: bt_inv_def)
  show "bt_get (bt_of m) = m"
  proof
    fix k
    show "bt_get (bt_of m) k = m k"
    proof (cases "m k")
      case None
      then show ?thesis using f by (intro bt_get_notin [THEN trans]) (auto simp: bt_of_def)
    next
      case (Some v)
      then show ?thesis using f i by (auto simp: bt_get_Some bt_of_def image_iff intro!: bexI [of _ k])
    qed
  qed
qed

lemma survives_disk:
  assumes "keeps_synced (disk_of w) m'"
  shows "survives w (w\<lparr>w_sections := bt_of m'\<rparr>)" "disk_of (w\<lparr>w_sections := bt_of m'\<rparr>) = m'"
proof -
  have d: "dom m' = dom (disk_of w)" using assms by (simp add: keeps_synced_def)
  then have f: "finite (dom m')" by (simp add: disk_of_def bt_dom)
  show m': "disk_of (w\<lparr>w_sections := bt_of m'\<rparr>) = m'" using bt_of(2) [OF f] by (simp add: disk_of_def)
  let ?w = "w\<lparr>w_sections := bt_of m'\<rparr>"
  have "\<exists>k. synced w v \<le> k \<and> entries ?w v = take k (entries w v) \<and> synced ?w v = length (entries ?w v)" for v
  proof (cases "disk_of w v")
    case None
    then have "m' v = None" using d by auto
    then show ?thesis using None disk_views [of w v] disk_views [of ?w v] m' by (auto simp: items_of_def synced_of_def)
  next
    case (Some p)
    then obtain vs n where s: "disk_of w v = Some (vs, n)" by (cases p) auto
    then obtain k where k: "n \<le> k" "k \<le> length vs" "m' v = Some (take k vs, k)" using assms unfolding keeps_synced_def by blast
    have "entries w v = vs" "synced w v = n" using s disk_views [of w v] by (simp_all add: items_of_def synced_of_def)
    moreover have "entries ?w v = take k vs" "synced ?w v = k" using k(3) m' disk_views [of ?w v] by (simp_all add: items_of_def synced_of_def)
    ultimately show ?thesis using k(1,2) by (intro exI [of _ k]) simp
  qed
  then show "survives w ?w" using bt_of(1) [OF f] by (simp add: survives_def)
qed

lemma replay_values:
  "map (\<lambda>(_, _, _, v). v) (concat (map (replay_items cfg m) secs)) = concat (map (items_of m) secs)"
proof (induction secs)
  case (Cons sec secs)
  then show ?case using places_values [of cfg "[]" "items_of m sec"] by (simp add: replay_items_def case_prod_unfold comp_def)
qed simp

lemma stream_disk: "finite (dom m) \<Longrightarrow> stream (w\<lparr>w_sections := bt_of m\<rparr>) = concat (map (items_of m) (sorted_list_of_set (dom m)))"
  by (auto simp: stream_def bt_of_def items_of_def comp_def intro!: arg_cong [where f = concat] map_cong split: option.split)

section \<open>The journal accepts the effects of the actor\<close>

text \<open>
  What the disk asks of the effects: the section of an appended artifact is a \<open>u64\<close>, the artifact can be encoded with a
  length that is a \<open>u32\<close>, and the section stays within the offsets of the journal.
\<close>

fun effect_fits :: "('d, 's, 'c) artifact journal_cfg \<Rightarrow> ('d, 's, 'c, 'k) effect \<Rightarrow> ('d, 's, 'c) world \<Rightarrow> bool" where
  "effect_fits cfg (Append v x) w \<longleftrightarrow> v \<le> u64_max \<and> storable cfg x \<and> fits (layout cfg [] (entries w v @ [x]))"
| "effect_fits cfg _ w \<longleftrightarrow> True"

fun effects_fit :: "('d, 's, 'c) artifact journal_cfg \<Rightarrow> ('d, 's, 'c, 'k) effect list \<Rightarrow> ('d, 's, 'c) world \<Rightarrow> bool" where
  "effects_fit cfg [] w \<longleftrightarrow> True"
| "effects_fit cfg (e # es) w \<longleftrightarrow> effect_fits cfg e w \<and> effects_fit cfg es (exec e w)"

lemma allowed_step:
  assumes "allowed e w" "effect_fits cfg e w" "oldest \<le> w_floor w" "journal_call_of e = Some c"
  shows "\<exists>a oldest'. sections_step cfg c (oldest, disk_of w) = Some (a, oldest', disk_of (exec e w)) \<and> oldest' \<le> w_floor (exec e w)"
proof -
  obtain a oldest' m where s: "sections_step cfg c (oldest, disk_of w) = Some (a, oldest', m)" "oldest' \<le> w_floor (exec e w)"
    using assms by (cases e) (auto simp: disk_views exec.simps Let_def max_def split: option.splits if_splits)
  then show ?thesis using exec_disk [OF s(1) assms(4)] by auto
qed

lemma allowed_run:
  assumes "\<And>xs e. prefix (xs @ [e]) fs \<Longrightarrow> allowed e (execs xs w)" "effects_fit cfg fs w" "oldest \<le> w_floor w"
  shows "sections_run cfg (journal_calls fs) (oldest, disk_of w) \<noteq> None"
  using assms
proof (induction fs arbitrary: w oldest)
  case Nil
  then show ?case by (simp add: journal_calls_def map_filter_simps)
next
  case (Cons e fs)
  have f: "effect_fits cfg e w" "effects_fit cfg fs (exec e w)" using Cons.prems(2) by simp_all
  have al: "allowed x (execs xs (exec e w))" if "prefix (xs @ [x]) fs" for xs x
    using Cons.prems(1) [of "e # xs" x] that by (simp add: execs_def)
  show ?case
  proof (cases "journal_call_of e")
    case None
    then have "w_floor (exec e w) = w_floor w" by (cases e) (simp_all add: exec.simps)
    then show ?thesis using Cons.IH [OF al f(2), of oldest] None Cons.prems(3) by (simp add: journal_calls_def map_filter_simps exec_disk_other)
  next
    case (Some c)
    have "allowed e w" using Cons.prems(1) [of "[]" e] by (simp add: execs_def)
    then obtain a o1 where s: "sections_step cfg c (oldest, disk_of w) = Some (a, o1, disk_of (exec e w))" "o1 \<le> w_floor (exec e w)"
      using allowed_step [OF _ f(1) Cons.prems(3) Some] by blast
    then show ?thesis using Cons.IH [OF al f(2) s(2)] Some by (auto simp: journal_calls_def map_filter_simps)
  qed
qed

section \<open>The lives of the voter on disk\<close>

text \<open>
  C4. The voter's journal on disk through a crash and the next life. The actor has carried out any effects \<open>es\<close> since its last
  start on the world \<open>w0\<close>, and the files hold what a crash can leave of the journal of the world they lead to: in every section at least
  the synced artifacts, the rest cut off anywhere or followed by bytes that fail the checksum. Then the journal opens and
  replays without an error, and what it replays is the stream of a world \<open>w'\<close> that survives the crash and is again
  a reachable one. Whatever effects \<open>fs\<close> the actor started on that stream carries out, the journal accepts their
  appends, syncs and prunes, none being below the pruned bound, and its files hold the journal of the world \<open>fs\<close> lead to, so that the next crash
  is again one of this kind. The artifacts must fit the disk, and the page cache has a \<open>u64\<close> of blob ids.
\<close>

theorem voter_journal_on_disk:
  assumes es: "carries_out vcfg genesis w0 es" "scheme_ok (cfg_scheme vcfg)"
    and st: "validate_partition_name part = Ok ()" "mem_inv st" "crash_rest cfg (disk_of (execs es w0)) (mem_files part st)"
    and pool: "0 < page_size" "2 * page_size \<le> u64_max" "0 < capacity" "0 < buffer"
    and ids: "card (dom (disk_of (execs es w0))) \<le> u64_max"
  shows "\<exists>pr j items j' w'. pool_ref_new page_size capacity = Ok pr \<and> journal_init (mem_ops part) cfg pr st = Ok j
    \<and> journal_replay (mem_ops part) cfg 0 0 buffer j = Ok (items, None, j')
    \<and> survives (execs es w0) w' \<and> reachable vcfg genesis (Down w') \<and> map (\<lambda>(_, _, _, x). x) items = stream w'
    \<and> (\<forall>fs. carries_out vcfg genesis w' fs \<longrightarrow> effects_fit cfg fs w' \<longrightarrow> card (dom (disk_of (execs es w0))) + length fs \<le> u64_max \<longrightarrow>
         (\<exists>answers j''. journal_run (mem_ops part) cfg (journal_calls fs) j' = Ok (answers, j'')
           \<and> mem_inv (jr_store j'') \<and> survivor cfg (disk_of (execs fs w')) (mem_files part (jr_store j''))))"
proof -
  let ?v = "execs es w0"
  note ms = mem_store [OF st(1)]
  obtain pr where pr: "pool_ref_new page_size capacity = Ok pr" "blob_store.page_pool_ok pr" "pr_next_id pr = 0"
    using blob_store.page_pool_ok_new [OF ms pool(1-3)] by blast
  have rec: "blob_store.recoverable (mem_files part) mem_inv cfg (disk_of ?v) st" using st(2,3) by (simp add: blob_store.recoverable_def [OF ms])
  from blob_store.journal_recovers [OF ms rec pr(2) _ pool(4)] ids obtain j m' j' where
    r: "journal_init (mem_ops part) cfg pr st = Ok j"
      "journal_replay (mem_ops part) cfg 0 0 buffer j = Ok (concat (map (replay_items cfg m') (sorted_list_of_set (dom (disk_of ?v)))), None, j')"
      "blob_store.journal_rel (mem_content part) mem_named (mem_files part) mem_inv cfg m' j'" "jr_oldest_retained_section j' = 0"
      "keeps_synced (disk_of ?v) m'" "pr_next_id (jr_pool j') \<le> card (dom (disk_of ?v))"
    using pr(3) by auto
  let ?w = "?v\<lparr>w_sections := bt_of m'\<rparr>"
  note sv = survives_disk [OF r(5)]
  have run: "\<exists>answers j''. journal_run (mem_ops part) cfg (journal_calls fs) j' = Ok (answers, j'')
      \<and> mem_inv (jr_store j'') \<and> survivor cfg (disk_of (execs fs ?w)) (mem_files part (jr_store j''))"
    if fs: "carries_out vcfg genesis ?w fs" "effects_fit cfg fs ?w" "card (dom (disk_of ?v)) + length fs \<le> u64_max" for fs
  proof -
    obtain answers oldest m where run: "sections_run cfg (journal_calls fs) (0, m') = Some (answers, oldest, m)"
      using allowed_run [OF carries_out_allowed [OF fs(1) es(2)] fs(2), of 0] sv(2) by auto
    have "length (journal_calls fs) \<le> length fs" by (simp add: journal_calls_def map_filter_def)
    then obtain j'' where jj: "journal_run (mem_ops part) cfg (journal_calls fs) j' = Ok (answers, j'')"
        "blob_store.journal_rel (mem_content part) mem_named (mem_files part) mem_inv cfg m j''"
      using blob_store.journal_run_ok [OF ms r(3), of "journal_calls fs" answers oldest m] run r(4,6) fs(3) by auto
    have "disk_of (execs fs ?w) = m" using execs_disk [of cfg fs 0 ?w answers oldest m] run sv(2) by simp
    then show ?thesis using blob_store.journal_rel_survivor [OF ms jj(2)] jj(1) by blast
  qed
  have "dom m' = dom (disk_of ?v)" using r(5) by (simp add: keeps_synced_def)
  then have vals: "map (\<lambda>(_, _, _, x). x) (concat (map (replay_items cfg m') (sorted_list_of_set (dom (disk_of ?v))))) = stream ?w"
    using replay_values [of cfg m'] stream_disk [of m' ?v] by (simp add: disk_of_def bt_dom)
  show ?thesis using pr(1) r(1,2) sv(1) carries_out_crash [OF es(1) sv(1)] vals run by blast
qed

lemma artifact_storable:
  assumes "codec wd rd sd vd" "codec ws rs ss vs" "codec wc rc sc vc" "valid_artifact vd vs vc x"
    and "length (stored (voter_journal_cfg wd rd sd ws rs ss wc rc sc n crc pack unpack) x) \<le> u32_max"
  shows "storable (voter_journal_cfg wd rd sd ws rs ss wc rc sc n crc pack unpack) x"
  using simplex_codec.artifact_contract [OF simplex_codec.intro [OF assms(1-3)]] assms(4,5)
  by (intro storable_codec [where ok = "valid_artifact vd vs vc"]) (simp_all add: voter_journal_cfg_def)

text \<open>
  The voter of the sample run, with digests, signatures and certificates that are written as varints, on an empty partition: it crashes before
  its first effect, starts again and carries out the effects of its first timeout.
\<close>

definition sample_journal :: "(nat, nat, nat) artifact journal_cfg" where
  "sample_journal = voter_journal_cfg write_view read_view size_view write_view read_view size_view write_view read_view size_view 8 (\<lambda>_. 0) (\<lambda>_ _. None) (\<lambda>_. None)"

lemma sample_artifact:
  "stored sample_journal (ANullify sample_nullify) = [3, 1, 1, 0, 7]" "storable sample_journal (ANullify sample_nullify)"
proof -
  have "unat (word_of_nat 1 :: u64) < 128" "unat (word_of_nat 7 :: u64) < 128" "unat (word_of_nat 0 :: u32) < 128" by simp_all
  then have "encode (write_artifact write_view write_view write_view) (size_artifact size_view size_view size_view)
      (ANullify sample_nullify) = Ok [3, 1, 1, 0, 7]"
    by (simp add: encode_small write_rnd_def size_rnd_def write_view_def size_view_def sample_nullify_def
      write_nullify_def size_nullify_def write_attestation_def size_attestation_def write_signer_def size_signer_def)
  then show st: "stored sample_journal (ANullify sample_nullify) = [3, 1, 1, 0, 7]"
    by (simp add: stored_def sample_journal_def voter_journal_cfg_def item_encode_def)
  show "storable sample_journal (ANullify sample_nullify)"
    unfolding sample_journal_def
    by (rule artifact_storable [OF view.codec_axioms view.codec_axioms view.codec_axioms])
      (use st in \<open>simp_all add: valid_rnd_def valid_attestation_def u64_max_def u32_max_def sample_nullify_def flip: sample_journal_def\<close>)
qed

lemma sample_restart:
  assumes "survives w_empty w" "reachable sample_config 0 (Down w)" "stream w = []"
  shows "carries_out sample_config 0 w (a_out sample_timeout)" "effects_fit sample_journal (a_out sample_timeout) w"
proof -
  obtain a where a: "actor_new 0 sample_config = Ok a" "actor_start 0 (stream w) a = Ok sample_start" using sample_new assms(3) by auto
  have "reachable sample_config 0 (Up w sample_start)" by (rule reachable.start [OF assms(2) a])
  moreover have "ends (loop_iteration 30 EvTimeout True sample_start) sample_timeout" by (simp add: ends_def sample_loop)
  ultimately show "carries_out sample_config 0 w (a_out sample_timeout)" unfolding carries_out_def by blast
  have "entries w 1 = []" using assms(1) by (auto simp: survives_def w_empty_def entries_def bt_get_def)
  then show "effects_fit sample_journal (a_out sample_timeout) w"
    using sample_artifact small_u64 [of 1] length_entry_of [of sample_journal "ANullify sample_nullify"]
      length_head [of sample_journal "ANullify sample_nullify"]
    by (simp add: sample_loop exec.simps layout_Cons padded_def fits_def align_def u32_max_def)
qed

theorem voter_journal_on_disk_witness:
  "\<exists>pr j items j' w' answers j''. pool_ref_new 4 2 = Ok pr \<and> journal_init (mem_ops ''log'') sample_journal pr (sample_partition []) = Ok j
    \<and> journal_replay (mem_ops ''log'') sample_journal 0 0 4 j = Ok (items, None, j')
    \<and> survives w_empty w' \<and> map (\<lambda>(_, _, _, x). x) items = stream w'
    \<and> journal_run (mem_ops ''log'') sample_journal (journal_calls (a_out sample_timeout)) j' = Ok (answers, j'')
    \<and> survivor sample_journal (disk_of (execs (a_out sample_timeout) w')) (mem_files ''log'' (jr_store j''))"
proof -
  have "ends (loop_iteration 30 EvTimeout True sample_start) sample_timeout" by (simp add: ends_def sample_loop)
  then have c: "carries_out sample_config 0 w_empty []"
    using sample_started Nil_prefix unfolding carries_out_def by blast
  have d: "execs [] w_empty = (w_empty :: (nat, nat, nat) world)" "disk_of (w_empty :: (nat, nat, nat) world) = Map.empty"
    by (simp_all add: execs_def disk_of_def w_empty_def bt_get_Nil)
  have "crash_rest sample_journal (disk_of (execs [] w_empty)) (mem_files ''log'' (sample_partition []))"
    by (simp add: sample_partition_ok crash_rest_def d)
  note v = voter_journal_on_disk [OF c sample_scheme_ok sample_store_ok(1) sample_partition_ok(1) this, of 4 2 4, unfolded d]
  obtain pr j items j' w' where r: "pool_ref_new 4 2 = Ok pr" "journal_init (mem_ops ''log'') sample_journal pr (sample_partition []) = Ok j"
      "journal_replay (mem_ops ''log'') sample_journal 0 0 4 j = Ok (items, None, j')" "survives w_empty w'"
      "reachable sample_config 0 (Down w')" "map (\<lambda>(_, _, _, x). x) items = stream w'"
      "\<forall>fs. carries_out sample_config 0 w' fs \<longrightarrow> effects_fit sample_journal fs w' \<longrightarrow> card (dom Map.empty) + length fs \<le> u64_max \<longrightarrow>
        (\<exists>answers j''. journal_run (mem_ops ''log'') sample_journal (journal_calls fs) j' = Ok (answers, j'')
          \<and> mem_inv (jr_store j'') \<and> survivor sample_journal (disk_of (execs fs w')) (mem_files ''log'' (jr_store j'')))"
    by (rule exE [OF v]) (simp_all add: small_u64, blast)
  have "entries w' v = [] \<and> bt_inv (w_sections w')" for v using r(4) by (auto simp: survives_def w_empty_def entries_def bt_get_def)
  then have "stream w' = []" by (fastforce simp: stream_def entries_def bt_get_Some split: option.splits)
  note sample_restart [OF r(4,5) this]
  moreover have "card (dom Map.empty) + length (a_out sample_timeout) \<le> u64_max" by (simp add: sample_loop small_u64)
  ultimately show ?thesis using r by blast
qed

end
