(* ===== verification/Spec2Isabelle.thy ===== *)
theory Spec2Isabelle
  imports RMap Journal_Prune Voter_Disk
begin

text \<open>
  A model of parts of the commonware library (Rust, under \<open>src/\<close>) and the theorems that make them
  correct. The library is a set of crates for building distributed systems; the parts here are the
  ones the others rest on: the byte encodings of every message and stored item (\<open>codec\<close>), a range map
  used to track gaps in stored indices (\<open>storage/src/rmap\<close>), buffered and cached access to blobs
  (\<open>runtime/src/utils/buffer\<close>, \<open>runtime/src/storage\<close>), the segmented journal on top of it
  (\<open>storage/src/journal/segmented\<close>), and the voter of the simplex consensus protocol
  (\<open>consensus/src/simplex\<close>), which encodes its messages with the first and keeps them in the last.

  \<^bold>\<open>Conventions.\<close> Fallible code returns a \<open>result\<close> (\<open>Prelude\<close>): \<open>Ok\<close>, \<open>Err\<close> for an error the code returns
  and \<open>Panic\<close> for a failed assertion, an \<open>expect\<close> or an arithmetic overflow. Numbers that are only
  added, subtracted and compared are naturals with checked operations at \<open>u64\<close> width; numbers on which
  the code works bitwise are words. Buffers are byte lists: a writer gives the bytes, a reader takes a
  buffer and gives the value and the rest. A \<open>BTreeMap\<close> is an ascending association list (\<open>BTree\<close>).
  Loops are recursions with a termination proof. Three loops take fuel: the reads of the page pool and
  of the buffered reader (as many rounds as bytes are asked for, each round copies at least one byte)
  and the replay of a section (as many rounds as the section has sixteen-byte units, each item starts
  at a later unit); \<open>pool_ref_read_ok\<close>, \<open>read_exact_ok\<close> and \<open>replay_section_ok\<close> show that it suffices.

  \<^bold>\<open>Codec.\<close> \<open>Codec\<close> has the traits of \<open>codec/src/codec.rs\<close> and the range configuration, and the contract
  of an encoding as the locale \<open>codec\<close>: written values read back, only written bytes are accepted, the
  announced size is the number of bytes, and reading never panics. \<open>Varint\<close> models \<open>varint.rs\<close> (decoder,
  encoder and ZigZag at every width), \<open>Codec_Types\<close> and \<open>Codec_Net\<close> the encodings under \<open>codec/src/types\<close>;
  each is an interpretation of the contract, or derives it from the contracts of its parts.

  \<^bold>\<open>Range map.\<close> \<open>RMap\<close> models \<open>storage/src/rmap/mod.rs\<close>: the ranges stay sorted, disjoint and
  non-adjacent, and the map refines a set of indices.

  \<^bold>\<open>Blobs.\<close> \<open>Blob_Store\<close> has the operations of a storage as a record and what a store promises of them as
  the locale \<open>blob_store\<close> (what a handle reads, what is durable after a sync, which names exist), and the
  in-memory storage (\<open>storage/memory.rs\<close>) as its interpretation. \<open>Blob_Write\<close> models the tip buffer and the
  buffered writer (\<open>tip.rs\<close>, \<open>write.rs\<close>), which is indistinguishable from the blob it wraps; \<open>Blob_Pool\<close>
  the page cache with the clock policy (\<open>pool.rs\<close>); \<open>Blob_Append\<close> the append-only blob over both
  (\<open>append.rs\<close>), which behaves like a byte array as long as it is not grown by \<open>resize\<close>; \<open>Blob_Read\<close> the
  buffered reader (\<open>read.rs\<close>), over anything that can be read (the locale \<open>readable\<close>, which every
  append-only blob is, by a \<open>sublocale\<close>).

  \<^bold>\<open>Journal.\<close> \<open>Journal_Item\<close> models the format of an item of \<open>variable.rs\<close> and the two ways to read it,
  \<open>Journal_Section\<close> the replay of one section, \<open>Journal_Variable\<close> every operation of the journal.
  \<open>Journal_Contract\<close> says what a journal stands for, a list of items per section with the number of
  durable ones, and proves what append, get, sync and prune do to it; \<open>Journal_Recovery\<close> proves that
  opening and replaying the files a crash leaves gives a prefix of every section with all its durable
  items. The files a crash leaves (\<open>crash_rest\<close>) have the durable items of a section, then a prefix of the bytes
  after them, or more items and a torn one: arbitrary bytes that are too short for an item or fail its checksum. A tail that
  looks like an item with a correct checksum is excluded, since the journal cannot tell it from one, and so is a tail whose
  length does not decode, where the replay ends with an error and repairs nothing. Both theories are inside \<open>blob_store\<close>
  and so hold for any storage that keeps the contract; \<open>Journal_Spec\<close> states them for the in-memory storage, and what
  happens to the excluded tail. \<open>Journal_Prune\<close> runs every operation of the journal, rewinds and replays included, over any
  storage and shows that what was pruned stays refused.

  \<^bold>\<open>Consensus.\<close> \<open>Consensus_Types\<close> models epochs, views, rounds and epoch arithmetic
  (\<open>consensus/src/types.rs\<close>), \<open>Simplex_Types\<close> the messages of \<open>simplex/types.rs\<close> and their encodings.
  \<open>Voter_Round\<close> models the proposal slot and the state of one view (\<open>voter/slot.rs\<close>, \<open>voter/round.rs\<close>),
  \<open>Voter_State\<close> the state over all views (\<open>voter/state.rs\<close>), \<open>Voter_Run\<close> its runs and their properties:
  the invariant, exactly when an operation panics, the choice of parents, timeouts and pruning. The operations come in
  any order; two conditions on their arguments (\<open>op_legal\<close>) are what the actor guarantees when it calls them. \<open>Voter_Actor\<close> models
  the actor (\<open>voter/actor.rs\<close>): its handlers, the replay of the journal and one iteration of its loop,
  with the effects on the journal, the network and the other actors as a list. \<open>Voter_Core\<close> states
  which operations change the votes of a view. \<open>Voter_Journal\<close> executes the effects on an abstract world:
  the sections of the journal, how much of each is durable, and the votes sent; a crash keeps the
  durable part of each section and possibly more (\<open>survives\<close>). A prune is one effect: a crash between the removals of two
  sections is not a state of its own. An append below the pruned bound, which the journal refuses and the actor then
  panics on, would be executed; \<open>traces_ok\<close> shows that the actor never asks for one. \<open>Voter_Live\<close> follows the handlers and
  \<open>Voter_Loop\<close> the iterations of the loop: what is sent is recorded first, and what is recorded agrees
  with the state of its view. \<open>Voter_Replay\<close> shows that the replay rebuilds that state from the journal.
  \<open>Voter_Safety\<close> combines them over the states reachable through any number of crashes: votes never
  contradict each other, are durable and are remembered, and the state keeps its invariant. \<open>Voter_Disk\<close> connects the two halves: the
  segmented journal, over any files a crash can leave, implements the abstract world, and accepts every effect that the
  actor carries out (\<open>carries_out\<close>) as long as the artifacts fit the disk.

  \<^bold>\<open>Not modelled.\<close> The crates whose code is input and output, asynchronous plumbing or cryptography
  from external libraries: the executors and the operating-system storages of the runtime, the network
  (\<open>p2p\<close>, \<open>stream\<close>), the deployer, macros and examples, signatures and hashes. A signing scheme, an elector
  and a digest are parameters where a modelled part uses them, and so are the checksum and the
  compression of the journal. Operations are taken one at a time: tasks that share a page fetch of the
  pool are not modelled, nor is the state an operation leaves behind when it returns an error, nor a
  replay stream after its first error. Rewinding a journal is modelled but not part of the recovery
  theorems, since its effect is durable only after the next sync. Metrics and logging are left out. An orderly shutdown of
  the actor, which only closes the journal, is covered by a crash that keeps everything. Times are naturals: the overflow of an
  addition to the clock is not modelled. An error of the codec that wraps another one keeps its context and drops the cause.
\<close>

end
